(* ===== verification/Prelude.thy ===== *)
theory Prelude
  imports Main "HOL-Library.Word" "HOL-Library.Signed_Division"
begin

text \<open>
  The vocabulary the other theories share: the machine integers of \<open>include/type.h\<close>,
  the ways in which kernel code stops instead of returning, the sequencing of fallible
  steps, and generic lemmas on lists and words.
\<close>

unbundle bit_operations_syntax

section \<open>Machine integers\<close>

text \<open>
  A C \<open>int\<close> is a 32-bit word read with \<open>sint\<close>; an unsigned integer is a word read with
  \<open>unat\<close>. Equality of a C \<open>int\<close> with a \<open>uint32_t\<close> converts the signed operand, so it is
  equality of the two words. Addresses are 32 bits wide (the kernel is built with
  \<open>-m32\<close>).
\<close>

type_synonym u8 = "8 word"
type_synonym u16 = "16 word"
type_synonym u32 = "32 word"
type_synonym c_int = "32 word"
type_synonym addr = "32 word"

text \<open>\<open>/\<close> and \<open>%\<close> on \<open>int\<close> truncate towards zero.\<close>

definition c_div :: "c_int \<Rightarrow> c_int \<Rightarrow> c_int" where
  "c_div a b = word_of_int (sint a sdiv sint b)"

definition c_mod :: "c_int \<Rightarrow> c_int \<Rightarrow> c_int" where
  "c_mod a b = word_of_int (sint a smod sint b)"

section \<open>How kernel code stops\<close>

text \<open>
  \<open>Assert_failure e\<close>: \<open>ASSERT(e)\<close> failed; \<open>assert_failure\<close> prints and spins for ever.
  \<open>Critical s\<close>: \<open>CRITICAL(s)\<close> printed and executed \<open>ud2\<close>.
  \<open>Out_of_table i\<close>: the code used \<open>proc_table[i]\<close> with \<open>i\<close> outside the table, which C
  leaves undefined. \<open>Null_pointer\<close>: the code dereferenced \<open>NULL\<close>.
  \<open>Divide_error\<close>: the machine's division faults. \<open>Wild_copy n\<close>: \<open>memcpy\<close> was given the
  negative number \<open>n\<close>, which it takes for almost 4 GiB, so that it overwrites the kernel
  itself. \<open>No_return\<close>: a loop of the code runs for ever.
\<close>

datatype stop =
    Assert_failure string
  | Critical string
  | Out_of_table c_int
  | Null_pointer
  | Divide_error
  | Wild_copy c_int
  | No_return

definition ASSERT :: "bool \<Rightarrow> string \<Rightarrow> stop + 'a \<Rightarrow> stop + 'a" where
  "ASSERT e name k = (if e then k else Inl (Assert_failure name))"

definition andThen :: "stop + 'a \<Rightarrow> ('a \<Rightarrow> stop + 'b) \<Rightarrow> stop + 'b" where
  "andThen r f = (case r of Inl e \<Rightarrow> Inl e | Inr x \<Rightarrow> f x)"

text \<open>A loop is a \<open>partial_function\<close>; not returning becomes a way to stop.\<close>

definition returns :: "'a option \<Rightarrow> stop + 'a" where
  "returns r = (case r of None \<Rightarrow> Inl No_return | Some x \<Rightarrow> Inr x)"

text \<open>The same for a loop whose body can itself stop.\<close>

definition returns_or_stops :: "(stop + 'a) option \<Rightarrow> stop + 'a" where
  "returns_or_stops r = (case r of None \<Rightarrow> Inl No_return | Some x \<Rightarrow> x)"

named_theorems stop_simps \<open>rules that compute with the stop monad\<close>

lemma ASSERT_simps [simp, stop_simps]:
  "ASSERT True name k = k"
  "ASSERT False name k = Inl (Assert_failure name)"
  by (simp_all add: ASSERT_def)

lemma andThen_simps [simp, stop_simps]:
  "andThen (Inl e) f = Inl e"
  "andThen (Inr x) f = f x"
  by (simp_all add: andThen_def)

lemma returns_simps [simp, stop_simps]:
  "returns None = Inl No_return"
  "returns (Some x) = Inr x"
  by (simp_all add: returns_def)

lemma returns_or_stops_simps [simp, stop_simps]:
  "returns_or_stops None = Inl No_return"
  "returns_or_stops (Some x) = x"
  by (simp_all add: returns_or_stops_def)

lemma andThen_Inr_iff:
  "andThen r f = Inr y \<longleftrightarrow> (\<exists>x. r = Inr x \<and> f x = Inr y)"
  by (cases r) auto

lemma ASSERT_Inr_iff: "ASSERT e name k = Inr y \<longleftrightarrow> e \<and> k = Inr y"
  by (simp add: ASSERT_def)

lemma returns_Inr_iff [simp]: "returns r = Inr y \<longleftrightarrow> r = Some y"
  by (cases r) auto

section \<open>Lists and words\<close>

lemma nth_list_update_same_or:
  "i < length xs \<Longrightarrow> xs[j := y] ! i = (if i = j then y else xs ! i)"
  by (simp add: nth_list_update)

lemma word_of_nat_eq_iff_less:
  fixes i j :: nat
  assumes "i < 2 ^ LENGTH('a::len)" and "j < 2 ^ LENGTH('a)"
  shows "(of_nat i :: 'a word) = of_nat j \<longleftrightarrow> i = j"
  using assms by (metis unat_of_nat mod_less)

lemma of_nat_u32_eq_iff:
  "i < 4294967296 \<Longrightarrow> j < 4294967296 \<Longrightarrow> (of_nat i :: u32) = of_nat j \<longleftrightarrow> i = j"
  by (rule word_of_nat_eq_iff_less) simp_all

lemma unat_of_nat_u32 [simp]: "i < 4294967296 \<Longrightarrow> unat (of_nat i :: u32) = i"
  by (simp add: unat_of_nat)

lemma unat_u32_less [simp]: "unat (w :: u32) < 4294967296"
  using unsigned_less [of w] by simp

lemma unat_u8_less [simp]: "unat (w :: u8) < 256"
  using unsigned_less [of w] by simp

lemma diff_eq_u32_iff: "(a :: u32) - d = x \<longleftrightarrow> a = d + x"
  by (auto simp: algebra_simps)

lemma unat_diff_eq_iff:
  "n < 4294967296 \<Longrightarrow> unat (a - d) = n \<longleftrightarrow> a = d + (of_nat n :: u32)"
  by (simp add: word_unat_eq_iff [of "a - d" "of_nat n", symmetric, simplified]
      flip: diff_eq_u32_iff) (metis unat_of_nat_u32 word_unat_eq_iff)

text \<open>A window of addresses, without wrap-around.\<close>

lemma unat_diff_less_iff:
  fixes x :: u32
  assumes "c + n \<le> 4294967296" and "c < 4294967296"
  shows "unat (x - of_nat c) < n \<longleftrightarrow> c \<le> unat x \<and> unat x < c + n"
proof -
  have c: "unat (of_nat c :: u32) = c" using assms(2) by (rule unat_of_nat_u32)
  show ?thesis
  proof (cases "c \<le> unat x")
    case True
    then show ?thesis by (simp add: unat_sub_if' c) arith
  next
    case False
    then show ?thesis using assms by (simp add: unat_sub_if' c)
  qed
qed

text \<open>Division of numbers that are not negative.\<close>

lemma sint_nonneg: "0 \<le> sint (a :: c_int) \<Longrightarrow> sint a = int (unat a)"
  using uint_sint [of a] sint_lt [of a] by (simp add: take_bit_int_eq_self unat_eq_nat_uint)

lemma sint_small:
  assumes "unat (a :: c_int) < 2147483648"
  shows "sint a = int (unat a)"
proof -
  have "sint a = signed_take_bit 31 (uint a)" using sint_uint [of a] by simp
  also have "\<dots> = uint a"
  proof (rule signed_take_bit_int_eq_self)
    have p: "(2 :: int) ^ 31 = 2147483648" by simp
    show "- (2 ^ 31) \<le> uint a" unfolding p uint_nat by linarith
    show "uint a < 2 ^ 31" unfolding p uint_nat using assms by linarith
  qed
  finally show ?thesis by (simp only: uint_nat)
qed

lemma sdiv_of_nat: "int m sdiv int n = int (m div n)"
proof (cases "m = 0 \<or> n = 0")
  case False
  then have "sgn (int m) = 1" "sgn (int n) = 1" by (simp_all add: sgn_if)
  then show ?thesis by (simp only: signed_divide_int_def abs_of_nat mult_1 of_nat_div)
qed (auto simp: signed_divide_int_def)

lemma smod_of_nat: "int m smod int n = int (m mod n)"
proof (cases "m = 0")
  case False
  then have "sgn (int m) = 1" by (simp_all add: sgn_if)
  then show ?thesis by (simp only: signed_modulo_int_def abs_of_nat mult_1 of_nat_mod)
qed (auto simp: signed_modulo_int_def)

lemma c_div_nonneg:
  assumes "0 \<le> sint a" and "0 < sint b"
  shows "c_div a b = of_nat (unat a div unat b)" and "c_mod a b = of_nat (unat a mod unat b)"
proof -
  have u: "sint a = int (unat a)" "sint b = int (unat b)"
    using sint_nonneg [of a] sint_nonneg [of b] assms by linarith+
  show "c_div a b = of_nat (unat a div unat b)" "c_mod a b = of_nat (unat a mod unat b)"
    unfolding c_div_def c_mod_def u sdiv_of_nat smod_of_nat by (simp_all only: of_int_of_nat_eq)
qed

text \<open>Counting a positive \<open>int\<close> down.\<close>

lemma sint_minus_1:
  fixes t :: c_int
  assumes "0 <s t"
  shows "sint (t - 1) = sint t - 1"
proof -
  have "0 < sint t" using assms by (simp add: word_sless_alt)
  moreover have "sint t < 2 ^ 31" using sint_lt [of t] by simp
  ultimately show ?thesis by (simp add: sint_word_ariths signed_take_bit_int_eq_self)
qed

text \<open>A \<open>char\<close> that was widened comes back.\<close>

lemma ucast_u8_u32_u8 [simp]: "(ucast (ucast (x :: u8) :: u32) :: u8) = x"
  by (rule bit_word_eqI) (simp add: bit_simps)

end
