(* ===== verification/Core.thy ===== *)
theory Core
  imports Prelude
begin

text \<open>
  Segment descriptors, interrupt gates and the task state segment: \<open>include/kernel/core.h\<close>
  and the encoding routines of \<open>kernel/core.c\<close>. Against them stands how the processor
  reads the tables back (base, limit, offset, privilege), so that the encodings have
  round trips.
\<close>

section \<open>The tables\<close>

record descriptor =
  limit_low :: u16
  base_low :: u16
  base_mid :: u8
  attr1 :: u8
  limit_high_attr2 :: u8
  base_high :: u8

record gate =
  offset_low :: u16
  selector :: u16
  d_count :: u8
  gate_attr :: u8
  offset_high :: u16

record tss =
  tss_back :: u32
  tss_esp0 :: u32
  tss_ss0 :: u32
  tss_esp1 :: u32
  tss_ss1 :: u32
  tss_esp2 :: u32
  tss_ss2 :: u32
  tss_cr3 :: u32
  tss_eip :: u32
  tss_flags :: u32
  tss_eax :: u32
  tss_ecx :: u32
  tss_edx :: u32
  tss_ebx :: u32
  tss_esp :: u32
  tss_ebp :: u32
  tss_esi :: u32
  tss_edi :: u32
  tss_es :: u32
  tss_cs :: u32
  tss_ss :: u32
  tss_ds :: u32
  tss_fs :: u32
  tss_gs :: u32
  tss_ldt :: u32
  tss_trap :: u32
  tss_iobase :: u32

abbreviation (input) GDT_SIZE :: nat where "GDT_SIZE \<equiv> 128"
abbreviation (input) IDT_SIZE :: nat where "IDT_SIZE \<equiv> 256"
abbreviation (input) LDT_SIZE :: nat where "LDT_SIZE \<equiv> 2"
abbreviation (input) SIZEOF_DESCRIPTOR :: nat where "SIZEOF_DESCRIPTOR \<equiv> 8"
abbreviation (input) SIZEOF_TSS :: u32 where "SIZEOF_TSS \<equiv> 108"

abbreviation (input) INDEX_TSS :: nat where "INDEX_TSS \<equiv> 4"
abbreviation (input) INDEX_LDT_FIRST :: nat where "INDEX_LDT_FIRST \<equiv> 5"
abbreviation (input) INDEX_LDT_RW :: nat where "INDEX_LDT_RW \<equiv> 1"
abbreviation (input) SELECTOR_KERNEL_CS :: u16 where "SELECTOR_KERNEL_CS \<equiv> 0x08"
abbreviation (input) SELECTOR_KERNEL_DS :: u16 where "SELECTOR_KERNEL_DS \<equiv> 0x10"
abbreviation (input) SELECTOR_KERNEL_GS :: u16 where "SELECTOR_KERNEL_GS \<equiv> 0x1b"
abbreviation (input) SELECTOR_LDT_FIRST :: u16 where "SELECTOR_LDT_FIRST \<equiv> 0x28"

text \<open>Attributes (\<open>include/kernel/attribute.h\<close>).\<close>

abbreviation (input) PRI_KRNL :: u8 where "PRI_KRNL \<equiv> 0"
abbreviation (input) PRI_TASK :: u8 where "PRI_TASK \<equiv> 1"
abbreviation (input) PRI_USER :: u8 where "PRI_USER \<equiv> 3"
abbreviation (input) DA_DRW :: u8 where "DA_DRW \<equiv> 0x92"
abbreviation (input) DA_C :: u8 where "DA_C \<equiv> 0x98"
abbreviation (input) DA_LDT :: u16 where "DA_LDT \<equiv> 0x82"
abbreviation (input) DA_386TSS :: u16 where "DA_386TSS \<equiv> 0x89"
abbreviation (input) DA_386IGate :: u8 where "DA_386IGate \<equiv> 0x8e"
abbreviation (input) SA_RPL_MASK :: u32 where "SA_RPL_MASK \<equiv> 0xfffc"
abbreviation (input) SA_TI_MASK :: u32 where "SA_TI_MASK \<equiv> 0xfffb"
abbreviation (input) RPL_TASK :: u32 where "RPL_TASK \<equiv> 1"
abbreviation (input) RPL_USER :: u32 where "RPL_USER \<equiv> 3"
abbreviation (input) SA_TIL :: u32 where "SA_TIL \<equiv> 4"

section \<open>Encoding\<close>

definition init_descriptor :: "u32 \<Rightarrow> u32 \<Rightarrow> u16 \<Rightarrow> descriptor" where
  "init_descriptor base limit attr = \<lparr>
     limit_low = ucast (limit AND 0x0FFFF),
     base_low = ucast (base AND 0x0FFFF),
     base_mid = ucast (drop_bit 16 base AND 0x0FF),
     attr1 = ucast (attr AND 0xFF),
     limit_high_attr2 =
       ucast (((drop_bit 16 limit AND 0x0F) OR ucast (drop_bit 8 attr)) AND 0xF0),
     base_high = ucast (drop_bit 24 base AND 0x0FF)\<rparr>"

text \<open>
  The base a descriptor denotes, as \<open>seg2phys\<close> and \<open>ldt_linear_addr\<close> compute it (and as
  the processor does).
\<close>

definition desc_base :: "descriptor \<Rightarrow> u32" where
  "desc_base d = push_bit 24 (ucast (base_high d)) OR push_bit 16 (ucast (base_mid d))
     OR ucast (base_low d)"

definition seg2phys :: "descriptor list \<Rightarrow> u16 \<Rightarrow> u32" where
  "seg2phys gdt seg = desc_base (gdt ! unat (drop_bit 3 seg))"

definition vir2phys :: "u32 \<Rightarrow> u32 \<Rightarrow> u32" where
  "vir2phys seg_base vir = seg_base + vir"

text \<open>How the processor reads the 20-bit limit and the attributes of a descriptor.\<close>

definition desc_limit :: "descriptor \<Rightarrow> u32" where
  "desc_limit d = ucast (limit_low d) OR push_bit 16 (ucast (limit_high_attr2 d AND 0x0F))"

definition desc_attr :: "descriptor \<Rightarrow> u16" where
  "desc_attr d = ucast (attr1 d) OR push_bit 8 (ucast (limit_high_attr2 d AND 0xF0))"

text \<open>
  The macro \<open>Descriptor\<close> with which the boot loader builds its own table
  (\<open>boot/include/pm.s\<close>): the 16-bit item \<open>((Limit >> 8) & 0xf00) | (Attr & 0xf0ff)\<close> puts
  its low byte at \<open>attr1\<close> and its high byte at \<open>limit_high_attr2\<close>.
\<close>

definition loader_Descriptor :: "u32 \<Rightarrow> u32 \<Rightarrow> u16 \<Rightarrow> descriptor" where
  "loader_Descriptor base limit attr =
     (let item = ucast (drop_bit 8 limit AND 0xf00) OR (attr AND 0xf0ff) :: u16
      in \<lparr>limit_low = ucast (limit AND 0xffff),
          base_low = ucast (base AND 0xffff),
          base_mid = ucast (drop_bit 16 base AND 0xff),
          attr1 = ucast item,
          limit_high_attr2 = ucast (drop_bit 8 item),
          base_high = ucast (drop_bit 24 base AND 0xff)\<rparr>)"

text \<open>The four entries of the loader's table, which \<open>init_pm_env\<close> copies (\<open>boot/loader.s\<close>).\<close>

definition loader_gdt :: "descriptor list" where
  "loader_gdt =
     [loader_Descriptor 0 0 0,
      loader_Descriptor 0 0xfffff 0xc09a,
      loader_Descriptor 0 0xfffff 0xc092,
      loader_Descriptor 0xb8000 0xffff 0xf2]"

text \<open>
  \<open>init_idt_desc\<close> writes one gate; \<open>handler\<close> is the address of the entry point.
\<close>

definition init_idt_desc :: "u8 \<Rightarrow> u8 \<Rightarrow> addr \<Rightarrow> u8 \<Rightarrow> gate list \<Rightarrow> gate list" where
  "init_idt_desc vector type handler privilege idt = idt[unat vector := \<lparr>
     offset_low = ucast (handler AND 0xffff),
     selector = SELECTOR_KERNEL_CS,
     d_count = 0,
     gate_attr = type OR push_bit 5 privilege,
     offset_high = ucast (drop_bit 16 handler AND 0xffff)\<rparr>]"

text \<open>How the processor reads a gate: entry point and descriptor privilege level.\<close>

definition gate_offset :: "gate \<Rightarrow> addr" where
  "gate_offset g = ucast (offset_low g) OR push_bit 16 (ucast (offset_high g))"

definition gate_dpl :: "gate \<Rightarrow> u8" where
  "gate_dpl g = drop_bit 5 (gate_attr g) AND 3"

definition gate_present :: "gate \<Rightarrow> bool" where
  "gate_present g \<longleftrightarrow> bit (gate_attr g) 7"

section \<open>Round trips\<close>

text \<open>Two 32-bit words are equal when their 32 bits are.\<close>

lemma u32_eqI:
  fixes v w :: u32
  assumes "list_all (\<lambda>n. bit v n = bit w n) [0..<32]"
  shows "v = w"
  by (rule bit_word_eqI) (use assms in \<open>simp add: list_all_iff\<close>)

lemma upt_0_32:
  "[0..<32] = [0, 1, 2, 3, 4, 5, 6, 7, 8, 9, 10, 11, 12, 13, 14, 15,
     16, 17, 18, 19, 20, 21, 22, 23, 24, 25, 26, 27, 28, 29, 30, 31]"
  by code_simp

lemma desc_base_init_descriptor [simp]: "desc_base (init_descriptor base limit attr) = base"
  by (rule u32_eqI) (simp add: upt_0_32 desc_base_def init_descriptor_def bit_simps)

lemma gate_offset_init:
  "unat v < length idt \<Longrightarrow> gate_offset (init_idt_desc v type h p idt ! unat v) = h"
  by (rule u32_eqI) (simp add: upt_0_32 gate_offset_def init_idt_desc_def bit_simps)

lemma desc_limit_init_descriptor:
  "desc_limit (init_descriptor base limit attr) = limit AND 0xFFFF"
  by (rule u32_eqI) (simp add: upt_0_32 desc_limit_def init_descriptor_def bit_simps)


lemma upt_0_16: "[0..<16] = [0, 1, 2, 3, 4, 5, 6, 7, 8, 9, 10, 11, 12, 13, 14, 15]"
  by code_simp

lemma u16_eqI:
  fixes v w :: u16
  assumes "list_all (\<lambda>n. bit v n = bit w n) [0..<16]"
  shows "v = w"
  by (rule bit_word_eqI) (use assms in \<open>simp add: list_all_iff\<close>)

lemma upt_0_8: "[0..<8] = [0, 1, 2, 3, 4, 5, 6, 7]"
  by code_simp

lemma u8_eqI:
  fixes v w :: u8
  assumes "list_all (\<lambda>n. bit v n = bit w n) [0..<8]"
  shows "v = w"
  by (rule bit_word_eqI) (use assms in \<open>simp add: list_all_iff\<close>)

lemma desc_attr_init_descriptor:
  "desc_attr (init_descriptor base limit attr) = attr AND 0xF0FF"
  by (rule u16_eqI) (simp add: upt_0_16 desc_attr_def init_descriptor_def bit_simps)

lemma init_descriptor_attr2:
  "limit_high_attr2 (init_descriptor base limit attr) =
   limit_high_attr2 (loader_Descriptor base limit attr) AND 0xF0"
  by (rule u8_eqI)
     (simp add: upt_0_8 init_descriptor_def loader_Descriptor_def Let_def bit_simps)

lemma loader_attr1: "attr1 (loader_Descriptor base limit attr) = attr1 (init_descriptor base limit attr)"
  by (rule u8_eqI)
     (simp add: upt_0_8 init_descriptor_def loader_Descriptor_def Let_def bit_simps)

lemma loader_limit_nibble:
  "limit_high_attr2 (loader_Descriptor base limit attr) AND 0x0F = ucast (drop_bit 16 limit) AND 0x0F"
  by (rule u8_eqI) (simp add: upt_0_8 loader_Descriptor_def Let_def bit_simps)

lemma nibble_AND_F0_iff: "(x :: u8) AND 0xF0 = x \<longleftrightarrow> x AND 0x0F = 0"
proof
  assume x: "x AND 0xF0 = x"
  have "x AND 0x0F = (x AND 0xF0) AND 0x0F" using x by simp
  also have "\<dots> = 0" by (rule u8_eqI) (simp add: upt_0_8 bit_simps)
  finally show "x AND 0x0F = 0" .
next
  assume x: "x AND 0x0F = 0"
  have "x = (x AND 0xF0) OR (x AND 0x0F)" by (rule u8_eqI) (auto simp: upt_0_8 bit_simps)
  then show "x AND 0xF0 = x" using x by simp
qed

section \<open>Filling the tables\<close>

text \<open>
  \<open>lnk\<close> is the address the linker gives an entry point of the assembly files. Each call
  of \<open>init_idt_desc\<close> is an entry (vector, entry point, privilege); all of them pass
  \<open>DA_386IGate\<close>.
\<close>

type_synonym symbols = "string \<Rightarrow> addr"

definition init_gates :: "symbols \<Rightarrow> (u8 \<times> string \<times> u8) list \<Rightarrow> gate list \<Rightarrow> gate list" where
  "init_gates lnk tbl idt =
     fold (\<lambda>(vector, handler, privilege). init_idt_desc vector DA_386IGate (lnk handler) privilege)
       tbl idt"

text \<open>Vectors (\<open>include/kernel/exception.h\<close>, \<open>include/kernel/interrupt.h\<close>).\<close>

abbreviation (input) INT_VECTOR_DIVISION_BY_ERROR :: u8 where "INT_VECTOR_DIVISION_BY_ERROR \<equiv> 0x0"
abbreviation (input) INT_VECTOR_DEBUGGER :: u8 where "INT_VECTOR_DEBUGGER \<equiv> 0x1"
abbreviation (input) INT_VECTOR_NMI :: u8 where "INT_VECTOR_NMI \<equiv> 0x2"
abbreviation (input) INT_VECTOR_BREAKPOINT :: u8 where "INT_VECTOR_BREAKPOINT \<equiv> 0x3"
abbreviation (input) INT_VECTOR_OVERFLOW :: u8 where "INT_VECTOR_OVERFLOW \<equiv> 0x4"
abbreviation (input) INT_VECTOR_BOUNDS :: u8 where "INT_VECTOR_BOUNDS \<equiv> 0x5"
abbreviation (input) INT_VECTOR_INVALILD_OPCODE :: u8 where "INT_VECTOR_INVALILD_OPCODE \<equiv> 0x6"
abbreviation (input) INT_VECTOR_COPR_NOT_AVAIL :: u8 where "INT_VECTOR_COPR_NOT_AVAIL \<equiv> 0x7"
abbreviation (input) INT_VECTOR_DOUBLE_FAULT :: u8 where "INT_VECTOR_DOUBLE_FAULT \<equiv> 0x8"
abbreviation (input) INT_VECTOR_COPR_SEG_OVERRUN :: u8 where "INT_VECTOR_COPR_SEG_OVERRUN \<equiv> 0x9"
abbreviation (input) INT_VECTOR_INVALID_TSS :: u8 where "INT_VECTOR_INVALID_TSS \<equiv> 0xA"
abbreviation (input) INT_VECTOR_SEG_NOT_PRESENT :: u8 where "INT_VECTOR_SEG_NOT_PRESENT \<equiv> 0xB"
abbreviation (input) INT_VECTOR_STACK_FAULT :: u8 where "INT_VECTOR_STACK_FAULT \<equiv> 0xC"
abbreviation (input) INT_VECTOR_GERNERAL_PROTECT_FAULT :: u8 where "INT_VECTOR_GERNERAL_PROTECT_FAULT \<equiv> 0xD"
abbreviation (input) INT_VECTOR_PAGE_FAULT :: u8 where "INT_VECTOR_PAGE_FAULT \<equiv> 0xE"
abbreviation (input) INT_VECTOR_RESERVED :: u8 where "INT_VECTOR_RESERVED \<equiv> 0xF"
abbreviation (input) INT_VECTOR_MATH_FAULT :: u8 where "INT_VECTOR_MATH_FAULT \<equiv> 0x10"
abbreviation (input) INT_VECTOR_ALIGN_CHECK :: u8 where "INT_VECTOR_ALIGN_CHECK \<equiv> 0x11"
abbreviation (input) INT_VECTOR_MACHINE_CHECK :: u8 where "INT_VECTOR_MACHINE_CHECK \<equiv> 0x12"
abbreviation (input) INT_VECTOR_SIMD_FLOAT_POINT_EXECPT :: u8 where "INT_VECTOR_SIMD_FLOAT_POINT_EXECPT \<equiv> 0x13"
abbreviation (input) INT_VECTOR_IRQ0 :: u8 where "INT_VECTOR_IRQ0 \<equiv> 0x20"
abbreviation (input) INT_VECTOR_IRQ8 :: u8 where "INT_VECTOR_IRQ8 \<equiv> 0x28"
abbreviation (input) INT_VECTOR_SYS_CALL :: u8 where "INT_VECTOR_SYS_CALL \<equiv> 0x90"

definition hw_exceptions :: "(u8 \<times> string \<times> u8) list" where
  "hw_exceptions =
     [(INT_VECTOR_DIVISION_BY_ERROR, ''division_by_error_exception'', PRI_KRNL),
      (INT_VECTOR_DEBUGGER, ''debugger_exception'', PRI_KRNL),
      (INT_VECTOR_NMI, ''nmi_exception'', PRI_KRNL),
      (INT_VECTOR_BREAKPOINT, ''breakpoint_exception'', PRI_USER),
      (INT_VECTOR_OVERFLOW, ''overflow_exception'', PRI_USER),
      (INT_VECTOR_BOUNDS, ''bounds_exception'', PRI_KRNL),
      (INT_VECTOR_INVALILD_OPCODE, ''invalid_opcode_exception'', PRI_KRNL),
      (INT_VECTOR_COPR_NOT_AVAIL, ''coprocessor_not_available_exception'', PRI_KRNL),
      (INT_VECTOR_DOUBLE_FAULT, ''double_foult_exception'', PRI_KRNL),
      (INT_VECTOR_COPR_SEG_OVERRUN, ''coprocessor_segment_overrun_exception'', PRI_KRNL),
      (INT_VECTOR_INVALID_TSS, ''invalid_task_state_segment_exception'', PRI_KRNL),
      (INT_VECTOR_SEG_NOT_PRESENT, ''segment_not_present_exception'', PRI_KRNL),
      (INT_VECTOR_STACK_FAULT, ''stack_fault_exception'', PRI_KRNL),
      (INT_VECTOR_GERNERAL_PROTECT_FAULT, ''general_protected_fault_exception'', PRI_KRNL),
      (INT_VECTOR_PAGE_FAULT, ''page_fault_exception'', PRI_KRNL),
      (INT_VECTOR_RESERVED, ''reserved'', PRI_KRNL),
      (INT_VECTOR_MATH_FAULT, ''math_fault_exception'', PRI_KRNL),
      (INT_VECTOR_ALIGN_CHECK, ''alignment_check_exception'', PRI_KRNL),
      (INT_VECTOR_MACHINE_CHECK, ''machine_check_exception'', PRI_KRNL),
      (INT_VECTOR_SIMD_FLOAT_POINT_EXECPT, ''simd_floating_point_exception'', PRI_KRNL)]"

definition hw_interrupts :: "(u8 \<times> string \<times> u8) list" where
  "hw_interrupts =
     [(INT_VECTOR_IRQ0, ''hw_int00'', PRI_KRNL), (INT_VECTOR_IRQ0 + 1, ''hw_int01'', PRI_KRNL),
      (INT_VECTOR_IRQ0 + 2, ''hw_int02'', PRI_KRNL), (INT_VECTOR_IRQ0 + 3, ''hw_int03'', PRI_KRNL),
      (INT_VECTOR_IRQ0 + 4, ''hw_int04'', PRI_KRNL), (INT_VECTOR_IRQ0 + 5, ''hw_int05'', PRI_KRNL),
      (INT_VECTOR_IRQ0 + 6, ''hw_int06'', PRI_KRNL), (INT_VECTOR_IRQ0 + 7, ''hw_int07'', PRI_KRNL),
      (INT_VECTOR_IRQ8, ''hw_int08'', PRI_KRNL), (INT_VECTOR_IRQ8 + 1, ''hw_int09'', PRI_KRNL),
      (INT_VECTOR_IRQ8 + 2, ''hw_int10'', PRI_KRNL), (INT_VECTOR_IRQ8 + 3, ''hw_int11'', PRI_KRNL),
      (INT_VECTOR_IRQ8 + 4, ''hw_int12'', PRI_KRNL), (INT_VECTOR_IRQ8 + 5, ''hw_int13'', PRI_KRNL),
      (INT_VECTOR_IRQ8 + 6, ''hw_int14'', PRI_KRNL), (INT_VECTOR_IRQ8 + 7, ''hw_int15'', PRI_KRNL)]"

definition init_hw_exception_idt :: "symbols \<Rightarrow> gate list \<Rightarrow> gate list" where
  "init_hw_exception_idt lnk = init_gates lnk hw_exceptions"

definition init_hw_interrupt_idt :: "symbols \<Rightarrow> gate list \<Rightarrow> gate list" where
  "init_hw_interrupt_idt lnk = init_gates lnk hw_interrupts"

definition init_sw_interrupt_idt :: "symbols \<Rightarrow> gate list \<Rightarrow> gate list" where
  "init_sw_interrupt_idt lnk = init_gates lnk [(INT_VECTOR_SYS_CALL, ''sys_call'', PRI_USER)]"

text \<open>
  \<open>proc_table[i].ldt\<close> stands \<open>74\<close> bytes into the \<open>i\<close>-th \<open>PROCESS\<close>, whose size is
  152 bytes (\<open>include/kernel/process.h\<close> laid out for i386).
\<close>

abbreviation (input) TOTAL_TASK_CNT :: nat where "TOTAL_TASK_CNT \<equiv> 7"

definition ldt_addr :: "addr \<Rightarrow> nat \<Rightarrow> addr" where
  "ldt_addr proc_table_addr i = proc_table_addr + 152 * of_nat i + 74"

text \<open>The \<open>for\<close> loop of \<open>init_ldt_descs\<close> from task \<open>i\<close> on, \<open>left\<close> tasks to go.\<close>

fun init_ldt_descs_loop :: "nat \<Rightarrow> nat \<Rightarrow> u16 \<Rightarrow> addr \<Rightarrow> descriptor list \<Rightarrow> descriptor list" where
  "init_ldt_descs_loop 0 i selector_ldt pt gdt = gdt"
| "init_ldt_descs_loop (Suc left) i selector_ldt pt gdt =
     init_ldt_descs_loop left (i + 1) (selector_ldt + push_bit 3 1) pt
       (gdt[unat (drop_bit 3 selector_ldt) :=
          init_descriptor (vir2phys (seg2phys gdt SELECTOR_KERNEL_DS) (ldt_addr pt i))
            (of_nat (LDT_SIZE * SIZEOF_DESCRIPTOR - 1)) DA_LDT])"

definition init_ldt_descs :: "addr \<Rightarrow> descriptor list \<Rightarrow> descriptor list" where
  "init_ldt_descs pt gdt = init_ldt_descs_loop TOTAL_TASK_CNT 0 SELECTOR_LDT_FIRST pt gdt"

text \<open>\<open>memset(&tss, 0, sizeof(tss))\<close>.\<close>

definition zero_tss :: tss where
  "zero_tss = \<lparr>
     tss_back = 0, tss_esp0 = 0, tss_ss0 = 0, tss_esp1 = 0, tss_ss1 = 0, tss_esp2 = 0, tss_ss2 = 0, tss_cr3 = 0, tss_eip = 0,
     tss_flags = 0, tss_eax = 0, tss_ecx = 0, tss_edx = 0, tss_ebx = 0, tss_esp = 0, tss_ebp = 0, tss_esi = 0, tss_edi = 0,
     tss_es = 0, tss_cs = 0, tss_ss = 0, tss_ds = 0, tss_fs = 0, tss_gs = 0, tss_ldt = 0, tss_trap = 0, tss_iobase = 0\<rparr>"

definition init_tss :: "addr \<Rightarrow> descriptor list \<Rightarrow> tss \<times> descriptor list" where
  "init_tss tss_addr gdt =
     (zero_tss\<lparr>tss_ss0 := ucast SELECTOR_KERNEL_DS, tss_iobase := SIZEOF_TSS\<rparr>,
      gdt[INDEX_TSS := init_descriptor (vir2phys (seg2phys gdt SELECTOR_KERNEL_DS) tss_addr)
            (SIZEOF_TSS - 1) DA_386TSS])"


section \<open>What the filled tables say\<close>

lemma length_init_idt_desc [simp]: "length (init_idt_desc v t h p idt) = length idt"
  by (simp add: init_idt_desc_def)

lemma init_idt_desc_other [simp]:
  "v \<noteq> w \<Longrightarrow> init_idt_desc v t h p idt ! unat w = idt ! unat w"
  by (simp add: init_idt_desc_def word_unat_eq_iff)

lemma length_init_gates [simp]: "length (init_gates lnk tbl idt) = length idt"
  by (induction tbl arbitrary: idt) (auto simp: init_gates_def)

text \<open>
  A table of gates with distinct vectors: its vectors hold the gate of their entry, every
  other vector keeps what it held.
\<close>

lemma init_gates_Cons:
  "init_gates lnk ((v, h, p) # tbl) idt =
   init_gates lnk tbl (init_idt_desc v DA_386IGate (lnk h) p idt)"
  by (simp add: init_gates_def)

lemma init_gates_other:
  "w \<notin> fst ` set tbl \<Longrightarrow> init_gates lnk tbl idt ! unat w = idt ! unat w"
proof (induction tbl arbitrary: idt)
  case (Cons e tbl)
  then show ?case by (cases e) (auto simp: init_gates_Cons)
qed (simp add: init_gates_def)

lemma init_gates_entry:
  "(v, h, p) \<in> set tbl \<Longrightarrow> distinct (map fst tbl) \<Longrightarrow> unat v < length idt \<Longrightarrow>
   init_gates lnk tbl idt ! unat v = init_idt_desc v DA_386IGate (lnk h) p idt ! unat v"
proof (induction tbl arbitrary: idt)
  case (Cons e tbl)
  obtain w g q where e: "e = (w, g, q)" by (cases e) auto
  show ?case
  proof (cases "e = (v, h, p)")
    case True
    with Cons.prems have "v \<notin> fst ` set tbl" by auto
    with True show ?thesis by (simp add: init_gates_Cons init_gates_other)
  next
    case False
    with Cons.prems have "(v, h, p) \<in> set tbl" and "v \<noteq> w" by (auto simp: e rev_image_eqI)
    with Cons.IH [of "init_idt_desc w DA_386IGate (lnk g) q idt"] Cons.prems show ?thesis
      by (simp add: e init_gates_Cons) (simp add: init_idt_desc_def)
  qed
qed simp

lemma gate_dpl_init:
  "unat v < length idt \<Longrightarrow> p AND 3 = p \<Longrightarrow>
   gate_dpl (init_idt_desc v DA_386IGate h p idt ! unat v) = p"
proof -
  assume "unat v < length idt" and p: "p AND 3 = p"
  moreover have "drop_bit 5 (0x8e OR push_bit 5 p) AND 3 = p AND (3 :: u8)"
    by (rule u8_eqI) (simp add: upt_0_8 bit_simps)
  ultimately show ?thesis by (simp add: gate_dpl_def init_idt_desc_def)
qed

lemma gate_present_init:
  "unat v < length idt \<Longrightarrow> p AND 3 = p \<Longrightarrow>
   gate_present (init_idt_desc v DA_386IGate h p idt ! unat v)"
  by (simp add: gate_present_def init_idt_desc_def bit_simps)


text \<open>The interrupt table after the three routines, in the order \<open>init_pm_env\<close> calls them.\<close>

definition init_idt :: "symbols \<Rightarrow> gate list \<Rightarrow> gate list" where
  "init_idt lnk idt = init_sw_interrupt_idt lnk (init_hw_interrupt_idt lnk (init_hw_exception_idt lnk idt))"

definition idt_entries :: "(u8 \<times> string \<times> u8) list" where
  "idt_entries = hw_exceptions @ hw_interrupts @ [(INT_VECTOR_SYS_CALL, ''sys_call'', PRI_USER)]"

lemma init_idt_entries: "init_idt lnk idt = init_gates lnk idt_entries idt"
  by (simp add: init_idt_def init_sw_interrupt_idt_def init_hw_interrupt_idt_def
      init_hw_exception_idt_def init_gates_def idt_entries_def)

lemma distinct_idt_entries: "distinct (map fst idt_entries)"
  by (simp add: idt_entries_def hw_exceptions_def hw_interrupts_def)

lemma idt_entries_privileges:
  "(v, h, p) \<in> set idt_entries \<Longrightarrow>
   p AND 3 = p \<and> (p = PRI_USER \<longleftrightarrow> v = 0x03 \<or> v = 0x04 \<or> v = 0x90)"
  by (auto simp: idt_entries_def hw_exceptions_def hw_interrupts_def)

lemma init_idt_gate:
  assumes "(v, h, p) \<in> set idt_entries" and "length idt = IDT_SIZE"
  shows "gate_offset (init_idt lnk idt ! unat v) = lnk h"
    and "gate_dpl (init_idt lnk idt ! unat v) = p"
    and "gate_present (init_idt lnk idt ! unat v)"
proof -
  have v: "unat v < length idt" using assms(2) by simp
  have gate: "init_idt lnk idt ! unat v = init_idt_desc v DA_386IGate (lnk h) p idt ! unat v"
    unfolding init_idt_entries using assms(1) distinct_idt_entries v by (rule init_gates_entry)
  have p: "p AND 3 = p" using idt_entries_privileges [OF assms(1)] by simp
  show "gate_offset (init_idt lnk idt ! unat v) = lnk h"
    unfolding gate using v by (rule gate_offset_init)
  show "gate_dpl (init_idt lnk idt ! unat v) = p"
    unfolding gate using v p by (rule gate_dpl_init)
  show "gate_present (init_idt lnk idt ! unat v)"
    unfolding gate using v p by (rule gate_present_init)
qed

text \<open>The \<open>LDT\<close> descriptors stand at \<open>INDEX_LDT_FIRST + i\<close>, one per process.\<close>

lemma init_ldt_descs_unfold:
  "init_ldt_descs pt gdt =
     (let d = (\<lambda>i. init_descriptor (seg2phys gdt SELECTOR_KERNEL_DS + ldt_addr pt i) 15 DA_LDT)
      in gdt[5 := d 0, 6 := d 1, 7 := d 2, 8 := d 3, 9 := d 4, 10 := d 5, 11 := d 6])"
proof -
  have "init_ldt_descs pt gdt =
    init_ldt_descs_loop (Suc (Suc (Suc (Suc (Suc (Suc (Suc 0))))))) 0 SELECTOR_LDT_FIRST pt gdt"
    by (simp add: init_ldt_descs_def eval_nat_numeral)
  then show ?thesis
    by (simp add: seg2phys_def vir2phys_def ldt_addr_def Let_def)
qed

lemma init_ldt_descs_entry:
  assumes "length gdt = GDT_SIZE" and "i < TOTAL_TASK_CNT"
  shows "desc_base (init_ldt_descs pt gdt ! (INDEX_LDT_FIRST + i)) =
      seg2phys gdt SELECTOR_KERNEL_DS + ldt_addr pt i"
    and "desc_limit (init_ldt_descs pt gdt ! (INDEX_LDT_FIRST + i)) = 15"
proof -
  consider "i = 0" | "i = 1" | "i = 2" | "i = 3" | "i = 4" | "i = 5" | "i = 6"
    using assms(2) by linarith
  then have "desc_base (init_ldt_descs pt gdt ! (INDEX_LDT_FIRST + i)) =
      seg2phys gdt SELECTOR_KERNEL_DS + ldt_addr pt i \<and>
      desc_limit (init_ldt_descs pt gdt ! (INDEX_LDT_FIRST + i)) = 15"
    by cases (use assms(1) in \<open>simp_all add: init_ldt_descs_unfold Let_def desc_limit_init_descriptor\<close>)
  then show "desc_base (init_ldt_descs pt gdt ! (INDEX_LDT_FIRST + i)) =
      seg2phys gdt SELECTOR_KERNEL_DS + ldt_addr pt i"
    and "desc_limit (init_ldt_descs pt gdt ! (INDEX_LDT_FIRST + i)) = 15" by simp_all
qed

section \<open>Properties\<close>

text \<open>
  A descriptor built by \<open>init_descriptor\<close> denotes the given base for every 32-bit base
  and keeps every attribute bit, but of the limit only the low 16 bits: the four high
  bits are masked away.
\<close>

theorem init_descriptor_decodes:
  "desc_base (init_descriptor base limit attr) = base \<and>
   desc_attr (init_descriptor base limit attr) = attr AND 0xF0FF \<and>
   desc_limit (init_descriptor base limit attr) = limit AND 0xFFFF"
  by (simp add: desc_attr_init_descriptor desc_limit_init_descriptor)

text \<open>
  C40. The C routine and the loader's assembly macro build the same descriptor exactly when
  bits 16 to 19 of the limit are zero.
\<close>

theorem init_descriptor_agrees_with_loader:
  "init_descriptor base limit attr = loader_Descriptor base limit attr \<longleftrightarrow>
   drop_bit 16 limit AND 0x0F = 0"
proof -
  have "init_descriptor base limit attr = loader_Descriptor base limit attr \<longleftrightarrow>
    limit_high_attr2 (init_descriptor base limit attr) =
    limit_high_attr2 (loader_Descriptor base limit attr)"
    using loader_attr1 [of base limit attr, symmetric]
    by (auto simp: init_descriptor_def loader_Descriptor_def Let_def)
  also have "\<dots> \<longleftrightarrow> (ucast (drop_bit 16 limit) AND 0x0F :: u8) = 0"
    by (simp add: init_descriptor_attr2 nibble_AND_F0_iff loader_limit_nibble)
  also have "(ucast (drop_bit 16 limit) AND 0x0F :: u8) = ucast (drop_bit 16 limit AND 0x0F)"
    by (rule u8_eqI) (simp add: upt_0_8 bit_simps)
  also have "ucast (drop_bit 16 limit AND 0x0F) = (0 :: u8) \<longleftrightarrow> drop_bit 16 limit AND 0x0F = 0"
  proof
    assume z: "ucast (drop_bit 16 limit AND 0x0F) = (0 :: u8)"
    have "drop_bit 16 limit AND 0x0F = (ucast (ucast (drop_bit 16 limit AND 0x0F) :: u8) :: u32)"
      by (rule u32_eqI) (simp add: upt_0_32 bit_simps)
    with z show "drop_bit 16 limit AND 0x0F = 0" by simp
  qed simp
  finally show ?thesis .
qed

text \<open>
  After the interrupt table is initialised from an empty one, user code can raise
  exactly the vectors 3, 4 and 0x90 (breakpoint, overflow, system call): every other
  vector is absent or reserved to the kernel.
\<close>

theorem idt_user_vectors:
  fixes v :: u8
  assumes "length idt = IDT_SIZE" and "\<forall>g\<in>set idt. \<not> gate_present g"
  shows "gate_present (init_idt lnk idt ! unat v) \<and> gate_dpl (init_idt lnk idt ! unat v) = PRI_USER
    \<longleftrightarrow> v = 0x03 \<or> v = 0x04 \<or> v = 0x90"
proof (cases "v \<in> fst ` set idt_entries")
  case True
  then obtain h p where e: "(v, h, p) \<in> set idt_entries" by force
  show ?thesis
    using init_idt_gate [OF e assms(1), of lnk] idt_entries_privileges [OF e] by simp
next
  case False
  then have "init_idt lnk idt ! unat v = idt ! unat v"
    by (simp add: init_idt_entries init_gates_other)
  moreover have "idt ! unat v \<in> set idt"
    using assms(1) by simp
  moreover have "v \<noteq> 0x03 \<and> v \<noteq> 0x04 \<and> v \<noteq> 0x90"
    using False by (auto simp: idt_entries_def hw_exceptions_def)
  ultimately show ?thesis using assms(2) by auto
qed

theorem idt_user_vectors_witness:
  "let g = init_idt (\<lambda>_. 0x30400)
     (replicate 256 \<lparr>offset_low = 0, selector = 0, d_count = 0, gate_attr = 0, offset_high = 0\<rparr>)
       ! unat (0x90 :: u8)
   in gate_present g \<and> gate_dpl g = PRI_USER"
proof -
  let ?idt = "replicate 256 \<lparr>offset_low = 0, selector = 0, d_count = 0, gate_attr = 0, offset_high = 0\<rparr>"
  have "length ?idt = 256" by simp
  moreover have "\<forall>g\<in>set ?idt. \<not> gate_present g" by (simp add: gate_present_def)
  ultimately show ?thesis
    using idt_user_vectors [of ?idt "\<lambda>_. 0x30400" "0x90"] by (simp add: Let_def)
qed

text \<open>
  Every exception, hardware interrupt and system call vector the code installs leads to
  the entry point and the privilege given for it.
\<close>

lemma idt_vectors_installed:
  assumes "(v, h, p) \<in> set idt_entries" and "length idt = IDT_SIZE"
  shows "gate_offset (init_idt lnk idt ! unat v) = lnk h \<and>
    gate_dpl (init_idt lnk idt ! unat v) = p \<and> gate_present (init_idt lnk idt ! unat v)"
  using init_idt_gate [OF assms] by simp

text \<open>
  \<open>init_ldt_descs\<close> gives process \<open>i\<close> the descriptor at \<open>INDEX_LDT_FIRST + i\<close>, whose
  base is the physical address of the process' own table and whose limit spans its two
  descriptors; the loader's segments and the TSS keep their entries.
\<close>

lemma init_ldt_descs_installs:
  assumes "length gdt = GDT_SIZE" and "i < TOTAL_TASK_CNT"
  shows "desc_base (init_ldt_descs pt gdt ! (INDEX_LDT_FIRST + i)) =
      seg2phys gdt SELECTOR_KERNEL_DS + ldt_addr pt i \<and>
    desc_limit (init_ldt_descs pt gdt ! (INDEX_LDT_FIRST + i)) = 15 \<and>
    (\<forall>j<INDEX_LDT_FIRST. init_ldt_descs pt gdt ! j = gdt ! j)"
  using init_ldt_descs_entry [OF assms] assms(1) by (simp add: init_ldt_descs_unfold Let_def)

end
