(* ===== verification/Lib_String.thy ===== *)
theory Lib_String
  imports Prelude
begin

text \<open>
  The byte memory of the machine and the routines of \<open>lib/string.c\<close> on it. Memory maps
  every 32-bit address to a byte; address arithmetic wraps around, as it does on the
  machine. The loops of \<open>strlen\<close> and \<open>strcmp\<close> need not end (memory may hold no zero
  byte), so they are \<open>partial_function\<close>s: \<open>None\<close> is a call that does not return.
\<close>

section \<open>Memory\<close>

type_synonym mem = "addr \<Rightarrow> u8"

text \<open>Little-endian access to an \<open>int\<close> or \<open>uint32_t\<close> in memory.\<close>

definition load32 :: "mem \<Rightarrow> addr \<Rightarrow> u32" where
  "load32 m a = ucast (m a) OR push_bit 8 (ucast (m (a + 1)))
     OR push_bit 16 (ucast (m (a + 2))) OR push_bit 24 (ucast (m (a + 3)))"

definition store32 :: "addr \<Rightarrow> u32 \<Rightarrow> mem \<Rightarrow> mem" where
  "store32 a v m = m(a := ucast v, a + 1 := ucast (drop_bit 8 v),
     a + 2 := ucast (drop_bit 16 v), a + 3 := ucast (drop_bit 24 v))"

text \<open>A \<open>uint16_t\<close>, and the bytes of a string literal.\<close>

definition load16 :: "mem \<Rightarrow> addr \<Rightarrow> u32" where
  "load16 m a = ucast (m a) OR push_bit 8 (ucast (m (a + 1)))"

definition chars :: "string \<Rightarrow> u8 list" where
  "chars s = map (\<lambda>c. of_nat (of_char c)) s"

text \<open>\<open>in_block a b n\<close>: address \<open>a\<close> lies in the \<open>n\<close> bytes that start at \<open>b\<close>.\<close>

definition in_block :: "addr \<Rightarrow> addr \<Rightarrow> nat \<Rightarrow> bool" where
  "in_block a b n \<longleftrightarrow> unat (a - b) < n"

lemma in_block_less: "in_block x a n \<Longrightarrow> n \<le> k \<Longrightarrow> in_block x a k"
  by (simp add: in_block_def)

lemma load32_store32 [simp]: "load32 (store32 a v m) a = v"
proof (rule bit_word_eqI)
  fix n assume "n < LENGTH(32)"
  then consider "n < 8" | "8 \<le> n" "n < 16" | "16 \<le> n" "n < 24" | "24 \<le> n" "n < 32"
    by fastforce
  then show "bit (load32 (store32 a v m) a) n = bit v n"
    by cases (auto simp: load32_def store32_def bit_simps)
qed

lemma in_block_start [simp]: "0 < n \<Longrightarrow> in_block a a n"
  by (simp add: in_block_def)

lemma in_block_offset:
  "i < n \<Longrightarrow> n < 4294967296 \<Longrightarrow> in_block (b + of_nat i) b n"
  by (simp add: in_block_def)

lemma in_block_iff_offset:
  assumes "n < 4294967296"
  shows "in_block a b n \<longleftrightarrow> (\<exists>i<n. a = b + of_nat i)"
proof
  assume "in_block a b n"
  then have "unat (a - b) < n" by (simp add: in_block_def)
  moreover have "a = b + of_nat (unat (a - b))" by simp
  ultimately show "\<exists>i<n. a = b + of_nat i" by blast
qed (use assms in \<open>auto intro: in_block_offset\<close>)

lemma store32_frame: "\<not> in_block x a 4 \<Longrightarrow> store32 a v m x = m x"
proof -
  assume "\<not> in_block x a 4"
  then have "\<forall>i<4. x \<noteq> a + of_nat i" by (simp add: in_block_iff_offset)
  from this [rule_format, of 0] this [rule_format, of 1]
    this [rule_format, of 2] this [rule_format, of 3]
  have "x \<noteq> a" "x \<noteq> a + 1" "x \<noteq> a + 2" "x \<noteq> a + 3" by simp_all
  then show ?thesis by (simp add: store32_def)
qed

lemma store32_twice_frame: "\<not> in_block x a 8 \<Longrightarrow> store32 (a + 4) v (store32 a w m) x = m x"
proof -
  assume x: "\<not> in_block x a 8"
  have "\<not> in_block x (a + 4) 4"
  proof
    assume "in_block x (a + 4) 4"
    then obtain i where "i < 4" "x = a + 4 + of_nat i" using in_block_iff_offset [of 4 x "a + 4"] by auto
    then have "4 + i < 8" "x = a + of_nat (4 + i)" by (simp_all add: add.assoc)
    then show False using x in_block_offset [of "4 + i" 8 a] by (simp only:) simp
  qed
  moreover have "\<not> in_block x a 4" using x by (simp add: in_block_def)
  ultimately show ?thesis by (simp add: store32_frame)
qed

lemma load32_cong:
  "(\<And>i. i < 4 \<Longrightarrow> m (a + of_nat i) = m' (b + of_nat i)) \<Longrightarrow> load32 m a = load32 m' b"
proof -
  assume eq: "\<And>i. i < 4 \<Longrightarrow> m (a + of_nat i) = m' (b + of_nat i)"
  show ?thesis
    using eq [of 0] eq [of 1] eq [of 2] eq [of 3] by (simp add: load32_def)
qed

lemma load32_store32_next [simp]: "load32 (store32 (a + 4) v m) a = load32 m a"
proof (rule load32_cong)
  fix i :: nat assume "i < 4"
  then have "i = 0 \<or> i = 1 \<or> i = 2 \<or> i = 3" by linarith
  then show "store32 (a + 4) v m (a + of_nat i) = m (a + of_nat i)"
    by (auto intro!: store32_frame simp: in_block_def unsigned_minus_1_eq_mask mask_eq_exp_minus_1)
qed

section \<open>memcpy and memset\<close>

text \<open>The loop of \<open>memcpy\<close>: one byte per round, lowest address first.\<close>

fun memcpy_loop :: "nat \<Rightarrow> addr \<Rightarrow> addr \<Rightarrow> mem \<Rightarrow> mem" where
  "memcpy_loop 0 dest src m = m"
| "memcpy_loop (Suc cnt) dest src m = memcpy_loop cnt (dest + 1) (src + 1) (m(dest := m src))"

definition memcpy :: "addr \<Rightarrow> addr \<Rightarrow> u32 \<Rightarrow> mem \<Rightarrow> mem" where
  "memcpy dest src cnt m = memcpy_loop (unat cnt) dest src m"

text \<open>The \<open>for\<close> loop of \<open>memset\<close>, with its counter \<open>i\<close>.\<close>

fun memset_loop :: "nat \<Rightarrow> u32 \<Rightarrow> addr \<Rightarrow> u8 \<Rightarrow> mem \<Rightarrow> mem" where
  "memset_loop 0 i src c m = m"
| "memset_loop (Suc left) i src c m = memset_loop left (i + 1) src c (m(src + i := c))"

definition memset :: "addr \<Rightarrow> u8 \<Rightarrow> u32 \<Rightarrow> mem \<Rightarrow> mem" where
  "memset src c cnt m = memset_loop (unat cnt) 0 src c m"

lemma memcpy_loop_snoc:
  "memcpy_loop (Suc n) d s m =
     (memcpy_loop n d s m)(d + of_nat n := memcpy_loop n d s m (s + of_nat n))"
proof (induction n arbitrary: d s m)
  case 0
  then show ?case by simp
next
  case (Suc n)
  have "memcpy_loop (Suc (Suc n)) d s m = memcpy_loop (Suc n) (d + 1) (s + 1) (m(d := m s))"
    by simp
  also have "\<dots> = (memcpy_loop n (d + 1) (s + 1) (m(d := m s)))
      (d + 1 + of_nat n := memcpy_loop n (d + 1) (s + 1) (m(d := m s)) (s + 1 + of_nat n))"
    by (rule Suc.IH)
  finally show ?case by (simp add: add.assoc)
qed

lemma memcpy_loop_copies:
  assumes "d = s \<or> n \<le> unat (d - s)" and "n < 4294967296"
  shows "memcpy_loop n d s m = (\<lambda>a. if unat (a - d) < n then m (s + (a - d)) else m a)"
  using assms
proof (induction n)
  case 0
  then show ?case by simp
next
  case (Suc n)
  have IH: "memcpy_loop n d s m = (\<lambda>a. if unat (a - d) < n then m (s + (a - d)) else m a)"
    using Suc by auto
  have n: "unat (of_nat n :: u32) = n" using Suc.prems by simp
  have src: "memcpy_loop n d s m (s + of_nat n) = m (s + of_nat n)"
  proof (cases "d = s")
    case True
    show ?thesis unfolding IH using True n by simp
  next
    case False
    have "\<not> unat (s + of_nat n - d) < n"
    proof
      assume a: "unat (s + of_nat n - d) < n"
      have "d - s = of_nat n - (s + of_nat n - d)" by simp
      moreover have "unat (of_nat n - (s + of_nat n - d)) = n - unat (s + of_nat n - d)"
        using a n by (metis unat_sub word_le_nat_alt less_imp_le)
      ultimately show False using Suc.prems False by simp
    qed
    then show ?thesis by (simp add: IH)
  qed
  have at: "unat (a - d) = n \<longleftrightarrow> a = d + of_nat n" for a
    using Suc.prems by (intro unat_diff_eq_iff) simp
  show ?case
    unfolding memcpy_loop_snoc src
    by (rule ext) (use at in \<open>auto simp: IH less_Suc_eq\<close>)
qed

text \<open>
  \<open>memcpy\<close> copies the block as it was before the call exactly when the destination does
  not start inside the source, past its first byte; nothing outside the destination
  changes.
\<close>

lemma memcpy_eq:
  assumes "d = s \<or> cnt \<le> d - s"
  shows "memcpy d s cnt m = (\<lambda>a. if in_block a d (unat cnt) then m (s + (a - d)) else m a)"
proof -
  have "d = s \<or> unat cnt \<le> unat (d - s)" using assms by (simp add: word_le_nat_alt)
  moreover have "unat cnt < 4294967296" by simp
  ultimately show ?thesis
    unfolding memcpy_def in_block_def by (rule memcpy_loop_copies)
qed

lemma memcpy_loop_frame:
  "unat (a - d) \<ge> n \<Longrightarrow> n < 4294967296 \<Longrightarrow> memcpy_loop n d s m a = m a"
proof (induction n)
  case (Suc n)
  then have "a \<noteq> d + of_nat n" using unat_diff_eq_iff [of n a d] by simp
  then show ?case using Suc unfolding memcpy_loop_snoc by simp
qed simp

lemma memcpy_frame: "\<not> in_block a d (unat cnt) \<Longrightarrow> memcpy d s cnt m a = m a"
  unfolding memcpy_def in_block_def
  by (rule memcpy_loop_frame) simp_all

lemma memset_loop_eq:
  "n + unat i < 4294967296 \<Longrightarrow> memset_loop n i src c m =
     (\<lambda>a. if unat i \<le> unat (a - src) \<and> unat (a - src) < unat i + n then c else m a)"
proof (induction n arbitrary: i m)
  case 0
  then show ?case by (auto simp: fun_eq_iff)
next
  case (Suc n)
  have i: "unat (i + 1) = unat i + 1"
    using Suc.prems by (simp add: unat_add_lem [THEN iffD1] unat_word_ariths)
  have at: "a = src + i \<longleftrightarrow> unat (a - src) = unat i" for a
    using unat_diff_eq_iff [of "unat i" a src] by simp
  have "memset_loop (Suc n) i src c m = memset_loop n (i + 1) src c (m(src + i := c))" by simp
  also have "\<dots> = (\<lambda>a. if unat (i + 1) \<le> unat (a - src) \<and> unat (a - src) < unat (i + 1) + n
      then c else (m(src + i := c)) a)"
    by (rule Suc.IH) (use Suc.prems i in simp)
  finally show ?case
    unfolding i by (auto simp: fun_eq_iff at)
qed

lemma memset_eq:
  "memset src c cnt m = (\<lambda>a. if in_block a src (unat cnt) then c else m a)"
  unfolding memset_def in_block_def
  by (subst memset_loop_eq) (auto simp: fun_eq_iff)

section \<open>The routines on C strings\<close>

text \<open>\<open>while (*src++) len++\<close>.\<close>

partial_function (option) strlen_loop :: "mem \<Rightarrow> addr \<Rightarrow> c_int \<Rightarrow> c_int option" where
  "strlen_loop m src len =
     (if m src \<noteq> 0 then strlen_loop m (src + 1) (len + 1) else Some len)"

definition strlen :: "mem \<Rightarrow> addr \<Rightarrow> c_int option" where
  "strlen m src = strlen_loop m src 0"

text \<open>\<open>strcpy\<close> is \<open>memcpy(dest, src, strlen(src))\<close>.\<close>

definition strcpy :: "addr \<Rightarrow> addr \<Rightarrow> mem \<Rightarrow> mem option" where
  "strcpy dest src m =
     (case strlen m src of None \<Rightarrow> None | Some n \<Rightarrow> Some (memcpy dest src n m))"

text \<open>A \<open>char\<close> is signed and is promoted to \<open>int\<close> before the subtraction.\<close>

fun memcmp_loop :: "nat \<Rightarrow> addr \<Rightarrow> addr \<Rightarrow> mem \<Rightarrow> c_int" where
  "memcmp_loop 0 s1 s2 m = 0"
| "memcmp_loop (Suc cnt) s1 s2 m =
     (let result = scast (m s1) - scast (m s2)
      in if result \<noteq> 0 then result else memcmp_loop cnt (s1 + 1) (s2 + 1) m)"

definition memcmp :: "addr \<Rightarrow> addr \<Rightarrow> u32 \<Rightarrow> mem \<Rightarrow> c_int" where
  "memcmp s1 s2 cnt m = memcmp_loop (unat cnt) s1 s2 m"

partial_function (option) strcmp :: "mem \<Rightarrow> addr \<Rightarrow> addr \<Rightarrow> c_int option" where
  "strcmp m s1 s2 =
     (if m s1 \<noteq> 0 \<and> m s1 = m s2 then strcmp m (s1 + 1) (s2 + 1)
      else Some (scast (m s1) - scast (m s2)))"

section \<open>C strings\<close>

text \<open>\<open>cstring m a xs\<close>: the bytes \<open>xs\<close>, none of them zero, stand at \<open>a\<close>, then a zero byte.\<close>

fun cstring :: "mem \<Rightarrow> addr \<Rightarrow> u8 list \<Rightarrow> bool" where
  "cstring m a [] \<longleftrightarrow> m a = 0"
| "cstring m a (x # xs) \<longleftrightarrow> m a = x \<and> x \<noteq> 0 \<and> cstring m (a + 1) xs"

lemma cstring_nth:
  "cstring m a xs \<longleftrightarrow>
     (\<forall>i<length xs. m (a + of_nat i) = xs ! i) \<and> 0 \<notin> set xs \<and> m (a + of_nat (length xs)) = 0"
proof (induction xs arbitrary: a)
  case (Cons x xs)
  show ?case
    by (auto simp: Cons.IH All_less_Suc2 add.assoc)
qed simp

lemma strlen_loop_cstring:
  "cstring m a xs \<Longrightarrow> strlen_loop m a len = Some (len + of_nat (length xs))"
proof (induction xs arbitrary: a len)
  case Nil
  then show ?case by (simp add: strlen_loop.simps)
next
  case (Cons x xs)
  then show ?case by (simp add: strlen_loop.simps [of m a] add.assoc)
qed

lemma strlen_cstring: "cstring m a xs \<Longrightarrow> strlen m a = Some (of_nat (length xs))"
  by (simp add: strlen_def strlen_loop_cstring)

text \<open>A C string is shorter than the address space: its end differs from every other byte.\<close>

lemma cstring_length: "cstring m a xs \<Longrightarrow> length xs < 4294967296"
proof (rule ccontr)
  assume s: "cstring m a xs" and "\<not> length xs < 4294967296"
  then have len: "4294967296 \<le> length xs" by simp
  define i where "i = unat (of_nat (length xs) :: u32)"
  have "i < length xs" using len unat_u32_less [of "of_nat (length xs)"] by (simp add: i_def del: unat_u32_less)
  moreover have "(of_nat i :: u32) = of_nat (length xs)" by (simp add: i_def)
  ultimately have "xs ! i = 0" using s by (metis cstring_nth)
  with \<open>i < length xs\<close> s show False by (metis cstring_nth nth_mem)
qed

lemma strcpy_cstring:
  assumes "cstring m s xs" and "d = s \<or> of_nat (length xs) \<le> d - s"
  shows "strcpy d s m = Some (\<lambda>a. if in_block a d (length xs) then m (s + (a - d)) else m a)"
  using assms cstring_length [OF assms(1)] by (simp add: strcpy_def strlen_cstring memcpy_eq)

lemma sint_scast_u8 [simp]: "sint (scast (x :: u8) :: c_int) = sint x"
  by (rule sint_up_scast) (simp add: is_up)

text \<open>Two promoted \<open>char\<close>s are subtracted without overflow.\<close>

lemma sint_char_diff: "sint (scast (x :: u8) - scast (y :: u8) :: c_int) = sint x - sint y"
proof -
  have "- 128 \<le> sint x" "sint x < 128" "- 128 \<le> sint y" "sint y < 128"
    using sint_ge [of x] sint_lt [of x] sint_ge [of y] sint_lt [of y] by simp_all
  then show ?thesis
    by (simp add: sint_word_diff signed_take_bit_int_eq_self)
qed

lemma scast_u8_eq_iff [simp]: "scast (x :: u8) = (scast (y :: u8) :: c_int) \<longleftrightarrow> x = y"
  by (metis sint_scast_u8 signed_word_eqI)

lemma scast_u8_eq_0_iff [simp]: "scast (x :: u8) = (0 :: c_int) \<longleftrightarrow> x = 0"
  using scast_u8_eq_iff [of x 0] by simp

lemma memcmp_loop_eq_0_iff:
  "memcmp_loop n a b m = 0 \<longleftrightarrow> (\<forall>i<n. m (a + of_nat i) = m (b + of_nat i))"
  by (induction n arbitrary: a b)
     (auto simp: All_less_Suc2 add.assoc Let_def)

lemma strcmp_cstring:
  "cstring m a xs \<Longrightarrow> cstring m b ys \<Longrightarrow> \<exists>r. strcmp m a b = Some r \<and> (r = 0 \<longleftrightarrow> xs = ys)"
proof (induction xs arbitrary: a b ys)
  case Nil
  then show ?case
    by (cases ys) (auto simp: strcmp.simps [of m a b])
next
  case (Cons x xs)
  show ?case
  proof (cases "\<exists>ys'. ys = x # ys'")
    case True
    with Cons show ?thesis by (auto simp: strcmp.simps [of m a b])
  next
    case False
    with Cons.prems show ?thesis
      by (cases ys) (auto simp: strcmp.simps [of m a b])
  qed
qed

section \<open>Properties\<close>

text \<open>
  \<open>memcpy\<close> delivers the source block as it was before the call, byte for byte, and
  changes nothing outside the destination block, whenever the destination does not start
  strictly inside the source (overlap in the other direction is harmless).
\<close>

theorem memcpy_copies_block:
  assumes "d = s \<or> cnt \<le> d - s"
  shows "(\<forall>i<unat cnt. memcpy d s cnt m (d + of_nat i) = m (s + of_nat i)) \<and>
         (\<forall>a. \<not> in_block a d (unat cnt) \<longrightarrow> memcpy d s cnt m a = m a)"
proof -
  have "unat (of_nat i :: u32) = i" if "i < unat cnt" for i
    using that unat_u32_less [of cnt] by (intro unat_of_nat_u32) linarith
  then show ?thesis by (simp add: memcpy_eq [OF assms] in_block_def)
qed

theorem memcpy_copies_block_witness:
  "memcpy 100 104 2 (\<lambda>a. ucast a) 100 = 104 \<and> memcpy 100 104 2 (\<lambda>a. ucast a) 101 = 105 \<and>
   memcpy 100 104 2 (\<lambda>a. ucast a) 102 = 102"
proof -
  have "(100 :: addr) = 104 \<or> 2 \<le> (100 :: addr) - 104" by simp
  note c = memcpy_copies_block [OF this, of "\<lambda>a. ucast a"]
  show ?thesis
    using c [THEN conjunct1, rule_format, of 0] c [THEN conjunct1, rule_format, of 1]
      c [THEN conjunct2, rule_format, of 102] by (simp add: in_block_def)
qed

text \<open>
  \<open>strcpy\<close> copies the characters of the source but not its terminator: it writes
  exactly the \<open>strlen\<close> bytes, so the destination holds the string afterwards only if
  the byte that follows was already zero before the call.
\<close>

theorem strcpy_no_terminator:
  assumes "cstring m s xs" and "of_nat (length xs) \<le> d - s" and "xs \<noteq> []"
  shows "\<exists>m'. strcpy d s m = Some m' \<and> m' (d + of_nat (length xs)) = m (d + of_nat (length xs)) \<and>
    (cstring m' d xs \<longleftrightarrow> m (d + of_nat (length xs)) = 0)"
proof -
  define m' where "m' = (\<lambda>a. if in_block a d (length xs) then m (s + (a - d)) else m a)"
  have "strcpy d s m = Some m'"
    using strcpy_cstring [OF assms(1)] assms(2) by (simp add: m'_def)
  moreover have end': "m' (d + of_nat (length xs)) = m (d + of_nat (length xs))"
    using cstring_length [OF assms(1)] by (simp add: m'_def in_block_def)
  moreover have "m' (d + of_nat i) = xs ! i" if "i < length xs" for i
    using that assms(1) cstring_length [OF assms(1)] by (simp add: m'_def in_block_def cstring_nth)
  ultimately show ?thesis using assms(1) by (auto simp: cstring_nth)
qed

theorem strcpy_no_terminator_witness:
  "\<exists>m'. strcpy 50 10 ((\<lambda>_. 7)(10 := 65, 11 := 0)) = Some m' \<and> \<not> cstring m' 50 [65]"
  using strcpy_no_terminator [of "(\<lambda>_. 7)(10 := 65, 11 := 0)" 10 "[65]" 50] by auto

end
