(* ===== verification/Process.thy ===== *)
theory Process
  imports Core Lib_String
begin

text \<open>
  The process table and what \<open>kernel/process.c\<close> does with it: the scheduler, address
  translation, delivery of a hardware interrupt as a message, and the table
  \<open>init_process_main\<close> builds. A \<open>PROCESS *\<close> into the table is its index; \<open>NULL\<close> is
  \<open>None\<close>.
\<close>

section \<open>Data\<close>

record reg_stack =
  r_gs :: u32
  r_fs :: u32
  r_es :: u32
  r_ds :: u32
  r_edi :: u32
  r_esi :: u32
  r_ebp :: u32
  r_krnl_esp :: u32
  r_ebx :: u32
  r_edx :: u32
  r_ecx :: u32
  r_eax :: u32
  r_ret_addr :: u32
  r_eip :: u32
  r_cs :: u32
  r_eflags :: u32
  r_esp :: u32
  r_ss :: u32

record process =
  p_regs :: reg_stack
  p_ldt_sel :: u16
  p_ldt :: "descriptor list"
  p_ticks :: c_int
  p_priority :: c_int
  p_id :: u32
  p_name :: "u8 list"
  p_console_id :: c_int
  p_flags :: c_int
  p_msg :: addr
  p_recv_from :: c_int
  p_send_to :: c_int
  p_have_int_msg :: bool
  p_current_send :: "nat option"
  p_next_send :: "nat option"

text \<open>
  The kernel's globals, and the memory the processes share (every segment is flat, so a
  process' buffer is a block of this memory). \<open>outside i\<close> is what \<open>proc_table[i]\<close> reads
  for an index outside the table: the code does read it (\<open>msg_recv\<close> from
  \<open>MSG_SOURCE_INTERRUPT\<close>), so the model has it, as a value about which nothing is known.
\<close>

record kernel =
  memory :: mem
  proc_table :: "process list"
  outside :: "c_int \<Rightarrow> process"
  process_ready :: nat
  int_reenter :: c_int
  ticks :: c_int

abbreviation (input) MSG_SENDING :: c_int where "MSG_SENDING \<equiv> 2"
abbreviation (input) MSG_RECVING :: c_int where "MSG_RECVING \<equiv> 4"
abbreviation (input) MSG_SOURCE_INTERRUPT :: c_int where "MSG_SOURCE_INTERRUPT \<equiv> - 10"
abbreviation (input) MSG_HW_INTERRUPT :: c_int where "MSG_HW_INTERRUPT \<equiv> 1"
abbreviation (input) P_ANY :: c_int where "P_ANY \<equiv> 107"
abbreviation (input) P_NO_TASK :: c_int where "P_NO_TASK \<equiv> 207"
abbreviation (input) CONSOLE_TASK :: nat where "CONSOLE_TASK \<equiv> 0"
abbreviation (input) SYSTEM_TASK :: nat where "SYSTEM_TASK \<equiv> 1"
abbreviation (input) HDD_TASK :: nat where "HDD_TASK \<equiv> 2"
abbreviation (input) FS_TASK :: nat where "FS_TASK \<equiv> 3"

definition proc :: "kernel \<Rightarrow> nat \<Rightarrow> process" where
  "proc k i = proc_table k ! i"

definition upd_proc :: "nat \<Rightarrow> (process \<Rightarrow> process) \<Rightarrow> kernel \<Rightarrow> kernel" where
  "upd_proc i f k = k\<lparr>proc_table := (proc_table k)[i := f (proc k i)]\<rparr>"

text \<open>
  \<open>&proc_table[i]\<close> for an \<open>int\<close> index: inside the table or not. (A negative \<open>int\<close> has an
  \<open>unat\<close> of at least \<open>2 ^ 31\<close>.)
\<close>

definition proc_index :: "c_int \<Rightarrow> nat option" where
  "proc_index i = (if unat i < TOTAL_TASK_CNT then Some (unat i) else None)"

section \<open>The scheduler\<close>

text \<open>
  The first \<open>for\<close> loop of \<open>process_schedule\<close> over the rest of the table, from index \<open>i\<close>:
  it carries \<open>(biggest_tick, process_ready)\<close>.
\<close>

fun scan_ready :: "process list \<Rightarrow> nat \<Rightarrow> c_int \<times> nat \<Rightarrow> c_int \<times> nat" where
  "scan_ready [] i (biggest, ready) = (biggest, ready)"
| "scan_ready (p # ps) i (biggest, ready) =
     (if p_flags p = 0 \<and> biggest <s p_ticks p then scan_ready ps (i + 1) (p_ticks p, i)
      else scan_ready ps (i + 1) (biggest, ready))"

text \<open>The second \<open>for\<close> loop: new time slices for the processes that are not blocked.\<close>

definition refill :: "process list \<Rightarrow> process list" where
  "refill ps = map (\<lambda>p. if p_flags p = 0 then p\<lparr>p_ticks := p_priority p\<rparr> else p) ps"

text \<open>\<open>while (!biggest_tick)\<close>; it does not end when no process can run.\<close>

partial_function (option) process_schedule :: "kernel \<Rightarrow> kernel option" where
  "process_schedule k =
     (case scan_ready (proc_table k) 0 (0, process_ready k) of (biggest, ready) \<Rightarrow>
        if biggest \<noteq> 0 then Some (k\<lparr>process_ready := ready\<rparr>)
        else process_schedule
          (k\<lparr>process_ready := ready, proc_table := refill (proc_table k)\<rparr>))"

section \<open>Blocking\<close>

definition block :: "nat \<Rightarrow> kernel \<Rightarrow> stop + kernel" where
  "block p k = ASSERT (p_flags (proc k p) \<noteq> 0) ''proc->flags'' (returns (process_schedule k))"

definition unblock :: "nat \<Rightarrow> kernel \<Rightarrow> stop + kernel" where
  "unblock p k = ASSERT (p_flags (proc k p) = 0) ''!proc->flags'' (Inr k)"

section \<open>Addresses\<close>

definition ldt_linear_addr :: "process \<Rightarrow> nat \<Rightarrow> u32" where
  "ldt_linear_addr p index = desc_base (p_ldt p ! index)"

definition vir_to_linear :: "c_int \<Rightarrow> addr \<Rightarrow> kernel \<Rightarrow> stop + addr" where
  "vir_to_linear pid vir_addr k =
     (case proc_index pid of
        None \<Rightarrow> Inl (Out_of_table pid)
      | Some i \<Rightarrow>
          (let linear_addr = ldt_linear_addr (proc k i) INDEX_LDT_RW + vir_addr
           in ASSERT (linear_addr = vir_addr) ''linear_addr == (uint32_t)vir_addr''
                (Inr linear_addr)))"

section \<open>Hardware interrupts as messages\<close>

text \<open>\<open>source\<close> and \<open>type\<close> are the first two words of a \<open>MESSAGE\<close>.\<close>

definition deliver_int_to_proc :: "nat \<Rightarrow> kernel \<Rightarrow> stop + kernel" where
  "deliver_int_to_proc n k =
     (if p_flags (proc k n) AND MSG_RECVING \<noteq> 0 \<and>
         (p_recv_from (proc k n) = MSG_SOURCE_INTERRUPT \<or> p_recv_from (proc k n) = P_ANY)
      then
        (let m = p_msg (proc k n);
             k1 = k\<lparr>memory := store32 (m + 4) MSG_HW_INTERRUPT
                               (store32 m MSG_SOURCE_INTERRUPT (memory k))\<rparr>;
             k2 = upd_proc n (\<lambda>p. p\<lparr>p_msg := 0, p_have_int_msg := False,
                     p_flags := p_flags p AND NOT MSG_RECVING, p_recv_from := P_NO_TASK\<rparr>) k1
         in unblock n k2)
      else Inr (upd_proc n (\<lambda>p. p\<lparr>p_have_int_msg := True\<rparr>) k))"


section \<open>Lemmas: the table\<close>

lemma length_upd_proc [simp]: "length (proc_table (upd_proc i f k)) = length (proc_table k)"
  by (simp add: upd_proc_def)

lemma proc_upd_proc:
  "i < length (proc_table k) \<Longrightarrow> proc (upd_proc i f k) j = (if j = i then f (proc k i) else proc k j)"
  by (simp add: proc_def upd_proc_def)

lemma upd_proc_simps [simp]:
  "memory (upd_proc i f k) = memory k"
  "outside (upd_proc i f k) = outside k"
  "process_ready (upd_proc i f k) = process_ready k"
  "int_reenter (upd_proc i f k) = int_reenter k"
  "ticks (upd_proc i f k) = ticks k"
  by (simp_all add: upd_proc_def)

lemma proc_kernel_updates [simp]:
  "proc (k\<lparr>memory := m\<rparr>) i = proc k i"
  "proc (k\<lparr>process_ready := r\<rparr>) i = proc k i"
  "proc (k\<lparr>int_reenter := e\<rparr>) i = proc k i"
  "proc (k\<lparr>ticks := e\<rparr>) i = proc k i"
  by (simp_all add: proc_def)

lemma proc_index_Some: "proc_index i = Some j \<longleftrightarrow> unat i = j \<and> j < TOTAL_TASK_CNT"
  by (auto simp: proc_index_def)

lemma proc_index_None: "proc_index i = None \<longleftrightarrow> TOTAL_TASK_CNT \<le> unat i"
  by (auto simp: proc_index_def)

lemma proc_index_of_nat [simp]: "i < TOTAL_TASK_CNT \<Longrightarrow> proc_index (of_nat i) = Some i"
  by (simp add: proc_index_def)

text \<open>A word that indexes the table is the word of its own index.\<close>

lemma of_nat_unat_u32 [simp]: "(of_nat (unat (w :: u32)) :: u32) = w"
  by simp

section \<open>Lemmas: the scheduler\<close>

definition runnable :: "kernel \<Rightarrow> nat \<Rightarrow> bool" where
  "runnable k i \<longleftrightarrow> i < length (proc_table k) \<and> p_flags (proc k i) = 0"

text \<open>
  The scan returns the largest time slice above the given one among the processes that are
  not blocked, and the first process that has it.
\<close>

lemma scan_ready_spec:
  assumes "scan_ready ps i (b0, r0) = (b, r)"
  shows "b0 <=s b \<and> (\<forall>j<length ps. p_flags (ps ! j) = 0 \<longrightarrow> p_ticks (ps ! j) <=s b) \<and>
    ((b = b0 \<and> r = r0) \<or>
     (b0 <s b \<and> (\<exists>j<length ps. r = i + j \<and> p_flags (ps ! j) = 0 \<and> p_ticks (ps ! j) = b \<and>
        (\<forall>l<j. p_flags (ps ! l) = 0 \<longrightarrow> p_ticks (ps ! l) <s b))))"
  using assms
proof (induction ps i "(b0, r0)" arbitrary: b0 r0 rule: scan_ready.induct)
  case (1 i b0 r0)
  then show ?case by simp
next
  case (2 p ps i b0 r0)
  show ?case
  proof (cases "p_flags p = 0 \<and> b0 <s p_ticks p")
    case True
    with 2 have "p_ticks p <=s b \<and> (\<forall>j<length ps. p_flags (ps ! j) = 0 \<longrightarrow> p_ticks (ps ! j) <=s b) \<and>
      ((b = p_ticks p \<and> r = i) \<or> (p_ticks p <s b \<and> (\<exists>j<length ps. r = i + 1 + j \<and>
        p_flags (ps ! j) = 0 \<and> p_ticks (ps ! j) = b \<and>
        (\<forall>l<j. p_flags (ps ! l) = 0 \<longrightarrow> p_ticks (ps ! l) <s b))))"
      by simp
    with True show ?thesis
      by (auto simp: All_less_Suc2 Ex_less_Suc2 intro: signed.less_le_trans signed.less_trans signed.less_imp_le)
  next
    case False
    with 2 have "b0 <=s b \<and> (\<forall>j<length ps. p_flags (ps ! j) = 0 \<longrightarrow> p_ticks (ps ! j) <=s b) \<and>
      ((b = b0 \<and> r = r0) \<or> (b0 <s b \<and> (\<exists>j<length ps. r = i + 1 + j \<and>
        p_flags (ps ! j) = 0 \<and> p_ticks (ps ! j) = b \<and>
        (\<forall>l<j. p_flags (ps ! l) = 0 \<longrightarrow> p_ticks (ps ! l) <s b))))"
      by simp
    with False show ?thesis
      by (auto simp: All_less_Suc2 Ex_less_Suc2 signed.not_less
          intro: signed.le_less_trans signed.order_trans)
  qed
qed


text \<open>What the scheduler chooses: a runnable process with the largest time slice, the first such.\<close>

definition best :: "kernel \<Rightarrow> nat \<Rightarrow> bool" where
  "best k r \<longleftrightarrow> runnable k r \<and> 0 <s p_ticks (proc k r) \<and>
     (\<forall>j. runnable k j \<longrightarrow> p_ticks (proc k j) <=s p_ticks (proc k r)) \<and>
     (\<forall>j<r. runnable k j \<longrightarrow> p_ticks (proc k j) <s p_ticks (proc k r))"

lemma runnable_updates [simp]:
  "runnable (k\<lparr>process_ready := r\<rparr>) i = runnable k i"
  "runnable (k\<lparr>memory := m\<rparr>) i = runnable k i"
  by (simp_all add: runnable_def)

lemma best_process_ready [simp]: "best (k\<lparr>process_ready := x\<rparr>) r = best k r"
  by (simp add: best_def)

lemma scan_table:
  assumes "scan_ready (proc_table k) 0 (0, r0) = (b, r)"
  shows "(b = 0 \<and> r = r0 \<and> (\<forall>i. runnable k i \<longrightarrow> p_ticks (proc k i) <=s 0)) \<or>
         (b \<noteq> 0 \<and> best k r)"
proof -
  note spec = scan_ready_spec [OF assms]
  consider "b = 0" "r = r0" | j where "0 <s b" "j < length (proc_table k)" "r = j"
      "p_flags (proc k j) = 0" "p_ticks (proc k j) = b"
      "\<forall>l<j. p_flags (proc k l) = 0 \<longrightarrow> p_ticks (proc k l) <s b"
    using spec by (auto simp: proc_def)
  then show ?thesis
  proof cases
    case 1
    then show ?thesis using spec by (auto simp: runnable_def proc_def)
  next
    case 2
    then have "b \<noteq> 0" by auto
    moreover have "best k r" using 2 spec by (auto simp: best_def runnable_def proc_def)
    ultimately show ?thesis by simp
  qed
qed

lemma length_refill [simp]: "length (refill ps) = length ps"
  by (simp add: refill_def)

lemma refill_refill [simp]: "refill (refill ps) = refill ps"
  by (simp add: refill_def o_def if_distrib cong: if_cong)

lemma proc_refill:
  "i < length (proc_table k) \<Longrightarrow> proc (k\<lparr>proc_table := refill (proc_table k)\<rparr>) i =
     (if p_flags (proc k i) = 0 then (proc k i)\<lparr>p_ticks := p_priority (proc k i)\<rparr> else proc k i)"
  by (simp add: proc_def refill_def)

lemma runnable_refill [simp]:
  "runnable (k\<lparr>proc_table := refill (proc_table k)\<rparr>) i = runnable k i"
  by (auto simp: runnable_def proc_refill split: if_splits)

text \<open>One round of the outer loop.\<close>

lemma schedule_now:
  assumes "runnable k i" and "0 <s p_ticks (proc k i)"
  shows "\<exists>r. process_schedule k = Some (k\<lparr>process_ready := r\<rparr>) \<and> best k r"
proof -
  obtain b r where scan: "scan_ready (proc_table k) 0 (0, process_ready k) = (b, r)"
    by fastforce
  have "b \<noteq> 0 \<and> best k r"
    using scan_table [OF scan] assms by (auto simp: signed.not_less [symmetric])
  then show ?thesis using scan by (intro exI [of _ r]) (simp add: process_schedule.simps [of k])
qed

lemma schedule_later:
  assumes "\<And>i. runnable k i \<Longrightarrow> \<not> 0 <s p_ticks (proc k i)"
  shows "process_schedule k = process_schedule (k\<lparr>proc_table := refill (proc_table k)\<rparr>)"
proof -
  obtain b r where scan: "scan_ready (proc_table k) 0 (0, process_ready k) = (b, r)"
    by fastforce
  have "b = 0 \<and> r = process_ready k"
    using scan_table [OF scan] assms by (auto simp: best_def)
  then show ?thesis using scan by (simp add: process_schedule.simps [of k])
qed

lemma schedule_returns:
  assumes "runnable k i" and "0 <s p_ticks (proc k i) \<or> 0 <s p_priority (proc k i)"
  shows "\<exists>r t. process_schedule k = Some (k\<lparr>process_ready := r, proc_table := t\<rparr>) \<and>
    t \<in> {proc_table k, refill (proc_table k)} \<and> best (k\<lparr>proc_table := t\<rparr>) r"
proof (cases "\<exists>j. runnable k j \<and> 0 <s p_ticks (proc k j)")
  case True
  then obtain r where "process_schedule k = Some (k\<lparr>process_ready := r\<rparr>)" "best k r"
    using schedule_now by blast
  then show ?thesis
    by (intro exI [of _ r] exI [of _ "proc_table k"]) simp
next
  case False
  let ?k = "k\<lparr>proc_table := refill (proc_table k)\<rparr>"
  have "runnable ?k i" and "0 <s p_ticks (proc ?k i)"
    using assms False by (auto simp: runnable_def proc_refill)
  then obtain r where "process_schedule ?k = Some (?k\<lparr>process_ready := r\<rparr>)" "best ?k r"
    using schedule_now by blast
  then show ?thesis
    using False by (intro exI [of _ r] exI [of _ "refill (proc_table k)"]) (simp add: schedule_later)
qed

text \<open>Where it returns, some process could run: with none the loop never ends.\<close>

lemma schedule_Some_runnable:
  assumes "process_schedule k = Some k'"
  shows "\<exists>i. runnable k i \<and> (0 <s p_ticks (proc k i) \<or> 0 <s p_priority (proc k i))"
proof (rule process_schedule.raw_induct
    [where P = "\<lambda>k k'. \<exists>i. runnable k i \<and> (0 <s p_ticks (proc k i) \<or> 0 <s p_priority (proc k i))",
     OF _ assms])
  fix f k k'
  assume IH: "\<And>k k'. f k = Some k' \<Longrightarrow>
      \<exists>i. runnable k i \<and> (0 <s p_ticks (proc k i) \<or> 0 <s p_priority (proc k i))"
    and eq: "(case scan_ready (proc_table k) 0 (0, process_ready k) of (biggest, ready) \<Rightarrow>
        if biggest \<noteq> 0 then Some (k\<lparr>process_ready := ready\<rparr>)
        else f (k\<lparr>process_ready := ready, proc_table := refill (proc_table k)\<rparr>)) = Some k'"
  obtain b r where scan: "scan_ready (proc_table k) 0 (0, process_ready k) = (b, r)"
    by fastforce
  show "\<exists>i. runnable k i \<and> (0 <s p_ticks (proc k i) \<or> 0 <s p_priority (proc k i))"
  proof (cases "b = 0")
    case True
    let ?k = "k\<lparr>process_ready := r, proc_table := refill (proc_table k)\<rparr>"
    from eq scan True have "f ?k = Some k'" by simp
    then obtain i where i: "runnable ?k i" "0 <s p_ticks (proc ?k i) \<or> 0 <s p_priority (proc ?k i)"
      using IH by blast
    have "runnable k i" using i(1) by (auto simp: runnable_def proc_def refill_def split: if_splits)
    then show ?thesis
      using i(2) by (auto simp: runnable_def proc_def refill_def split: if_splits)
  next
    case False
    then show ?thesis using scan_table [OF scan] by (auto simp: best_def)
  qed
qed

lemma schedule_Some:
  assumes "process_schedule k = Some k'"
  shows "\<exists>r t. k' = k\<lparr>process_ready := r, proc_table := t\<rparr> \<and>
    t \<in> {proc_table k, refill (proc_table k)} \<and> best (k\<lparr>proc_table := t\<rparr>) r"
  using schedule_Some_runnable [OF assms] schedule_returns assms by force


section \<open>The scheduler as an interface\<close>

text \<open>
  Two kernels that differ in time slices and in the process that runs: what a scheduler may
  change.
\<close>

definition same_ipc :: "kernel \<Rightarrow> kernel \<Rightarrow> bool" where
  "same_ipc k k' \<longleftrightarrow> length (proc_table k') = length (proc_table k) \<and> memory k' = memory k \<and>
     outside k' = outside k \<and> int_reenter k' = int_reenter k \<and> ticks k' = ticks k \<and>
     (\<forall>i<length (proc_table k). (proc k' i)\<lparr>p_ticks := 0\<rparr> = (proc k i)\<lparr>p_ticks := 0\<rparr>)"

lemma same_ipc_fields:
  assumes "same_ipc k k'" and "i < length (proc_table k)"
  shows "p_id (proc k' i) = p_id (proc k i)" "p_flags (proc k' i) = p_flags (proc k i)"
    "p_msg (proc k' i) = p_msg (proc k i)" "p_recv_from (proc k' i) = p_recv_from (proc k i)"
    "p_send_to (proc k' i) = p_send_to (proc k i)"
    "p_have_int_msg (proc k' i) = p_have_int_msg (proc k i)"
    "p_current_send (proc k' i) = p_current_send (proc k i)"
    "p_next_send (proc k' i) = p_next_send (proc k i)"
    "p_ldt (proc k' i) = p_ldt (proc k i)" "p_priority (proc k' i) = p_priority (proc k i)"
    "p_console_id (proc k' i) = p_console_id (proc k i)"
proof -
  have eq: "(proc k' i)\<lparr>p_ticks := 0\<rparr> = (proc k i)\<lparr>p_ticks := 0\<rparr>"
    using assms by (simp add: same_ipc_def)
  note a = arg_cong [OF eq, of p_id] arg_cong [OF eq, of p_flags] arg_cong [OF eq, of p_msg]
    arg_cong [OF eq, of p_recv_from] arg_cong [OF eq, of p_send_to]
    arg_cong [OF eq, of p_have_int_msg] arg_cong [OF eq, of p_current_send]
    arg_cong [OF eq, of p_next_send] arg_cong [OF eq, of p_ldt] arg_cong [OF eq, of p_priority]
    arg_cong [OF eq, of p_console_id]
  show "p_id (proc k' i) = p_id (proc k i)" "p_flags (proc k' i) = p_flags (proc k i)"
    "p_msg (proc k' i) = p_msg (proc k i)" "p_recv_from (proc k' i) = p_recv_from (proc k i)"
    "p_send_to (proc k' i) = p_send_to (proc k i)"
    "p_have_int_msg (proc k' i) = p_have_int_msg (proc k i)"
    "p_current_send (proc k' i) = p_current_send (proc k i)"
    "p_next_send (proc k' i) = p_next_send (proc k i)"
    "p_ldt (proc k' i) = p_ldt (proc k i)" "p_priority (proc k' i) = p_priority (proc k i)"
    "p_console_id (proc k' i) = p_console_id (proc k i)"
    using a by simp_all
qed

lemma same_ipc_globals:
  assumes "same_ipc k k'"
  shows "length (proc_table k') = length (proc_table k)" "memory k' = memory k"
    "outside k' = outside k" "int_reenter k' = int_reenter k" "ticks k' = ticks k"
  using assms by (simp_all add: same_ipc_def)

lemma same_ipc_runnable: "same_ipc k k' \<Longrightarrow> runnable k' i \<longleftrightarrow> runnable k i"
  using same_ipc_fields(2) [of k k' i] by (auto simp: runnable_def same_ipc_globals)

text \<open>
  What \<open>block\<close> relies on: the scheduler changes time slices and the running process only,
  it picks a process that can run, and it returns when some process can run and has, or
  gets on a refill, a time slice.
\<close>

locale scheduler =
  fixes schedule :: "kernel \<Rightarrow> kernel option"
  assumes schedule_frame: "schedule k = Some k' \<Longrightarrow> same_ipc k k'"
    and schedule_ready: "schedule k = Some k' \<Longrightarrow> runnable k' (process_ready k')"
    and schedule_total: "runnable k i \<Longrightarrow> 0 <s p_priority (proc k i) \<Longrightarrow> \<exists>k'. schedule k = Some k'"
begin

lemma schedule_runnable: "schedule k = Some k' \<Longrightarrow> runnable k' i \<longleftrightarrow> runnable k i"
  by (rule same_ipc_runnable) (rule schedule_frame)

lemma schedule_picks_old_runnable: "schedule k = Some k' \<Longrightarrow> runnable k (process_ready k')"
  using schedule_ready schedule_runnable by blast

lemma schedule_memory: "schedule k = Some k' \<Longrightarrow> memory k' = memory k"
  using schedule_frame by (simp add: same_ipc_def)

lemma schedule_blocked_not_chosen:
  "schedule k = Some k' \<Longrightarrow> p_flags (proc k i) \<noteq> 0 \<Longrightarrow> process_ready k' \<noteq> i"
  using schedule_picks_old_runnable [of k k'] by (auto simp: runnable_def)

end

lemma process_schedule_frame: "process_schedule k = Some k' \<Longrightarrow> same_ipc k k'"
  using schedule_Some [of k k'] by (auto simp: same_ipc_def proc_refill) (simp_all add: proc_def refill_def)

lemma process_schedule_ready: "process_schedule k = Some k' \<Longrightarrow> runnable k' (process_ready k')"
  using schedule_Some [of k k'] by (auto simp: best_def runnable_def proc_def)

interpretation sched: scheduler process_schedule
proof unfold_locales
  fix k k' i
  show "process_schedule k = Some k' \<Longrightarrow> same_ipc k k'"
    by (rule process_schedule_frame)
  show "process_schedule k = Some k' \<Longrightarrow> runnable k' (process_ready k')"
    by (rule process_schedule_ready)
  show "runnable k i \<Longrightarrow> 0 <s p_priority (proc k i) \<Longrightarrow> \<exists>k'. process_schedule k = Some k'"
    using schedule_returns by blast
qed


section \<open>Properties\<close>

text \<open>
  C12. \<open>process_schedule\<close> chooses, among the processes that are not blocked, the first one
  with the largest time slice; it changes time slices only when all are spent, and nothing
  else in the table.
\<close>

theorem process_schedule_picks_best:
  assumes "process_schedule k = Some k'"
  shows "best k' (process_ready k') \<and> same_ipc k k' \<and>
    ((\<exists>i. runnable k i \<and> 0 <s p_ticks (proc k i)) \<longrightarrow> proc_table k' = proc_table k)"
proof -
  obtain r t where rt: "k' = k\<lparr>process_ready := r, proc_table := t\<rparr>" "best (k\<lparr>proc_table := t\<rparr>) r"
    using schedule_Some [OF assms] by blast
  then have "best k' (process_ready k')"
    by (simp add: best_def runnable_def proc_def)
  moreover have "proc_table k' = proc_table k" if "runnable k i" "0 <s p_ticks (proc k i)" for i
    using schedule_now [OF that] assms by auto
  ultimately show ?thesis using process_schedule_frame [OF assms] by blast
qed

text \<open>
  C11. \<open>process_schedule\<close> returns exactly when some process is not blocked and has a positive
  time slice or priority; otherwise its loop never ends.
\<close>

theorem process_schedule_returns_iff:
  "(\<exists>k'. process_schedule k = Some k') \<longleftrightarrow>
   (\<exists>i. runnable k i \<and> (0 <s p_ticks (proc k i) \<or> 0 <s p_priority (proc k i)))"
  using schedule_returns schedule_Some_runnable by blast

end
