(* ===== verification/Message.thy ===== *)
theory Message
  imports Process
begin

text \<open>
  The rendezvous IPC of \<open>kernel/message.c\<close>: \<open>msg_send\<close>, \<open>msg_recv\<close>, the queue of
  waiting senders threaded through \<open>current_send\<close> and \<open>next_send\<close>, and the deadlock
  check. First the code, then the well-formedness invariant, then an abstract rendezvous
  machine that the code refines.

  A \<open>MESSAGE\<close> is a block of 48 bytes in memory, named by its address. The functions return
  the new kernel and the C return value.
\<close>

section \<open>The code\<close>

abbreviation (input) SIZEOF_MESSAGE :: u32 where "SIZEOF_MESSAGE \<equiv> 48"

text \<open>
  \<open>dead_lock\<close>: the \<open>while (true)\<close> loop follows \<open>send_to\<close> from process \<open>p\<close>; the value is
  whether it came back to \<open>src\<close>.
\<close>

partial_function (option) dead_lock_loop :: "kernel \<Rightarrow> c_int \<Rightarrow> nat \<Rightarrow> (stop + bool) option" where
  "dead_lock_loop k src p =
     (if p_flags (proc k p) AND MSG_SENDING \<noteq> 0 then
        if p_send_to (proc k p) = src then Some (Inr True)
        else (case proc_index (p_send_to (proc k p)) of
                None \<Rightarrow> Some (Inl (Out_of_table (p_send_to (proc k p))))
              | Some q \<Rightarrow> dead_lock_loop k src q)
      else Some (Inr False))"

text \<open>The \<open>for\<close> loop that prints the cycle it found; besides printing it checks \<open>proc->msg\<close>.\<close>

partial_function (option) print_cycle :: "kernel \<Rightarrow> nat \<Rightarrow> nat \<Rightarrow> (stop + unit) option" where
  "print_cycle k src p =
     (if p = src then Some (Inr ())
      else if p_msg (proc k p) = 0 then Some (Inl (Assert_failure ''proc->msg''))
      else (case proc_index (p_send_to (proc k p)) of
              None \<Rightarrow> Some (Inl (Out_of_table (p_send_to (proc k p))))
            | Some q \<Rightarrow> print_cycle k src q))"

definition dead_lock :: "c_int \<Rightarrow> c_int \<Rightarrow> kernel \<Rightarrow> stop + bool" where
  "dead_lock src dest k =
     ASSERT (src \<noteq> dest) ''src != dest''
      (case proc_index dest of
         None \<Rightarrow> Inl (Out_of_table dest)
       | Some d \<Rightarrow>
           andThen (returns_or_stops (dead_lock_loop k src d)) (\<lambda>found.
             if found
             then andThen (returns_or_stops (print_cycle k (unat src) d)) (\<lambda>_. Inr True)
             else Inr False))"

text \<open>The loop of \<open>msg_send\<close> that looks for the end of the queue.\<close>

partial_function (option) queue_last :: "kernel \<Rightarrow> nat \<Rightarrow> nat option" where
  "queue_last k p =
     (case p_next_send (proc k p) of None \<Rightarrow> Some p | Some q \<Rightarrow> queue_last k q)"

text \<open>The branch of \<open>msg_send\<close> whose destination waits for this message.\<close>

definition msg_send_direct :: "nat \<Rightarrow> nat \<Rightarrow> addr \<Rightarrow> kernel \<Rightarrow> stop + kernel" where
  "msg_send_direct s d msg k =
     ASSERT (p_msg (proc k d) \<noteq> 0) ''p_dest->msg''
      (ASSERT (msg \<noteq> 0) ''msg''
        (andThen (vir_to_linear (of_nat d) (p_msg (proc k d)) k) (\<lambda>dst.
         andThen (vir_to_linear (p_id (proc k s)) msg k) (\<lambda>src.
           unblock d
             (upd_proc d (\<lambda>p. p\<lparr>p_msg := 0, p_flags := p_flags p AND NOT MSG_RECVING,
                                p_recv_from := P_NO_TASK\<rparr>)
               (k\<lparr>memory := memcpy dst src SIZEOF_MESSAGE (memory k)\<rparr>))))))"

text \<open>The branch in which the destination does not wait: join its queue and block.\<close>

definition msg_send_enqueue :: "nat \<Rightarrow> nat \<Rightarrow> addr \<Rightarrow> kernel \<Rightarrow> stop + kernel" where
  "msg_send_enqueue s d msg k =
     (let k1 = upd_proc s (\<lambda>p. p\<lparr>p_flags := p_flags p OR MSG_SENDING,
                                 p_send_to := of_nat d, p_msg := msg\<rparr>) k
      in andThen
           (case p_current_send (proc k1 d) of
              Some h \<Rightarrow> andThen (returns (queue_last k1 h)) (\<lambda>l.
                          Inr (upd_proc l (\<lambda>p. p\<lparr>p_next_send := Some s\<rparr>) k1))
            | None \<Rightarrow> Inr (upd_proc d (\<lambda>p. p\<lparr>p_current_send := Some s\<rparr>) k1))
           (\<lambda>k2. block s (upd_proc s (\<lambda>p. p\<lparr>p_next_send := None\<rparr>) k2)))"

definition msg_send :: "nat \<Rightarrow> c_int \<Rightarrow> addr \<Rightarrow> kernel \<Rightarrow> stop + (kernel \<times> c_int)" where
  "msg_send p_send dest msg k =
     ASSERT (p_id (proc k p_send) \<noteq> dest) ''p_send->id != (uint32_t)dest''
      (case proc_index dest of
         None \<Rightarrow> Inl (Out_of_table dest)
       | Some d \<Rightarrow>
           andThen (dead_lock (p_id (proc k p_send)) dest k) (\<lambda>locked.
             if locked then Inl (Critical ''DEAD LOCK'')
             else andThen
               (if p_flags (proc k d) AND MSG_RECVING \<noteq> 0 \<and>
                   (p_recv_from (proc k d) = p_id (proc k p_send) \<or> p_recv_from (proc k d) = P_ANY)
                then msg_send_direct p_send d msg k
                else msg_send_enqueue p_send d msg k)
               (\<lambda>k'. Inr (k', 0))))"

text \<open>
  The message \<open>msg_recv\<close> makes up for a hardware interrupt: \<open>source\<close> is
  \<open>MSG_SOURCE_INTERRUPT\<close>, \<open>type\<close> is \<open>MSG_HW_INTERRUPT\<close>, every other byte is zero.
\<close>

definition write_int_msg :: "addr \<Rightarrow> mem \<Rightarrow> mem" where
  "write_int_msg a m =
     store32 (a + 4) MSG_HW_INTERRUPT (store32 a MSG_SOURCE_INTERRUPT (memset a 0 SIZEOF_MESSAGE m))"

definition msg_recv_int :: "nat \<Rightarrow> addr \<Rightarrow> kernel \<Rightarrow> stop + kernel" where
  "msg_recv_int r msg k =
     andThen (vir_to_linear (p_id (proc k r)) msg k) (\<lambda>dst.
       Inr (upd_proc r (\<lambda>p. p\<lparr>p_have_int_msg := False\<rparr>)
             (k\<lparr>memory := write_int_msg dst (memory k)\<rparr>)))"

text \<open>
  The search for a given sender in the queue; it carries \<open>p\<close> and \<open>p_prev\<close> and returns the
  sender it found, if any, and the last \<open>p_prev\<close>.
\<close>

partial_function (option) find_sender ::
  "kernel \<Rightarrow> c_int \<Rightarrow> nat option \<Rightarrow> nat option \<Rightarrow> (nat option \<times> nat option) option" where
  "find_sender k src p p_prev =
     (case p of
        None \<Rightarrow> Some (None, p_prev)
      | Some i \<Rightarrow> (if p_id (proc k i) = src then Some (Some i, p_prev)
                   else find_sender k src (p_next_send (proc k i)) (Some i)))"

text \<open>\<open>if (copy)\<close>: take the sender out of the queue, copy its message, let it run.\<close>

definition dequeue_sender :: "nat \<Rightarrow> nat \<Rightarrow> nat option \<Rightarrow> kernel \<Rightarrow> stop + kernel" where
  "dequeue_sender r s p_prev k =
     andThen
       (if p_current_send (proc k r) = Some s
        then Inr (upd_proc r (\<lambda>p. p\<lparr>p_current_send := p_next_send (proc k s)\<rparr>) k)
        else (case p_prev of
                None \<Rightarrow> Inl Null_pointer
              | Some q \<Rightarrow> Inr (upd_proc q (\<lambda>p. p\<lparr>p_next_send := p_next_send (proc k s)\<rparr>) k)))
       (\<lambda>k1. Inr (upd_proc s (\<lambda>p. p\<lparr>p_next_send := None\<rparr>) k1))"

definition msg_recv_copy :: "nat \<Rightarrow> nat \<Rightarrow> nat option \<Rightarrow> addr \<Rightarrow> kernel \<Rightarrow> stop + kernel" where
  "msg_recv_copy r s p_prev msg k =
     andThen (dequeue_sender r s p_prev k) (\<lambda>k1.
     andThen (vir_to_linear (p_id (proc k1 r)) msg k1) (\<lambda>dst.
     andThen (vir_to_linear (p_id (proc k1 s)) (p_msg (proc k1 s)) k1) (\<lambda>src.
       unblock s
         (upd_proc s (\<lambda>p. p\<lparr>p_msg := 0, p_send_to := P_NO_TASK,
                            p_flags := p_flags p AND NOT MSG_SENDING\<rparr>)
           (k1\<lparr>memory := memcpy dst src SIZEOF_MESSAGE (memory k1)\<rparr>)))))"

text \<open>The \<open>else\<close> branch: nobody sends, so wait.\<close>

definition msg_recv_wait :: "nat \<Rightarrow> c_int \<Rightarrow> addr \<Rightarrow> kernel \<Rightarrow> stop + kernel" where
  "msg_recv_wait r src msg k =
     block r (upd_proc r (\<lambda>p. p\<lparr>p_flags := p_flags p OR MSG_RECVING, p_msg := msg,
                                p_recv_from := src\<rparr>) k)"

text \<open>
  Everything after the test for a pending interrupt. For a source outside the table the
  code reads the flags at \<open>proc_table[src]\<close> all the same; if they look like a sender's, it
  goes on to write there.
\<close>

definition msg_recv_queue :: "nat \<Rightarrow> c_int \<Rightarrow> addr \<Rightarrow> kernel \<Rightarrow> stop + kernel" where
  "msg_recv_queue r src msg k =
     (if src = P_ANY then
        (case p_current_send (proc k r) of
           Some s \<Rightarrow> msg_recv_copy r s None msg k
         | None \<Rightarrow> msg_recv_wait r src msg k)
      else
        (let p_src = (case proc_index src of Some i \<Rightarrow> proc k i | None \<Rightarrow> outside k src)
         in if p_flags p_src AND MSG_SENDING \<noteq> 0 \<and> p_send_to p_src = p_id (proc k r) then
              (case proc_index src of
                 None \<Rightarrow> Inl (Out_of_table src)
               | Some i \<Rightarrow>
                   ASSERT (p_current_send (proc k r) \<noteq> None) ''p_recv->current_send''
                    (andThen (returns (find_sender k src (p_current_send (proc k r)) None))
                      (\<lambda>(found, p_prev).
                        msg_recv_copy r (case found of Some s \<Rightarrow> s | None \<Rightarrow> i) p_prev msg k)))
            else msg_recv_wait r src msg k))"

definition msg_recv :: "nat \<Rightarrow> c_int \<Rightarrow> addr \<Rightarrow> kernel \<Rightarrow> stop + (kernel \<times> c_int)" where
  "msg_recv p_recv src msg k =
     ASSERT (p_id (proc k p_recv) \<noteq> src) ''p_recv->id != src''
      (andThen
        (if p_have_int_msg (proc k p_recv) \<and> (src = P_ANY \<or> src = MSG_SOURCE_INTERRUPT)
         then msg_recv_int p_recv msg k
         else msg_recv_queue p_recv src msg k)
        (\<lambda>k'. Inr (k', 0)))"

text \<open>\<open>msg_both\<close> is not supported by the kernel side; it does nothing.\<close>

definition msg_both :: "nat \<Rightarrow> c_int \<Rightarrow> addr \<Rightarrow> kernel \<Rightarrow> stop + (kernel \<times> c_int)" where
  "msg_both p src_dest msg k = Inr (k, 0)"

section \<open>The queue as a linked list\<close>

text \<open>\<open>chain k a xs\<close>: from pointer \<open>a\<close>, following \<open>next_send\<close>, one meets exactly \<open>xs\<close>.\<close>

fun chain :: "kernel \<Rightarrow> nat option \<Rightarrow> nat list \<Rightarrow> bool" where
  "chain k a [] \<longleftrightarrow> a = None"
| "chain k a (b # bs) \<longleftrightarrow> a = Some b \<and> chain k (p_next_send (proc k b)) bs"

lemma chain_None [simp]: "chain k None xs \<longleftrightarrow> xs = []"
  by (cases xs) auto

lemma chain_cong:
  "(\<And>b. b \<in> set xs \<Longrightarrow> p_next_send (proc k' b) = p_next_send (proc k b)) \<Longrightarrow>
   chain k' a xs \<longleftrightarrow> chain k a xs"
  by (induction xs arbitrary: a) auto

lemma chain_unique: "chain k a xs \<Longrightarrow> chain k a ys \<Longrightarrow> xs = ys"
proof (induction xs arbitrary: a ys)
  case (Cons x xs)
  then show ?case by (cases ys) auto
qed simp

lemma queue_last_simps:
  "p_next_send (proc k p) = None \<Longrightarrow> queue_last k p = Some p"
  "p_next_send (proc k p) = Some q \<Longrightarrow> queue_last k p = queue_last k q"
  by (simp_all add: queue_last.simps [of k p])

lemma queue_last_chain:
  "chain k (Some h) xs \<Longrightarrow> queue_last k h = Some (last xs)"
proof (induction xs arbitrary: h)
  case (Cons x xs)
  then show ?case
    by (cases "p_next_send (proc k h)") (auto simp: queue_last_simps)
qed simp

text \<open>Linking a new last element.\<close>

lemma chain_snoc:
  assumes "chain k a xs" and "s \<notin> set xs" and "distinct xs" and "xs \<noteq> []"
    and "\<And>b. b \<in> set xs \<Longrightarrow> p_next_send (proc k' b) = (if b = last xs then Some s else p_next_send (proc k b))"
    and "p_next_send (proc k' s) = None"
  shows "chain k' a (xs @ [s])"
  using assms
proof (induction xs arbitrary: a)
  case (Cons x xs)
  show ?case
  proof (cases "xs = []")
    case True
    with Cons.prems show ?thesis by simp
  next
    case False
    have "p_next_send (proc k' x) = p_next_send (proc k x)"
      using Cons.prems(3,5) False by auto
    moreover have "chain k' (p_next_send (proc k x)) (xs @ [s])"
      using Cons.prems False by (intro Cons.IH) auto
    ultimately show ?thesis using Cons.prems(1) by simp
  qed
qed simp

text \<open>Unlinking an element: the one before it takes over its link.\<close>

lemma chain_remove_mid:
  assumes "chain k a (ys @ i # zs)" and "ys \<noteq> []" and "distinct (ys @ i # zs)"
    and "\<And>b. b \<in> set ys \<union> set zs \<Longrightarrow> p_next_send (proc k' b) =
           (if b = last ys then p_next_send (proc k i) else p_next_send (proc k b))"
  shows "chain k' a (ys @ zs)"
  using assms
proof (induction ys arbitrary: a)
  case (Cons y ys)
  show ?case
  proof (cases "ys = []")
    case True
    have "chain k (p_next_send (proc k i)) zs" using Cons.prems(1) True by simp
    moreover have "p_next_send (proc k' b) = p_next_send (proc k b)" if "b \<in> set zs" for b
      using Cons.prems(3,4) that True by auto
    ultimately have "chain k' (p_next_send (proc k i)) zs" using chain_cong by blast
    moreover have "p_next_send (proc k' y) = p_next_send (proc k i)" and "a = Some y"
      using Cons.prems(1) Cons.prems(4) [of y] True by simp_all
    ultimately show ?thesis using True by simp
  next
    case False
    have "p_next_send (proc k' y) = p_next_send (proc k y)"
      using Cons.prems(3,4) False by auto
    moreover have "chain k' (p_next_send (proc k y)) (ys @ zs)"
      using Cons.prems False by (intro Cons.IH) auto
    ultimately show ?thesis using Cons.prems(1) by simp
  qed
qed simp

lemma chain_mid: "chain k a (ys @ i # zs) \<Longrightarrow> chain k (p_next_send (proc k i)) zs"
  by (induction ys arbitrary: a) auto

lemma find_sender_simps:
  "p_id (proc k i) = src \<Longrightarrow> find_sender k src (Some i) prev = Some (Some i, prev)"
  "p_id (proc k i) \<noteq> src \<Longrightarrow>
   find_sender k src (Some i) prev = find_sender k src (p_next_send (proc k i)) (Some i)"
  by (simp_all add: find_sender.simps [of k src "Some i"])

lemma find_sender_chain:
  assumes "chain k a (ys @ i # zs)" and "\<And>b. b \<in> set ys \<Longrightarrow> p_id (proc k b) \<noteq> src"
    and "p_id (proc k i) = src"
  shows "find_sender k src a prev = Some (Some i, if ys = [] then prev else Some (last ys))"
  using assms
  by (induction ys arbitrary: a prev) (auto simp: find_sender_simps)

section \<open>The invariant\<close>

definition sending :: "kernel \<Rightarrow> nat \<Rightarrow> nat \<Rightarrow> bool" where
  "sending k i d \<longleftrightarrow> p_flags (proc k i) = MSG_SENDING \<and> p_send_to (proc k i) = of_nat d"

definition senders :: "kernel \<Rightarrow> nat \<Rightarrow> nat set" where
  "senders k d = {i. i < TOTAL_TASK_CNT \<and> sending k i d}"

text \<open>Process \<open>d\<close> is blocked in a receive that a message of \<open>s\<close> would satisfy.\<close>

definition accepts :: "kernel \<Rightarrow> nat \<Rightarrow> nat \<Rightarrow> bool" where
  "accepts k d s \<longleftrightarrow> p_flags (proc k d) = MSG_RECVING \<and>
     (p_recv_from (proc k d) = of_nat s \<or> p_recv_from (proc k d) = P_ANY)"

definition waits_for :: "kernel \<Rightarrow> (nat \<times> nat) set" where
  "waits_for k = {(i, d). i < TOTAL_TASK_CNT \<and> d < TOTAL_TASK_CNT \<and> sending k i d}"

text \<open>The queue of a process, read off the links (a queue has at most seven members).\<close>

fun follow :: "nat \<Rightarrow> kernel \<Rightarrow> nat option \<Rightarrow> nat list" where
  "follow 0 k a = []"
| "follow (Suc n) k a = (case a of None \<Rightarrow> [] | Some i \<Rightarrow> i # follow n k (p_next_send (proc k i)))"

definition send_queue :: "kernel \<Rightarrow> nat \<Rightarrow> nat list" where
  "send_queue k d = follow TOTAL_TASK_CNT k (p_current_send (proc k d))"

definition proc_wf :: "nat \<Rightarrow> process \<Rightarrow> bool" where
  "proc_wf i p \<longleftrightarrow> p_id p = of_nat i \<and> p_flags p \<in> {0, MSG_SENDING, MSG_RECVING} \<and>
     ldt_linear_addr p INDEX_LDT_RW = 0 \<and> 0 <s p_priority p \<and>
     (p_flags p = MSG_SENDING \<longrightarrow> (\<exists>d<TOTAL_TASK_CNT. d \<noteq> i \<and> p_send_to p = of_nat d))"

definition queue_wf :: "kernel \<Rightarrow> nat \<Rightarrow> nat list \<Rightarrow> bool" where
  "queue_wf k d xs \<longleftrightarrow>
     chain k (p_current_send (proc k d)) xs \<and> distinct xs \<and> set xs = senders k d"

text \<open>
  Well-formed: every process is idle, sending to another process, or receiving; the queue
  of a process holds each process that sends to it, once; no receiver waits for a message
  that already stands in its queue; and the processes that wait for one another to receive
  form no cycle.
\<close>

definition ipc_wf :: "kernel \<Rightarrow> bool" where
  "ipc_wf k \<longleftrightarrow> length (proc_table k) = TOTAL_TASK_CNT \<and>
     (\<forall>i<TOTAL_TASK_CNT. proc_wf i (proc k i)) \<and>
     (\<forall>d<TOTAL_TASK_CNT. queue_wf k d (send_queue k d)) \<and>
     (\<forall>d<TOTAL_TASK_CNT. \<forall>s\<in>senders k d. \<not> accepts k d s) \<and>
     acyclic (waits_for k)"

lemma ipc_wf_length: "ipc_wf k \<Longrightarrow> length (proc_table k) = TOTAL_TASK_CNT"
  and ipc_wf_proc: "ipc_wf k \<Longrightarrow> i < TOTAL_TASK_CNT \<Longrightarrow> proc_wf i (proc k i)"
  and ipc_wf_queue: "ipc_wf k \<Longrightarrow> d < TOTAL_TASK_CNT \<Longrightarrow> queue_wf k d (send_queue k d)"
  and ipc_wf_accepts: "ipc_wf k \<Longrightarrow> d < TOTAL_TASK_CNT \<Longrightarrow> s \<in> senders k d \<Longrightarrow> \<not> accepts k d s"
  and ipc_wf_acyclic: "ipc_wf k \<Longrightarrow> acyclic (waits_for k)"
  by (simp_all add: ipc_wf_def)

lemma ipc_wf_id: "ipc_wf k \<Longrightarrow> i < TOTAL_TASK_CNT \<Longrightarrow> p_id (proc k i) = of_nat i"
  using ipc_wf_proc [of k i] by (simp add: proc_wf_def)

lemma ipc_wf_flags:
  "ipc_wf k \<Longrightarrow> i < TOTAL_TASK_CNT \<Longrightarrow>
   p_flags (proc k i) = 0 \<or> p_flags (proc k i) = MSG_SENDING \<or> p_flags (proc k i) = MSG_RECVING"
  using ipc_wf_proc [of k i] by (simp add: proc_wf_def)

lemma follow_chain: "chain k a xs \<Longrightarrow> length xs \<le> n \<Longrightarrow> follow n k a = xs"
proof (induction xs arbitrary: a n)
  case Nil
  then show ?case by (cases n) auto
next
  case (Cons x xs)
  then show ?case by (cases n) auto
qed

lemma queue_wf_length: "queue_wf k d xs \<Longrightarrow> length xs \<le> TOTAL_TASK_CNT"
proof -
  assume q: "queue_wf k d xs"
  then have "set xs \<subseteq> {..<TOTAL_TASK_CNT}" by (auto simp: queue_wf_def senders_def)
  then have "card (set xs) \<le> TOTAL_TASK_CNT" using card_mono [of "{..<TOTAL_TASK_CNT}"] by simp
  then show ?thesis using q by (metis distinct_card queue_wf_def)
qed

lemma queue_wf_send_queue: "queue_wf k d xs \<Longrightarrow> send_queue k d = xs"
  unfolding send_queue_def using queue_wf_length [of k d xs]
  by (intro follow_chain) (simp_all add: queue_wf_def)

text \<open>The way every preservation proof ends: exhibit the queues.\<close>

lemma ipc_wfI:
  assumes "length (proc_table k) = TOTAL_TASK_CNT"
    and "\<And>i. i < TOTAL_TASK_CNT \<Longrightarrow> proc_wf i (proc k i)"
    and Q: "\<And>d. d < TOTAL_TASK_CNT \<Longrightarrow> queue_wf k d (Q d)"
    and "\<And>d s. d < TOTAL_TASK_CNT \<Longrightarrow> s \<in> senders k d \<Longrightarrow> \<not> accepts k d s"
    and "acyclic (waits_for k)"
  shows "ipc_wf k \<and> (\<forall>d<TOTAL_TASK_CNT. send_queue k d = Q d)"
  using assms queue_wf_send_queue [OF Q] by (simp add: ipc_wf_def)

lemma flag_simps [simp]:
  "p_flags (proc k i) = 0 \<Longrightarrow> p_flags (proc k i) AND MSG_SENDING = 0"
  "p_flags (proc k i) = 0 \<Longrightarrow> p_flags (proc k i) AND MSG_RECVING = 0"
  by simp_all

lemma flag_tests:
  assumes "ipc_wf k" and "i < TOTAL_TASK_CNT"
  shows "p_flags (proc k i) AND MSG_SENDING \<noteq> 0 \<longleftrightarrow> p_flags (proc k i) = MSG_SENDING"
    and "p_flags (proc k i) AND MSG_RECVING \<noteq> 0 \<longleftrightarrow> p_flags (proc k i) = MSG_RECVING"
  using ipc_wf_flags [OF assms] by auto

text \<open>In a well-formed kernel every segment is flat, so translation is the identity.\<close>

lemma vir_to_linear_flat:
  "ipc_wf k \<Longrightarrow> i < TOTAL_TASK_CNT \<Longrightarrow> vir_to_linear (of_nat i) a k = Inr a"
  using ipc_wf_proc [of k i] by (simp add: vir_to_linear_def proc_wf_def)

section \<open>The deadlock check\<close>

lemma sending_unique: "ipc_wf k \<Longrightarrow> sending k i d \<Longrightarrow> sending k i e \<Longrightarrow> d < TOTAL_TASK_CNT \<Longrightarrow>
  e < TOTAL_TASK_CNT \<Longrightarrow> d = e"
  by (simp add: sending_def of_nat_u32_eq_iff)

lemma waits_for_functional:
  "ipc_wf k \<Longrightarrow> (i, d) \<in> waits_for k \<Longrightarrow> (i, e) \<in> waits_for k \<Longrightarrow> d = e"
  by (auto simp: waits_for_def intro: sending_unique)

lemma finite_waits_for: "finite (waits_for k)"
proof (rule finite_subset)
  show "waits_for k \<subseteq> {..<TOTAL_TASK_CNT} \<times> {..<TOTAL_TASK_CNT}" by (auto simp: waits_for_def)
qed simp

lemma wf_waits_for: "ipc_wf k \<Longrightarrow> wf ((waits_for k)\<inverse>)"
  by (intro finite_acyclic_wf_converse finite_waits_for ipc_wf_acyclic)

text \<open>
  The loop ends in a well-formed kernel, and answers whether \<open>p\<close> waits, through any number
  of processes, for \<open>s\<close>.
\<close>

lemma dead_lock_loop_reaches:
  assumes wf: "ipc_wf k" and "s < TOTAL_TASK_CNT" and "p < TOTAL_TASK_CNT"
  shows "dead_lock_loop k (of_nat s) p = Some (Inr ((p, s) \<in> (waits_for k)\<^sup>+))"
  using wf_waits_for [OF wf] \<open>p < TOTAL_TASK_CNT\<close>
proof (induction p rule: wf_induct_rule)
  case (less p)
  show ?case
  proof (cases "p_flags (proc k p) = MSG_SENDING")
    case True
    then obtain d where d: "d < TOTAL_TASK_CNT" "sending k p d"
      using ipc_wf_proc [OF wf less.prems] by (auto simp: proc_wf_def sending_def)
    have edge: "(p, d) \<in> waits_for k" using d less.prems by (simp add: waits_for_def)
    have to: "p_send_to (proc k p) = of_nat d" using d by (simp add: sending_def)
    show ?thesis
    proof (cases "d = s")
      case True
      then show ?thesis using edge to \<open>p_flags (proc k p) = MSG_SENDING\<close>
        by (auto simp: dead_lock_loop.simps [of k _ p])
    next
      case False
      have "dead_lock_loop k (of_nat s) d = Some (Inr ((d, s) \<in> (waits_for k)\<^sup>+))"
        using less.IH [of d] edge d by simp
      moreover have "dead_lock_loop k (of_nat s) p = dead_lock_loop k (of_nat s) d"
        using True False to d \<open>s < TOTAL_TASK_CNT\<close>
        by (simp add: dead_lock_loop.simps [of k _ p] of_nat_u32_eq_iff proc_index_def)
      moreover have "(p, s) \<in> (waits_for k)\<^sup>+ \<longleftrightarrow> (d, s) \<in> (waits_for k)\<^sup>+"
      proof
        assume "(p, s) \<in> (waits_for k)\<^sup>+"
        then obtain e where "(p, e) \<in> waits_for k" "(e, s) \<in> (waits_for k)\<^sup>*"
          by (meson tranclD)
        moreover have "e = d" using waits_for_functional [OF wf] edge calculation(1) by blast
        ultimately show "(d, s) \<in> (waits_for k)\<^sup>+" using False by (simp add: rtrancl_eq_or_trancl)
      next
        assume "(d, s) \<in> (waits_for k)\<^sup>+"
        with edge show "(p, s) \<in> (waits_for k)\<^sup>+" by (meson trancl_into_trancl2)
      qed
      ultimately show ?thesis by simp
    qed
  next
    case False
    then have "\<not> p_flags (proc k p) AND MSG_SENDING \<noteq> 0"
      using flag_tests(1) [OF wf less.prems] by blast
    moreover have "(p, s) \<notin> (waits_for k)\<^sup>+"
    proof
      assume "(p, s) \<in> (waits_for k)\<^sup>+"
      then obtain e where "(p, e) \<in> waits_for k" by (meson tranclD)
      with False show False by (simp add: waits_for_def sending_def)
    qed
    ultimately show ?thesis by (simp add: dead_lock_loop.simps [of k _ p])
  qed
qed

lemma dead_lock_free:
  assumes wf: "ipc_wf k" and "s < TOTAL_TASK_CNT" and "d < TOTAL_TASK_CNT" and "s \<noteq> d"
    and "(d, s) \<notin> (waits_for k)\<^sup>+"
  shows "dead_lock (of_nat s) (of_nat d) k = Inr False"
  using assms by (simp add: dead_lock_def of_nat_u32_eq_iff dead_lock_loop_reaches proc_index_def)

lemma dead_lock_found:
  assumes wf: "ipc_wf k" and "s < TOTAL_TASK_CNT" and "d < TOTAL_TASK_CNT"
    and "dead_lock (of_nat s) (of_nat d) k = Inr b"
  shows "b \<longleftrightarrow> (d, s) \<in> (waits_for k)\<^sup>+"
  using assms
  by (auto simp: dead_lock_def ASSERT_Inr_iff dead_lock_loop_reaches proc_index_def andThen_Inr_iff
      split: if_splits)

text \<open>The loop that prints a cycle ends at the sender that closes it.\<close>

lemma print_cycle_returns:
  assumes wf: "ipc_wf k" and "s < TOTAL_TASK_CNT" and "p < TOTAL_TASK_CNT"
    and "(p, s) \<in> (waits_for k)\<^sup>*"
  shows "print_cycle k s p = Some (Inr ()) \<or>
    print_cycle k s p = Some (Inl (Assert_failure ''proc->msg''))"
  using wf_waits_for [OF wf] assms(3,4)
proof (induction p rule: wf_induct_rule)
  case (less p)
  show ?case
  proof (cases "p = s \<or> p_msg (proc k p) = 0")
    case True
    then show ?thesis by (auto simp: print_cycle.simps [of k s p])
  next
    case False
    then obtain d where d: "(p, d) \<in> waits_for k" "(d, s) \<in> (waits_for k)\<^sup>*"
      using less.prems(2) by (meson converse_rtranclE)
    then have "proc_index (p_send_to (proc k p)) = Some d" "d < TOTAL_TASK_CNT"
      by (auto simp: waits_for_def sending_def proc_index_Some)
    then show ?thesis
      using False less.IH [of d] d by (simp add: print_cycle.simps [of k s p])
  qed
qed

lemma dead_lock_cycle:
  assumes wf: "ipc_wf k" and "s < TOTAL_TASK_CNT" and "d < TOTAL_TASK_CNT"
    and cycle: "(d, s) \<in> (waits_for k)\<^sup>+"
  shows "dead_lock (of_nat s) (of_nat d) k = Inr True \<or>
    dead_lock (of_nat s) (of_nat d) k = Inl (Assert_failure ''proc->msg'')"
proof -
  have "s \<noteq> d" using cycle ipc_wf_acyclic [OF wf] by (auto simp: acyclic_def)
  moreover have "print_cycle k s d = Some (Inr ()) \<or>
    print_cycle k s d = Some (Inl (Assert_failure ''proc->msg''))"
    using assms by (intro print_cycle_returns trancl_into_rtrancl)
  ultimately show ?thesis
    using assms by (auto simp: dead_lock_def of_nat_u32_eq_iff dead_lock_loop_reaches proc_index_def)
qed

section \<open>The abstract rendezvous machine\<close>

text \<open>
  What the component promises, without links, flags and time slices: each process is ready,
  sending or receiving, each has a first-in first-out queue of senders, and a mark for an
  interrupt that no receive has picked up yet.
\<close>

datatype status = Ready | Sending nat | Receiving c_int

record ipc =
  a_status :: "nat \<Rightarrow> status"
  a_queue :: "nat \<Rightarrow> nat list"
  a_pending :: "nat \<Rightarrow> bool"

definition wants :: "status \<Rightarrow> nat \<Rightarrow> bool" where
  "wants st s \<longleftrightarrow> (\<exists>f. st = Receiving f \<and> (f = of_nat s \<or> f = P_ANY))"

definition a_send :: "nat \<Rightarrow> nat \<Rightarrow> ipc \<Rightarrow> ipc" where
  "a_send s d a =
     (if wants (a_status a d) s then a\<lparr>a_status := (a_status a)(d := Ready)\<rparr>
      else a\<lparr>a_status := (a_status a)(s := Sending d),
             a_queue := (a_queue a)(d := a_queue a d @ [s])\<rparr>)"

text \<open>Which queued sender a receive takes: the oldest one, or the one it names.\<close>

definition a_select :: "c_int \<Rightarrow> nat list \<Rightarrow> nat option" where
  "a_select src xs =
     (if src = P_ANY then (case xs of [] \<Rightarrow> None | x # _ \<Rightarrow> Some x)
      else if unat src \<in> set xs then Some (unat src) else None)"

definition a_recv :: "nat \<Rightarrow> c_int \<Rightarrow> ipc \<Rightarrow> ipc" where
  "a_recv r src a =
     (if a_pending a r \<and> (src = P_ANY \<or> src = MSG_SOURCE_INTERRUPT)
      then a\<lparr>a_pending := (a_pending a)(r := False)\<rparr>
      else (case a_select src (a_queue a r) of
              Some s \<Rightarrow> a\<lparr>a_status := (a_status a)(s := Ready),
                         a_queue := (a_queue a)(r := remove1 s (a_queue a r))\<rparr>
            | None \<Rightarrow> a\<lparr>a_status := (a_status a)(r := Receiving src)\<rparr>))"

definition a_interrupt :: "nat \<Rightarrow> ipc \<Rightarrow> ipc" where
  "a_interrupt n a =
     (if a_status a n = Receiving MSG_SOURCE_INTERRUPT \<or> a_status a n = Receiving P_ANY
      then a\<lparr>a_status := (a_status a)(n := Ready), a_pending := (a_pending a)(n := False)\<rparr>
      else a\<lparr>a_pending := (a_pending a)(n := True)\<rparr>)"

section \<open>The abstraction\<close>

definition abs_status :: "process \<Rightarrow> status" where
  "abs_status p =
     (if p_flags p = 0 then Ready
      else if p_flags p = MSG_SENDING then Sending (unat (p_send_to p))
      else Receiving (p_recv_from p))"

definition abs_ipc :: "kernel \<Rightarrow> ipc" where
  "abs_ipc k = \<lparr>
     a_status = (\<lambda>i. if i < TOTAL_TASK_CNT then abs_status (proc k i) else Ready),
     a_queue = (\<lambda>d. if d < TOTAL_TASK_CNT then send_queue k d else []),
     a_pending = (\<lambda>i. i < TOTAL_TASK_CNT \<and> p_have_int_msg (proc k i))\<rparr>"

lemma abs_ipc_eqI:
  assumes "\<And>i. i < TOTAL_TASK_CNT \<Longrightarrow> abs_status (proc k i) = a_status a i"
    and "\<And>i. \<not> i < TOTAL_TASK_CNT \<Longrightarrow> a_status a i = Ready \<and> a_queue a i = [] \<and> \<not> a_pending a i"
    and "\<And>d. d < TOTAL_TASK_CNT \<Longrightarrow> send_queue k d = a_queue a d"
    and "\<And>i. i < TOTAL_TASK_CNT \<Longrightarrow> p_have_int_msg (proc k i) = a_pending a i"
  shows "abs_ipc k = a"
proof (rule ipc.equality)
  show "a_status (abs_ipc k) = a_status a" using assms by (auto simp: abs_ipc_def fun_eq_iff)
  show "a_queue (abs_ipc k) = a_queue a" using assms by (auto simp: abs_ipc_def fun_eq_iff)
  show "a_pending (abs_ipc k) = a_pending a"
    using assms(2,4) by (auto simp: abs_ipc_def fun_eq_iff)
qed (simp add: abs_ipc_def)

text \<open>A step that touches neither the links nor who sends to whom.\<close>

lemma wf_same_links:
  assumes wf: "ipc_wf k" and "length (proc_table k') = length (proc_table k)"
    and "\<And>i. i < TOTAL_TASK_CNT \<Longrightarrow> proc_wf i (proc k' i)"
    and snd: "\<And>i d. i < TOTAL_TASK_CNT \<Longrightarrow> sending k' i d = sending k i d"
    and nxt: "\<And>i. i < TOTAL_TASK_CNT \<Longrightarrow> p_next_send (proc k' i) = p_next_send (proc k i)"
    and cur: "\<And>i. i < TOTAL_TASK_CNT \<Longrightarrow> p_current_send (proc k' i) = p_current_send (proc k i)"
    and acc: "\<And>d s. d < TOTAL_TASK_CNT \<Longrightarrow> s \<in> senders k d \<Longrightarrow> \<not> accepts k' d s"
  shows "ipc_wf k' \<and> (\<forall>d<TOTAL_TASK_CNT. send_queue k' d = send_queue k d)"
proof (rule ipc_wfI)
  have sn: "senders k' d = senders k d" for d
    using snd by (auto simp: senders_def)
  show "queue_wf k' d (send_queue k d)" if d: "d < TOTAL_TASK_CNT" for d
  proof -
    have "set (send_queue k d) = senders k d" using ipc_wf_queue [OF wf d] by (simp add: queue_wf_def)
    then have "\<forall>b\<in>set (send_queue k d). b < TOTAL_TASK_CNT" by (auto simp: senders_def)
    then have "chain k' a (send_queue k d) = chain k a (send_queue k d)" for a
      using nxt by (intro chain_cong) auto
    then show ?thesis using ipc_wf_queue [OF wf d] cur [OF d] by (simp add: queue_wf_def sn)
  qed
  show "\<not> accepts k' d s" if "d < TOTAL_TASK_CNT" "s \<in> senders k' d" for d s
    using acc that by (simp add: sn)
  have "waits_for k' = waits_for k" using snd by (auto simp: waits_for_def)
  then show "acyclic (waits_for k')" using ipc_wf_acyclic [OF wf] by simp
qed (use assms ipc_wf_length [OF wf] in simp_all)

text \<open>Time slices and the running process do not matter.\<close>

lemma same_ipc_wf:
  assumes "same_ipc k k'" and wf: "ipc_wf k"
  shows "ipc_wf k' \<and> abs_ipc k' = abs_ipc k"
proof -
  note f = same_ipc_fields [OF assms(1), unfolded ipc_wf_length [OF wf]]
  have "ipc_wf k' \<and> (\<forall>d<TOTAL_TASK_CNT. send_queue k' d = send_queue k d)"
  proof (rule wf_same_links [OF wf])
    show "length (proc_table k') = length (proc_table k)"
      using assms(1) by (rule same_ipc_globals)
    show "proc_wf i (proc k' i)" if "i < TOTAL_TASK_CNT" for i
      using ipc_wf_proc [OF wf that] f [OF that] by (simp add: proc_wf_def ldt_linear_addr_def)
    show "\<not> accepts k' d s" if "d < TOTAL_TASK_CNT" "s \<in> senders k d" for d s
      using ipc_wf_accepts [OF wf that] f [OF that(1)] by (simp add: accepts_def)
  qed (use f in \<open>simp_all add: sending_def\<close>)
  moreover from this have "abs_ipc k' = abs_ipc k"
    using f by (intro abs_ipc_eqI) (auto simp: abs_ipc_def abs_status_def)
  ultimately show ?thesis by simp
qed

context scheduler
begin

text \<open>What a component that calls the scheduler keeps: well-formedness and the abstract state.\<close>

lemma schedule_ipc:
  "schedule k = Some k' \<Longrightarrow> ipc_wf k \<Longrightarrow> ipc_wf k' \<and> abs_ipc k' = abs_ipc k"
  using schedule_frame by (rule same_ipc_wf)

lemma schedule_wf_total:
  "ipc_wf k \<Longrightarrow> i < TOTAL_TASK_CNT \<Longrightarrow> p_flags (proc k i) = 0 \<Longrightarrow> \<exists>k'. schedule k = Some k'"
  by (rule schedule_total [of k i])
     (simp_all add: runnable_def ipc_wf_length ipc_wf_proc [unfolded proc_wf_def])

end

section \<open>The code refines the abstract machine\<close>

lemma block_ipc:
  assumes "block p k = Inr k'" and "ipc_wf k"
  shows "ipc_wf k'" "abs_ipc k' = abs_ipc k" "runnable k' (process_ready k')" "memory k' = memory k"
    "\<And>i. runnable k' i = runnable k i"
proof -
  have s: "process_schedule k = Some k'" using assms(1) by (simp add: block_def ASSERT_Inr_iff)
  show "ipc_wf k'" "abs_ipc k' = abs_ipc k" using sched.schedule_ipc [OF s assms(2)] by simp_all
  show "runnable k' (process_ready k')" using s by (rule sched.schedule_ready)
  show "memory k' = memory k" using s by (rule sched.schedule_memory)
  show "runnable k' i = runnable k i" for i using s by (rule sched.schedule_runnable)
qed

lemma block_returns:
  assumes "ipc_wf k" and "p_flags (proc k p) \<noteq> 0" and "i < TOTAL_TASK_CNT" and "p_flags (proc k i) = 0"
  shows "\<exists>k'. block p k = Inr k'"
  using sched.schedule_wf_total [OF assms(1,3,4)] assms(2) by (auto simp: block_def)

lemma not_sending_not_sender: "p_flags (proc k i) \<noteq> MSG_SENDING \<Longrightarrow> \<not> sending k i d"
  by (simp add: sending_def)

lemma wants_abs:
  "d < TOTAL_TASK_CNT \<Longrightarrow> ipc_wf k \<Longrightarrow> wants (a_status (abs_ipc k) d) s \<longleftrightarrow> accepts k d s"
  using ipc_wf_flags [of k d] by (auto simp: wants_def abs_ipc_def abs_status_def accepts_def)

lemma accepts_test:
  assumes "ipc_wf k" and "s < TOTAL_TASK_CNT" and "d < TOTAL_TASK_CNT"
  shows "(p_flags (proc k d) AND MSG_RECVING \<noteq> 0 \<and>
     (p_recv_from (proc k d) = p_id (proc k s) \<or> p_recv_from (proc k d) = P_ANY)) \<longleftrightarrow> accepts k d s"
  using flag_tests(2) [OF assms(1,3)] assms by (simp add: accepts_def ipc_wf_id)

text \<open>A direct send.\<close>

lemma msg_send_direct_refines:
  assumes wf: "ipc_wf k" and s: "s < TOTAL_TASK_CNT" and d: "d < TOTAL_TASK_CNT"
    and acc: "accepts k d s" and ptr: "p_msg (proc k d) \<noteq> 0" "msg \<noteq> 0"
  shows "\<exists>k'. msg_send_direct s d msg k = Inr k' \<and> ipc_wf k' \<and>
    abs_ipc k' = a_send s d (abs_ipc k) \<and>
    memory k' = memcpy (p_msg (proc k d)) msg SIZEOF_MESSAGE (memory k) \<and>
    process_ready k' = process_ready k \<and> p_flags (proc k' d) = 0 \<and>
    (\<forall>i. i \<noteq> d \<longrightarrow> proc k' i = proc k i)"
proof -
  define k1 where "k1 = k\<lparr>memory := memcpy (p_msg (proc k d)) msg SIZEOF_MESSAGE (memory k)\<rparr>"
  define k' where "k' = upd_proc d (\<lambda>p. p\<lparr>p_msg := 0, p_flags := p_flags p AND NOT MSG_RECVING,
      p_recv_from := P_NO_TASK\<rparr>) k1"
  have fl: "p_flags (proc k d) = MSG_RECVING" using acc by (simp add: accepts_def)
  have proc': "proc k' i = (if i = d then (proc k d)\<lparr>p_msg := 0, p_flags := 0,
      p_recv_from := P_NO_TASK\<rparr> else proc k i)" for i
    using d ipc_wf_length [OF wf] fl by (simp add: k'_def k1_def proc_upd_proc)
  have "msg_send_direct s d msg k = unblock d k'"
    using ptr wf s d unfolding msg_send_direct_def
    by (simp add: vir_to_linear_flat ipc_wf_id k'_def k1_def)
  then have "msg_send_direct s d msg k = Inr k'" by (simp add: unblock_def proc')
  moreover have q: "ipc_wf k' \<and> (\<forall>e<TOTAL_TASK_CNT. send_queue k' e = send_queue k e)"
  proof (rule wf_same_links [OF wf])
    show "proc_wf i (proc k' i)" if "i < TOTAL_TASK_CNT" for i
      using ipc_wf_proc [OF wf that] by (auto simp: proc' proc_wf_def ldt_linear_addr_def)
    show "\<not> accepts k' e t" if "e < TOTAL_TASK_CNT" "t \<in> senders k e" for e t
      using ipc_wf_accepts [OF wf that] by (simp add: accepts_def proc')
    show "length (proc_table k') = length (proc_table k)" by (simp add: k'_def k1_def)
  qed (use fl in \<open>auto simp: proc' sending_def\<close>)
  moreover have "abs_ipc k' = a_send s d (abs_ipc k)"
    using q d wants_abs [OF d wf] acc
    by (intro abs_ipc_eqI) (auto simp: abs_ipc_def abs_status_def proc' a_send_def)
  ultimately show ?thesis
    by (auto simp: proc') (simp_all add: k'_def k1_def)
qed

text \<open>A send that waits: the sender becomes the last of the queue.\<close>

definition enqueued :: "nat \<Rightarrow> nat \<Rightarrow> addr \<Rightarrow> kernel \<Rightarrow> kernel" where
  "enqueued s d msg k =
     (let k1 = upd_proc s (\<lambda>p. p\<lparr>p_flags := p_flags p OR MSG_SENDING,
                                 p_send_to := of_nat d, p_msg := msg\<rparr>) k;
          k2 = (if send_queue k d = [] then upd_proc d (\<lambda>p. p\<lparr>p_current_send := Some s\<rparr>) k1
                else upd_proc (last (send_queue k d)) (\<lambda>p. p\<lparr>p_next_send := Some s\<rparr>) k1)
      in upd_proc s (\<lambda>p. p\<lparr>p_next_send := None\<rparr>) k2)"

lemma send_queue_members:
  assumes "ipc_wf k" and "d < TOTAL_TASK_CNT" and "i \<in> set (send_queue k d)"
  shows "i < TOTAL_TASK_CNT" "sending k i d"
  using ipc_wf_queue [OF assms(1,2)] assms(3) by (auto simp: queue_wf_def senders_def)

lemma sender_in_one_queue:
  assumes "ipc_wf k" and "sending k i d" and "i \<in> set (send_queue k e)"
    and "d < TOTAL_TASK_CNT" and "e < TOTAL_TASK_CNT"
  shows "d = e"
  using assms send_queue_members(2) [OF assms(1,5,3)] sending_unique by blast

lemma msg_send_enqueue_block:
  assumes wf: "ipc_wf k" and s: "s < TOTAL_TASK_CNT" and d: "d < TOTAL_TASK_CNT"
    and idle: "p_flags (proc k s) = 0" and "s \<noteq> d"
  shows "msg_send_enqueue s d msg k = block s (enqueued s d msg k)"
proof -
  define k1 where "k1 = upd_proc s (\<lambda>p. p\<lparr>p_flags := p_flags p OR MSG_SENDING,
      p_send_to := of_nat d, p_msg := msg\<rparr>) k"
  have len: "length (proc_table k) = TOTAL_TASK_CNT" using wf by (rule ipc_wf_length)
  have links: "p_next_send (proc k1 i) = p_next_send (proc k i)"
      "p_current_send (proc k1 i) = p_current_send (proc k i)" for i
    using s len by (simp_all add: k1_def proc_upd_proc)
  have ch: "chain k (p_current_send (proc k d)) (send_queue k d)"
    using ipc_wf_queue [OF wf d] by (simp add: queue_wf_def)
  then have ch1: "chain k1 (p_current_send (proc k d)) (send_queue k d)"
    using chain_cong [of "send_queue k d" k1 k] links by blast
  show ?thesis
  proof (cases "p_current_send (proc k d)")
    case None
    then have "send_queue k d = []" using ch by simp
    then show ?thesis using None links
      by (simp add: msg_send_enqueue_def enqueued_def Let_def flip: k1_def)
  next
    case (Some h)
    then have "send_queue k d \<noteq> []" using ch by auto
    moreover have "queue_last k1 h = Some (last (send_queue k d))"
      using ch1 Some by (simp add: queue_last_chain)
    ultimately show ?thesis using Some links
      by (simp add: msg_send_enqueue_def enqueued_def Let_def flip: k1_def)
  qed
qed

lemma proc_enqueued:
  assumes wf: "ipc_wf k" and s: "s < TOTAL_TASK_CNT" and d: "d < TOTAL_TASK_CNT"
    and idle: "p_flags (proc k s) = 0" and sd: "s \<noteq> d"
  shows "proc (enqueued s d msg k) i =
    (if i = s then (proc k s)\<lparr>p_flags := MSG_SENDING, p_send_to := of_nat d, p_msg := msg,
                               p_next_send := None\<rparr>
     else if send_queue k d = [] \<and> i = d then (proc k d)\<lparr>p_current_send := Some s\<rparr>
     else if send_queue k d \<noteq> [] \<and> i = last (send_queue k d)
       then (proc k i)\<lparr>p_next_send := Some s\<rparr>
     else proc k i)"
proof -
  have len: "length (proc_table k) = TOTAL_TASK_CNT" using wf by (rule ipc_wf_length)
  show ?thesis
  proof (cases "send_queue k d = []")
    case True
    then show ?thesis using s d sd idle len by (simp add: enqueued_def Let_def proc_upd_proc)
  next
    case False
    then have l: "last (send_queue k d) \<in> set (send_queue k d)" by simp
    have "last (send_queue k d) < TOTAL_TASK_CNT" and "last (send_queue k d) \<noteq> s"
      using send_queue_members [OF wf d l] idle by (auto simp: sending_def)
    then show ?thesis using False s d sd idle len
      by (simp add: enqueued_def Let_def proc_upd_proc)
  qed
qed

lemma enqueued_refines:
  assumes wf: "ipc_wf k" and s: "s < TOTAL_TASK_CNT" and d: "d < TOTAL_TASK_CNT"
    and idle: "p_flags (proc k s) = 0" and sd: "s \<noteq> d"
    and nacc: "\<not> accepts k d s" and free: "(d, s) \<notin> (waits_for k)\<^sup>+"
  shows "ipc_wf (enqueued s d msg k) \<and> abs_ipc (enqueued s d msg k) = a_send s d (abs_ipc k)"
proof -
  define k' where "k' = enqueued s d msg k"
  note pr = proc_enqueued [OF wf s d idle sd, of msg, folded k'_def]
  let ?Q = "(send_queue k)(d := send_queue k d @ [s])"
  have last_d: "last (send_queue k d) < TOTAL_TASK_CNT" "sending k (last (send_queue k d)) d"
    if "send_queue k d \<noteq> []"
    using send_queue_members [OF wf d] that by simp_all
  have not_s: "s \<notin> set (send_queue k e)" if "e < TOTAL_TASK_CNT" for e
    using send_queue_members(2) [OF wf that] idle by (auto simp: sending_def)
  have snd: "sending k' i e \<longleftrightarrow> (if i = s then e = d else sending k i e)" if "e < TOTAL_TASK_CNT" for i e
    using that d by (auto simp: sending_def pr of_nat_u32_eq_iff)
  have sn: "senders k' e = (if e = d then insert s (senders k e) else senders k e)"
    if "e < TOTAL_TASK_CNT" for e
    using that s idle snd by (auto simp: senders_def) (simp add: sending_def)
  have Q: "queue_wf k' e (?Q e)" if e: "e < TOTAL_TASK_CNT" for e
  proof -
    have q: "chain k (p_current_send (proc k e)) (send_queue k e)" "distinct (send_queue k e)"
        "set (send_queue k e) = senders k e"
      using ipc_wf_queue [OF wf e] by (simp_all add: queue_wf_def)
    have "chain k' (p_current_send (proc k' e)) (?Q e)"
    proof (cases "e = d")
      case True
      show ?thesis
      proof (cases "send_queue k d = []")
        case True
        with \<open>e = d\<close> sd show ?thesis by (simp add: pr)
      next
        case False
        have "chain k' (p_current_send (proc k d)) (send_queue k d @ [s])"
        proof (rule chain_snoc)
          show "chain k (p_current_send (proc k d)) (send_queue k d)" "distinct (send_queue k d)"
            using q True by simp_all
          show "p_next_send (proc k' b) = (if b = last (send_queue k d) then Some s
              else p_next_send (proc k b))" if "b \<in> set (send_queue k d)" for b
            using that not_s [OF d] False by (auto simp: pr)
        qed (use False not_s [OF d] in \<open>simp_all add: pr\<close>)
        then show ?thesis using True False sd by (simp add: pr)
      qed
    next
      case False
      have "p_next_send (proc k' b) = p_next_send (proc k b)" if b: "b \<in> set (send_queue k e)" for b
        using not_s [OF e] b False last_d sender_in_one_queue [OF wf _ b d e] by (auto simp: pr)
      then have "chain k' a (send_queue k e) \<longleftrightarrow> chain k a (send_queue k e)" for a
        by (rule chain_cong)
      moreover have "p_current_send (proc k' e) = p_current_send (proc k e)"
        using False by (simp add: pr)
      ultimately show ?thesis using q(1) False by simp
    qed
    then show ?thesis using q sn [OF e] not_s [OF e] by (auto simp: queue_wf_def)
  qed
  have "ipc_wf k' \<and> (\<forall>e<TOTAL_TASK_CNT. send_queue k' e = ?Q e)"
  proof (rule ipc_wfI)
    show "length (proc_table k') = TOTAL_TASK_CNT"
      using ipc_wf_length [OF wf] by (simp add: k'_def enqueued_def Let_def)
    show "proc_wf i (proc k' i)" if "i < TOTAL_TASK_CNT" for i
      using ipc_wf_proc [OF wf that] ipc_wf_proc [OF wf s] d sd
      by (auto simp: pr proc_wf_def ldt_linear_addr_def)
    show "\<not> accepts k' e t" if "e < TOTAL_TASK_CNT" "t \<in> senders k' e" for e t
      using ipc_wf_accepts [OF wf that(1), of t] that(2) sn [OF that(1)] nacc
      by (auto simp: accepts_def pr split: if_splits)
    have "waits_for k' = insert (s, d) (waits_for k)"
      using snd s d idle by (auto simp: waits_for_def split: if_splits) (simp add: sending_def)
    moreover have "(d, s) \<notin> (waits_for k)\<^sup>*"
      using free sd by (simp add: rtrancl_eq_or_trancl)
    ultimately show "acyclic (waits_for k')"
      using ipc_wf_acyclic [OF wf] by simp
  qed (rule Q)
  moreover from this have "abs_ipc k' = a_send s d (abs_ipc k)"
    using s d wants_abs [OF d wf] nacc idle ipc_wf_flags [OF wf]
    by (intro abs_ipc_eqI) (auto simp: abs_ipc_def abs_status_def pr a_send_def)
  ultimately show ?thesis by (simp add: k'_def)
qed

text \<open>A receive that finds a sender: it leaves the queue and becomes ready.\<close>

definition received :: "nat \<Rightarrow> nat \<Rightarrow> nat list \<Rightarrow> addr \<Rightarrow> kernel \<Rightarrow> kernel" where
  "received r s ys msg k =
     (let k0 = (if ys = [] then upd_proc r (\<lambda>p. p\<lparr>p_current_send := p_next_send (proc k s)\<rparr>) k
                else upd_proc (last ys) (\<lambda>p. p\<lparr>p_next_send := p_next_send (proc k s)\<rparr>) k);
          k1 = upd_proc s (\<lambda>p. p\<lparr>p_next_send := None\<rparr>) k0
      in upd_proc s (\<lambda>p. p\<lparr>p_msg := 0, p_send_to := P_NO_TASK,
                            p_flags := p_flags p AND NOT MSG_SENDING\<rparr>)
           (k1\<lparr>memory := memcpy msg (p_msg (proc k s)) SIZEOF_MESSAGE (memory k)\<rparr>))"

lemma proc_received:
  assumes wf: "ipc_wf k" and r: "r < TOTAL_TASK_CNT"
    and q: "send_queue k r = ys @ s # zs" and idle: "p_flags (proc k r) = 0"
  shows "proc (received r s ys msg k) i =
    (if i = s then (proc k s)\<lparr>p_flags := 0, p_send_to := P_NO_TASK, p_msg := 0, p_next_send := None\<rparr>
     else if ys = [] \<and> i = r then (proc k r)\<lparr>p_current_send := p_next_send (proc k s)\<rparr>
     else if ys \<noteq> [] \<and> i = last ys then (proc k i)\<lparr>p_next_send := p_next_send (proc k s)\<rparr>
     else proc k i)"
    and "length (proc_table (received r s ys msg k)) = TOTAL_TASK_CNT"
proof -
  have len: "length (proc_table k) = TOTAL_TASK_CNT" using wf by (rule ipc_wf_length)
  have s: "s < TOTAL_TASK_CNT" "sending k s r" using send_queue_members [OF wf r] q by simp_all
  then have sr: "s \<noteq> r" and fl: "p_flags (proc k s) = MSG_SENDING" using idle by (auto simp: sending_def)
  have ly: "last ys < TOTAL_TASK_CNT" if "ys \<noteq> []"
    using send_queue_members(1) [OF wf r, of "last ys"] q that by simp
  have "s \<notin> set ys" using ipc_wf_queue [OF wf r] q by (simp add: queue_wf_def)
  then have "last ys \<noteq> s" if "ys \<noteq> []" using that by (metis last_in_set)
  then show "proc (received r s ys msg k) i =
    (if i = s then (proc k s)\<lparr>p_flags := 0, p_send_to := P_NO_TASK, p_msg := 0, p_next_send := None\<rparr>
     else if ys = [] \<and> i = r then (proc k r)\<lparr>p_current_send := p_next_send (proc k s)\<rparr>
     else if ys \<noteq> [] \<and> i = last ys then (proc k i)\<lparr>p_next_send := p_next_send (proc k s)\<rparr>
     else proc k i)"
    using s sr r len fl ly by (simp add: received_def Let_def proc_upd_proc)
  show "length (proc_table (received r s ys msg k)) = TOTAL_TASK_CNT"
    using len by (simp add: received_def Let_def)
qed

lemma msg_recv_copy_received:
  assumes wf: "ipc_wf k" and r: "r < TOTAL_TASK_CNT"
    and q: "send_queue k r = ys @ s # zs" and idle: "p_flags (proc k r) = 0"
    and prev: "ys \<noteq> [] \<Longrightarrow> p_prev = Some (last ys)"
  shows "msg_recv_copy r s p_prev msg k = Inr (received r s ys msg k)"
proof -
  have len: "length (proc_table k) = TOTAL_TASK_CNT" using wf by (rule ipc_wf_length)
  have s: "s < TOTAL_TASK_CNT" "sending k s r" using send_queue_members [OF wf r] q by simp_all
  have fl: "p_flags (proc k s) = MSG_SENDING" using s by (simp add: sending_def)
  have dist: "distinct (ys @ s # zs)" and ch: "chain k (p_current_send (proc k r)) (ys @ s # zs)"
    using ipc_wf_queue [OF wf r] q by (simp_all add: queue_wf_def)
  define k0 where "k0 = (if ys = [] then upd_proc r (\<lambda>p. p\<lparr>p_current_send := p_next_send (proc k s)\<rparr>) k
      else upd_proc (last ys) (\<lambda>p. p\<lparr>p_next_send := p_next_send (proc k s)\<rparr>) k)"
  define k1 where "k1 = upd_proc s (\<lambda>p. p\<lparr>p_next_send := None\<rparr>) k0"
  have deq: "dequeue_sender r s p_prev k = Inr k1"
  proof (cases ys)
    case Nil
    then show ?thesis using ch by (simp add: dequeue_sender_def k1_def k0_def)
  next
    case (Cons y ys')
    then show ?thesis using ch dist prev by (simp add: dequeue_sender_def k1_def k0_def)
  qed
  have len1: "length (proc_table k1) = TOTAL_TASK_CNT" using len by (simp add: k1_def k0_def)
  have ly: "last ys < TOTAL_TASK_CNT" if "ys \<noteq> []"
    using send_queue_members(1) [OF wf r, of "last ys"] q that by simp
  have same: "p_id (proc k1 i) = p_id (proc k i)" "p_msg (proc k1 i) = p_msg (proc k i)"
      "p_ldt (proc k1 i) = p_ldt (proc k i)" "p_flags (proc k1 i) = p_flags (proc k i)" for i
    using s r ly len by (auto simp: k1_def k0_def proc_upd_proc)
  have tr: "vir_to_linear (p_id (proc k1 i)) a k1 = Inr a" if "i < TOTAL_TASK_CNT" for i a
    using ipc_wf_proc [OF wf that] that
    by (simp add: same vir_to_linear_def proc_wf_def ldt_linear_addr_def)
  have mem1: "memory k1 = memory k" by (simp add: k1_def k0_def)
  have "msg_recv_copy r s p_prev msg k = unblock s (received r s ys msg k)"
    using tr r s by (simp add: msg_recv_copy_def deq same mem1)
      (simp add: received_def Let_def k1_def k0_def)
  then show ?thesis
    by (simp add: unblock_def proc_received(1) [OF wf r q idle])
qed

lemma received_refines:
  assumes wf: "ipc_wf k" and r: "r < TOTAL_TASK_CNT"
    and q: "send_queue k r = ys @ s # zs" and idle: "p_flags (proc k r) = 0"
  shows "ipc_wf (received r s ys msg k) \<and>
    abs_ipc (received r s ys msg k) =
      (abs_ipc k)\<lparr>a_status := (a_status (abs_ipc k))(s := Ready),
                  a_queue := (a_queue (abs_ipc k))(r := remove1 s (a_queue (abs_ipc k) r))\<rparr>"
proof -
  define k' where "k' = received r s ys msg k"
  note pr = proc_received(1) [OF wf r q idle, of msg, folded k'_def]
  note s = send_queue_members [OF wf r, of s, unfolded q, simplified]
  have dist: "distinct (ys @ s # zs)" and ch: "chain k (p_current_send (proc k r)) (ys @ s # zs)"
    and setq: "set (ys @ s # zs) = senders k r"
    using ipc_wf_queue [OF wf r] q by (simp_all add: queue_wf_def)
  have sr: "s \<noteq> r" using s idle by (auto simp: sending_def)
  let ?Q = "(send_queue k)(r := ys @ zs)"
  have snd: "sending k' i e \<longleftrightarrow> i \<noteq> s \<and> sending k i e" for i e
    by (auto simp: sending_def pr)
  have sn: "senders k' e = senders k e - {s}" for e
    by (auto simp: senders_def snd)
  have only_r: "s \<notin> senders k e" if "e < TOTAL_TASK_CNT" "e \<noteq> r" for e
    using sending_unique [OF wf s(2) _ r that(1)] that(2) by (auto simp: senders_def)
  have Q: "queue_wf k' e (?Q e)" if e: "e < TOTAL_TASK_CNT" for e
  proof (cases "e = r")
    case True
    have "chain k' (p_current_send (proc k' r)) (ys @ zs)"
    proof (cases "ys = []")
      case True
      have "chain k' a zs \<longleftrightarrow> chain k a zs" for a
        using dist True by (intro chain_cong) (auto simp: pr)
      then show ?thesis using ch True sr by (simp add: pr)
    next
      case False
      then have "last ys \<noteq> s" "s \<notin> set ys" using dist by auto
      then have "chain k' (p_current_send (proc k r)) (ys @ zs)"
        using dist False by (intro chain_remove_mid [OF ch False dist]) (auto simp: pr)
      then show ?thesis using False sr by (auto simp: pr)
    qed
    then show ?thesis using True dist setq by (auto simp: queue_wf_def sn)
  next
    case False
    have "p_next_send (proc k' b) = p_next_send (proc k b)" if b: "b \<in> set (send_queue k e)" for b
    proof -
      have "b \<noteq> s" using b only_r [OF e False] ipc_wf_queue [OF wf e] by (auto simp: queue_wf_def)
      moreover have "b \<notin> set ys"
        using sender_in_one_queue [OF wf _ b r e] send_queue_members(2) [OF wf r, of b] q False by auto
      ultimately show ?thesis by (auto simp: pr)
    qed
    then have "chain k' a (send_queue k e) \<longleftrightarrow> chain k a (send_queue k e)" for a
      by (rule chain_cong)
    moreover have "p_current_send (proc k' e) = p_current_send (proc k e)"
      using False by (simp add: pr)
    ultimately show ?thesis
      using ipc_wf_queue [OF wf e] False only_r [OF e False] by (simp add: queue_wf_def sn)
  qed
  have "ipc_wf k' \<and> (\<forall>e<TOTAL_TASK_CNT. send_queue k' e = ?Q e)"
  proof (rule ipc_wfI)
    show "length (proc_table k') = TOTAL_TASK_CNT"
      unfolding k'_def by (rule proc_received(2) [OF wf r q idle])
    show "proc_wf i (proc k' i)" if "i < TOTAL_TASK_CNT" for i
      using ipc_wf_proc [OF wf that] ipc_wf_proc [OF wf s(1)]
      by (auto simp: pr proc_wf_def ldt_linear_addr_def)
    show "\<not> accepts k' e t" if "e < TOTAL_TASK_CNT" "t \<in> senders k' e" for e t
      using ipc_wf_accepts [OF wf that(1), of t] that(2)
      by (auto simp: sn accepts_def pr split: if_splits)
    have "waits_for k' \<subseteq> waits_for k" by (auto simp: waits_for_def snd)
    then show "acyclic (waits_for k')"
      using ipc_wf_acyclic [OF wf] by (metis acyclic_subset)
  qed (rule Q)
  moreover from this have "abs_ipc k' = (abs_ipc k)\<lparr>a_status := (a_status (abs_ipc k))(s := Ready),
      a_queue := (a_queue (abs_ipc k))(r := remove1 s (a_queue (abs_ipc k) r))\<rparr>"
    using s r q dist by (intro abs_ipc_eqI) (auto simp: abs_ipc_def abs_status_def pr remove1_append)
  ultimately show ?thesis by (simp add: k'_def)
qed

text \<open>A receive that waits.\<close>

definition waiting :: "nat \<Rightarrow> c_int \<Rightarrow> addr \<Rightarrow> kernel \<Rightarrow> kernel" where
  "waiting r src msg k =
     upd_proc r (\<lambda>p. p\<lparr>p_flags := p_flags p OR MSG_RECVING, p_msg := msg, p_recv_from := src\<rparr>) k"

lemma waiting_refines:
  assumes wf: "ipc_wf k" and r: "r < TOTAL_TASK_CNT" and idle: "p_flags (proc k r) = 0"
    and none: "a_select src (send_queue k r) = None"
  shows "ipc_wf (waiting r src msg k) \<and>
    abs_ipc (waiting r src msg k) =
      (abs_ipc k)\<lparr>a_status := (a_status (abs_ipc k))(r := Receiving src)\<rparr>"
proof -
  define k' where "k' = waiting r src msg k"
  have pr: "proc k' i = (if i = r then (proc k r)\<lparr>p_flags := MSG_RECVING, p_msg := msg,
      p_recv_from := src\<rparr> else proc k i)" for i
    using r idle ipc_wf_length [OF wf] by (simp add: k'_def waiting_def proc_upd_proc)
  have q: "set (send_queue k r) = senders k r" using ipc_wf_queue [OF wf r] by (simp add: queue_wf_def)
  have "ipc_wf k' \<and> (\<forall>e<TOTAL_TASK_CNT. send_queue k' e = send_queue k e)"
  proof (rule wf_same_links [OF wf])
    show "length (proc_table k') = length (proc_table k)" by (simp add: k'_def waiting_def)
    show "proc_wf i (proc k' i)" if "i < TOTAL_TASK_CNT" for i
      using ipc_wf_proc [OF wf that] by (auto simp: pr proc_wf_def ldt_linear_addr_def)
    show "\<not> accepts k' e t" if e: "e < TOTAL_TASK_CNT" and t: "t \<in> senders k e" for e t
    proof (cases "e = r")
      case True
      have "t \<in> set (send_queue k r)" and "t < TOTAL_TASK_CNT"
        using t True q by (auto simp: senders_def)
      then have "src \<noteq> P_ANY" and "src \<noteq> of_nat t"
        using none by (auto simp: a_select_def split: if_splits list.splits)
      then show ?thesis using True by (simp add: accepts_def pr)
    next
      case False
      then show ?thesis using ipc_wf_accepts [OF wf e t] by (simp add: accepts_def pr)
    qed
  qed (use idle in \<open>auto simp: pr sending_def\<close>)
  moreover from this have "abs_ipc k' =
      (abs_ipc k)\<lparr>a_status := (a_status (abs_ipc k))(r := Receiving src)\<rparr>"
    using r by (intro abs_ipc_eqI) (auto simp: abs_ipc_def abs_status_def pr)
  ultimately show ?thesis by (simp add: k'_def)
qed

text \<open>
  What \<open>msg_recv_queue\<close> does, by the sender the abstract machine selects. A source outside
  the table selects nobody; the code waits, unless the bytes it reads there happen to look
  like a sender's.
\<close>

definition stray_sender :: "kernel \<Rightarrow> c_int \<Rightarrow> nat \<Rightarrow> bool" where
  "stray_sender k src r \<longleftrightarrow> src \<noteq> P_ANY \<and> proc_index src = None \<and>
     p_flags (outside k src) AND MSG_SENDING \<noteq> 0 \<and> p_send_to (outside k src) = of_nat r"

lemma chain_Some_hd: "chain k (Some s) xs \<Longrightarrow> \<exists>zs. xs = s # zs"
  by (cases xs) auto

lemma msg_recv_queue_cases:
  assumes wf: "ipc_wf k" and r: "r < TOTAL_TASK_CNT" and idle: "p_flags (proc k r) = 0"
  shows "if stray_sender k src r then msg_recv_queue r src msg k = Inl (Out_of_table src)
    else (case a_select src (send_queue k r) of
      Some s \<Rightarrow> \<exists>ys zs. send_queue k r = ys @ s # zs \<and>
                  msg_recv_queue r src msg k = Inr (received r s ys msg k)
    | None \<Rightarrow> msg_recv_queue r src msg k = block r (waiting r src msg k))"
proof -
  have ch: "chain k (p_current_send (proc k r)) (send_queue k r)"
    and setq: "set (send_queue k r) = senders k r"
    using ipc_wf_queue [OF wf r] by (simp_all add: queue_wf_def)
  have id_r: "p_id (proc k r) = of_nat r" using ipc_wf_id [OF wf r] .
  show ?thesis
  proof (cases "src = P_ANY")
    case True
    then have ns: "\<not> stray_sender k src r" by (simp add: stray_sender_def)
    show ?thesis
    proof (cases "p_current_send (proc k r)")
      case None
      then have "send_queue k r = []" using ch by simp
      then show ?thesis using True None ns
        by (simp add: a_select_def msg_recv_queue_def msg_recv_wait_def waiting_def)
    next
      case (Some s)
      then obtain zs where q: "send_queue k r = s # zs" using ch chain_Some_hd by metis
      have "msg_recv_copy r s None msg k = Inr (received r s [] msg k)"
        using q by (intro msg_recv_copy_received [OF wf r _ idle]) simp_all
      then show ?thesis using True Some ns q
        by (auto simp: a_select_def msg_recv_queue_def)
    qed
  next
    case not_any: False
    show ?thesis
    proof (cases "proc_index src")
      case None
      then have "unat src \<notin> set (send_queue k r)"
        using setq by (auto simp: proc_index_None senders_def)
      then show ?thesis using not_any None id_r
        by (auto simp: a_select_def stray_sender_def msg_recv_queue_def msg_recv_wait_def waiting_def)
    next
      case (Some i)
      then have i: "i < TOTAL_TASK_CNT" "unat src = i" "src = of_nat i"
        by (auto simp: proc_index_Some)
      have ns: "\<not> stray_sender k src r" using Some by (simp add: stray_sender_def)
      have test: "(p_flags (proc k i) AND MSG_SENDING \<noteq> 0 \<and> p_send_to (proc k i) = p_id (proc k r))
          \<longleftrightarrow> i \<in> set (send_queue k r)"
        using flag_tests(1) [OF wf i(1)] i(1) by (simp add: setq senders_def sending_def id_r)
      show ?thesis
      proof (cases "i \<in> set (send_queue k r)")
        case False
        then have "msg_recv_queue r src msg k = msg_recv_wait r src msg k"
          using not_any Some test by (auto simp: msg_recv_queue_def Let_def)
        then show ?thesis using False not_any ns i
          by (simp add: a_select_def msg_recv_wait_def waiting_def)
      next
        case True
        then obtain ys zs where q: "send_queue k r = ys @ i # zs" and ni: "i \<notin> set ys"
          by (meson split_list_first)
        have ids: "p_id (proc k b) \<noteq> src" if "b \<in> set ys" for b
        proof -
          have "b < TOTAL_TASK_CNT" using send_queue_members(1) [OF wf r, of b] q that by simp
          then show ?thesis using that ni i by (auto simp: ipc_wf_id [OF wf] of_nat_u32_eq_iff)
        qed
        have find: "find_sender k src (p_current_send (proc k r)) None =
            Some (Some i, if ys = [] then None else Some (last ys))"
          using ch ids i ipc_wf_id [OF wf i(1)] unfolding q by (intro find_sender_chain) auto
        have "p_current_send (proc k r) \<noteq> None" using ch q by (cases ys) auto
        moreover have "msg_recv_copy r i (if ys = [] then None else Some (last ys)) msg k =
            Inr (received r i ys msg k)"
          by (rule msg_recv_copy_received [OF wf r q idle]) simp
        ultimately have "msg_recv_queue r src msg k = Inr (received r i ys msg k)"
          using not_any Some test True find by (simp add: msg_recv_queue_def)
        then show ?thesis using True not_any ns i q by (auto simp: a_select_def)
      qed
    qed
  qed
qed

text \<open>The two entry points.\<close>

lemma msg_send_branch:
  assumes wf: "ipc_wf k" and s: "s < TOTAL_TASK_CNT" and d: "d < TOTAL_TASK_CNT" and sd: "s \<noteq> d"
    and idle: "p_flags (proc k s) = 0" and free: "(d, s) \<notin> (waits_for k)\<^sup>+"
  shows "msg_send s (of_nat d) msg k = andThen
     (if accepts k d s then msg_send_direct s d msg k else block s (enqueued s d msg k))
     (\<lambda>k'. Inr (k', 0))"
  using assms dead_lock_free [OF wf s d sd free] accepts_test [OF wf s d]
  by (simp add: msg_send_def ipc_wf_id of_nat_u32_eq_iff msg_send_enqueue_block)

lemma msg_send_locked:
  assumes "dead_lock (p_id (proc k s)) dest k \<noteq> Inr False"
  shows "msg_send s dest msg k \<noteq> Inr r"
proof (cases "dead_lock (p_id (proc k s)) dest k")
  case (Inr b)
  then have "b" using assms by simp
  then show ?thesis using Inr by (simp add: msg_send_def ASSERT_Inr_iff split: option.split)
qed (simp add: msg_send_def ASSERT_Inr_iff split: option.split)

lemma msg_send_Inr_dest:
  assumes wf: "ipc_wf k" and s: "s < TOTAL_TASK_CNT" and r: "msg_send s dest msg k = Inr r"
  shows "\<exists>d<TOTAL_TASK_CNT. dest = of_nat d \<and> unat dest = d \<and> s \<noteq> d \<and> (d, s) \<notin> (waits_for k)\<^sup>+"
proof (cases "proc_index dest")
  case None
  then show ?thesis using r by (simp add: msg_send_def ASSERT_Inr_iff)
next
  case (Some d)
  then have d: "d < TOTAL_TASK_CNT" "unat dest = d" "dest = of_nat d"
    by (auto simp: proc_index_Some)
  have ne: "s \<noteq> d"
    using r d(1,3) by (auto simp: msg_send_def ASSERT_Inr_iff ipc_wf_id [OF wf s])
  moreover have "dead_lock (of_nat s) (of_nat d) k = Inr False"
    using msg_send_locked [of k s dest msg r] r d(3) by (auto simp: ipc_wf_id [OF wf s])
  ultimately have "(d, s) \<notin> (waits_for k)\<^sup>+"
    using dead_lock_found [OF wf s d(1)] by metis
  then show ?thesis using d ne by blast
qed

lemma msg_send_correct:
  assumes wf: "ipc_wf k" and s: "s < TOTAL_TASK_CNT" and idle: "p_flags (proc k s) = 0"
    and r: "msg_send s dest msg k = Inr (k', ret)"
  shows "ipc_wf k' \<and> abs_ipc k' = a_send s (unat dest) (abs_ipc k) \<and> ret = 0 \<and>
    (process_ready k = s \<longrightarrow> runnable k' (process_ready k'))"
proof -
  obtain d where d: "d < TOTAL_TASK_CNT" "dest = of_nat d" "unat dest = d" "s \<noteq> d"
      "(d, s) \<notin> (waits_for k)\<^sup>+"
    using msg_send_Inr_dest [OF wf s r] by auto
  note b = msg_send_branch [OF wf s d(1,4) idle d(5), of msg, folded d(2)]
  show ?thesis
  proof (cases "accepts k d s")
    case True
    then have dir: "msg_send_direct s d msg k = Inr k'" and ret: "ret = 0"
      using r b by (auto simp: andThen_Inr_iff)
    then have "p_msg (proc k d) \<noteq> 0" "msg \<noteq> 0"
      by (auto simp: msg_send_direct_def ASSERT_Inr_iff)
    then obtain k'' where k'': "msg_send_direct s d msg k = Inr k''" "ipc_wf k''"
        "abs_ipc k'' = a_send s d (abs_ipc k)" "process_ready k'' = process_ready k"
        "\<forall>i. i \<noteq> d \<longrightarrow> proc k'' i = proc k i"
      using msg_send_direct_refines [OF wf s d(1) True, of msg] by blast
    have eq: "k'' = k'" using dir k''(1) by simp
    have "process_ready k = s \<longrightarrow> runnable k' (process_ready k')"
      using k''(2,4,5) d(4) idle s unfolding eq by (auto simp: runnable_def ipc_wf_length)
    then show ?thesis using k''(2,3) ret unfolding eq d(3) by simp
  next
    case False
    then have blk: "block s (enqueued s d msg k) = Inr k'" and ret: "ret = 0"
      using r b by (auto simp: andThen_Inr_iff)
    show ?thesis
      using enqueued_refines [OF wf s d(1) idle d(4) False d(5)] block_ipc [OF blk] ret d(3) by simp
  qed
qed

lemma msg_recv_correct:
  assumes wf: "ipc_wf k" and r: "r < TOTAL_TASK_CNT" and idle: "p_flags (proc k r) = 0"
    and ok: "msg_recv r src msg k = Inr (k', ret)"
  shows "ipc_wf k' \<and> abs_ipc k' = a_recv r src (abs_ipc k) \<and> ret = 0 \<and>
    (process_ready k = r \<longrightarrow> runnable k' (process_ready k'))"
proof (cases "p_have_int_msg (proc k r) \<and> (src = P_ANY \<or> src = MSG_SOURCE_INTERRUPT)")
  case True
  define k1 where "k1 = upd_proc r (\<lambda>p. p\<lparr>p_have_int_msg := False\<rparr>)
      (k\<lparr>memory := write_int_msg msg (memory k)\<rparr>)"
  have k': "k' = k1" "ret = 0"
    using ok True wf r by (auto simp: msg_recv_def msg_recv_int_def ASSERT_Inr_iff ipc_wf_id
        vir_to_linear_flat k1_def)
  have pr: "proc k1 i = (if i = r then (proc k r)\<lparr>p_have_int_msg := False\<rparr> else proc k i)" for i
    using r ipc_wf_length [OF wf] by (simp add: k1_def proc_upd_proc)
  have q: "ipc_wf k1 \<and> (\<forall>e<TOTAL_TASK_CNT. send_queue k1 e = send_queue k e)"
  proof (rule wf_same_links [OF wf])
    show "length (proc_table k1) = length (proc_table k)" by (simp add: k1_def)
    show "proc_wf i (proc k1 i)" if "i < TOTAL_TASK_CNT" for i
      using ipc_wf_proc [OF wf that] by (auto simp: pr proc_wf_def ldt_linear_addr_def)
    show "\<not> accepts k1 e t" if "e < TOTAL_TASK_CNT" "t \<in> senders k e" for e t
      using ipc_wf_accepts [OF wf that] by (auto simp: accepts_def pr)
  qed (auto simp: pr sending_def)
  moreover have "abs_ipc k1 = a_recv r src (abs_ipc k)"
    using q r True by (intro abs_ipc_eqI) (auto simp: abs_ipc_def abs_status_def pr a_recv_def)
  moreover have "process_ready k = r \<longrightarrow> runnable k1 (process_ready k1)"
  proof -
    have "process_ready k1 = process_ready k" "length (proc_table k1) = length (proc_table k)"
      by (simp_all add: k1_def)
    then show ?thesis using r idle ipc_wf_length [OF wf] by (simp add: runnable_def pr)
  qed
  ultimately show ?thesis using k' by simp
next
  case False
  then have q: "msg_recv_queue r src msg k = Inr k'" and ret: "ret = 0"
    using ok by (auto simp: msg_recv_def ASSERT_Inr_iff andThen_Inr_iff)
  note c = msg_recv_queue_cases [OF wf r idle, of src msg]
  have ns: "\<not> stray_sender k src r" using c q by auto
  have ar: "a_queue (abs_ipc k) r = send_queue k r" "a_pending (abs_ipc k) r = p_have_int_msg (proc k r)"
    using r by (simp_all add: abs_ipc_def)
  show ?thesis
  proof (cases "a_select src (send_queue k r)")
    case None
    then have blk: "block r (waiting r src msg k) = Inr k'" using c ns q by simp
    show ?thesis
      using waiting_refines [OF wf r idle None, of msg] block_ipc [OF blk] ret None False ar
      by (auto simp: a_recv_def)
  next
    case (Some s)
    then obtain ys zs where sq: "send_queue k r = ys @ s # zs"
      and k': "k' = received r s ys msg k" using c ns q by auto
    have "process_ready k = r \<longrightarrow> runnable k' (process_ready k')"
    proof -
      have "process_ready k' = process_ready k" "length (proc_table k') = length (proc_table k)"
        by (simp_all add: k' received_def Let_def)
      then show ?thesis
        using r idle ipc_wf_length [OF wf] proc_received [OF wf r sq idle, of msg]
        by (auto simp: runnable_def k')
    qed
    then show ?thesis
      using received_refines [OF wf r sq idle, of msg] k' Some False ar ret by (auto simp: a_recv_def)
  qed
qed

end
