(* ===== verification/Init.thy ===== *)
theory Init
  imports Message
begin

text \<open>
  How the process table starts: the task tables of \<open>kernel/global.c\<close> and
  \<open>init_process_main\<close> of \<open>kernel/process.c\<close>, from the zeroed table of the program's bss
  up to the point where the clock is started. The theorems say what each process is given
  (segments, privilege, stack, time slice) and that the table the kernel starts with
  satisfies the invariant of the message component.
\<close>

section \<open>The task tables\<close>

text \<open>An entry point is named; the linker (\<open>lnk\<close>) gives its address.\<close>

record task =
  init_eip :: string
  stack_size :: c_int
  t_name :: "u8 list"

abbreviation (input) RING0_TASK_CNT :: nat where "RING0_TASK_CNT \<equiv> 0"
abbreviation (input) RING1_TASK_CNT :: nat where "RING1_TASK_CNT \<equiv> 4"
abbreviation (input) RING2_TASK_CNT :: nat where "RING2_TASK_CNT \<equiv> 0"
abbreviation (input) RING3_TASK_CNT :: nat where "RING3_TASK_CNT \<equiv> 3"
abbreviation (input) STACK_SIZE_CONSOLE :: u32 where "STACK_SIZE_CONSOLE \<equiv> 0x8000"
abbreviation (input) STACK_SIZE_SYS :: u32 where "STACK_SIZE_SYS \<equiv> 0x8000"
abbreviation (input) STACK_SIZE_HDD :: u32 where "STACK_SIZE_HDD \<equiv> 0x8000"
abbreviation (input) STACK_SIZE_FS :: u32 where "STACK_SIZE_FS \<equiv> 0x8000"
abbreviation (input) STACK_SIZE_PROC_A :: u32 where "STACK_SIZE_PROC_A \<equiv> 0x8000"
abbreviation (input) STACK_SIZE_PROC_B :: u32 where "STACK_SIZE_PROC_B \<equiv> 0x8000"
abbreviation (input) STACK_SIZE_PROC_C :: u32 where "STACK_SIZE_PROC_C \<equiv> 0x8000"
abbreviation (input) STACK_SIZE :: u32 where "STACK_SIZE \<equiv> 0x38000"

definition r1_task_table :: "task list" where
  "r1_task_table =
     [\<lparr>init_eip = ''console_task'', stack_size = STACK_SIZE_CONSOLE, t_name = chars ''console''\<rparr>,
      \<lparr>init_eip = ''sys_task'', stack_size = STACK_SIZE_SYS, t_name = chars ''system''\<rparr>,
      \<lparr>init_eip = ''hdd_task'', stack_size = STACK_SIZE_HDD, t_name = chars ''hdd''\<rparr>,
      \<lparr>init_eip = ''fs_task'', stack_size = STACK_SIZE_FS, t_name = chars ''fs''\<rparr>]"

definition r3_task_table :: "task list" where
  "r3_task_table =
     [\<lparr>init_eip = ''process_A'', stack_size = STACK_SIZE_PROC_A, t_name = chars ''P_A''\<rparr>,
      \<lparr>init_eip = ''process_B'', stack_size = STACK_SIZE_PROC_B, t_name = chars ''P_B''\<rparr>,
      \<lparr>init_eip = ''process_C'', stack_size = STACK_SIZE_PROC_C, t_name = chars ''P_C''\<rparr>]"

section \<open>Building one process\<close>

text \<open>
  What the first half of the loop body selects for index \<open>i\<close>: the task, its privilege, its
  RPL, its flags register, its priority and its console. The groups of ring 0 and ring 2 are
  empty.
\<close>

record choice =
  c_task :: task
  c_privilege :: u8
  c_rpl :: u32
  c_eflags :: u32
  c_priority :: c_int
  c_console :: c_int

definition choose_task :: "nat \<Rightarrow> choice" where
  "choose_task i =
     (if i < RING0_TASK_CNT + RING1_TASK_CNT
      then \<lparr>c_task = r1_task_table ! (i - RING0_TASK_CNT), c_privilege = PRI_TASK, c_rpl = RPL_TASK,
            c_eflags = 0x1202, c_priority = 15, c_console = 0\<rparr>
      else \<lparr>c_task = r3_task_table ! (i - RING0_TASK_CNT - RING1_TASK_CNT - RING2_TASK_CNT),
            c_privilege = PRI_USER, c_rpl = RPL_USER, c_eflags = 0x202, c_priority = 5, c_console = 1\<rparr>)"

text \<open>\<open>strcpy(proc_table[i].name, task->name)\<close>: the bytes before the terminator.\<close>

definition copy_name :: "u8 list \<Rightarrow> u8 list \<Rightarrow> u8 list" where
  "copy_name src dst = src @ drop (length src) dst"

text \<open>A selector into the local table: \<open>(offset & SA_RPL_MASK & SA_TI_MASK) | SA_TIL | rpl\<close>.\<close>

definition ldt_selector :: "u32 \<Rightarrow> u32 \<Rightarrow> u32" where
  "ldt_selector offset rpl = (offset AND SA_RPL_MASK AND SA_TI_MASK) OR SA_TIL OR rpl"

definition init_process ::
  "symbols \<Rightarrow> descriptor list \<Rightarrow> nat \<Rightarrow> u16 \<Rightarrow> addr \<Rightarrow> process \<Rightarrow> process" where
  "init_process lnk gdt i selector_ldt top_stack p =
     (let c = choose_task i; rpl = c_rpl c
      in p\<lparr>p_console_id := c_console c,
           p_id := of_nat i,
           p_name := copy_name (t_name (c_task c)) (p_name p),
           p_ldt_sel := selector_ldt,
           p_ldt := [(gdt ! unat (drop_bit 3 SELECTOR_KERNEL_CS))
                       \<lparr>attr1 := DA_C OR push_bit 5 (c_privilege c)\<rparr>,
                     (gdt ! unat (drop_bit 3 SELECTOR_KERNEL_DS))
                       \<lparr>attr1 := DA_DRW OR push_bit 5 (c_privilege c)\<rparr>],
           p_regs := (p_regs p)\<lparr>
             r_cs := ldt_selector 0 rpl,
             r_ds := ldt_selector 8 rpl,
             r_es := ldt_selector 8 rpl,
             r_fs := ldt_selector 8 rpl,
             r_ss := ldt_selector 8 rpl,
             r_gs := (ucast SELECTOR_KERNEL_GS AND SA_RPL_MASK) OR rpl,
             r_eip := lnk (init_eip (c_task c)),
             r_esp := top_stack,
             r_eflags := c_eflags c\<rparr>,
           p_ticks := c_priority c,
           p_priority := c_priority c\<rparr>)"

text \<open>The loop from process \<open>i\<close> on, with \<open>left\<close> to go.\<close>

fun init_table ::
  "nat \<Rightarrow> nat \<Rightarrow> u16 \<Rightarrow> addr \<Rightarrow> symbols \<Rightarrow> descriptor list \<Rightarrow> kernel \<Rightarrow> kernel" where
  "init_table 0 i selector_ldt top_stack lnk gdt k = k"
| "init_table (Suc left) i selector_ldt top_stack lnk gdt k =
     init_table left (i + 1) (selector_ldt + push_bit 3 1)
       (top_stack - stack_size (c_task (choose_task i))) lnk gdt
       (upd_proc i (init_process lnk gdt i selector_ldt top_stack) k)"

definition init_process_main :: "symbols \<Rightarrow> descriptor list \<Rightarrow> kernel \<Rightarrow> kernel" where
  "init_process_main lnk gdt k =
     (init_table TOTAL_TASK_CNT 0 SELECTOR_LDT_FIRST (lnk ''task_stack'' + STACK_SIZE) lnk gdt k)
       \<lparr>process_ready := 0, int_reenter := 0, ticks := 0\<rparr>"

text \<open>The table before: \<open>proc_table\<close> lies in the bss, which starts as zeros.\<close>

definition zero_regs :: reg_stack where
  "zero_regs = \<lparr>r_gs = 0, r_fs = 0, r_es = 0, r_ds = 0, r_edi = 0, r_esi = 0, r_ebp = 0,
     r_krnl_esp = 0, r_ebx = 0, r_edx = 0, r_ecx = 0, r_eax = 0, r_ret_addr = 0, r_eip = 0,
     r_cs = 0, r_eflags = 0, r_esp = 0, r_ss = 0\<rparr>"

definition zero_descriptor :: descriptor where
  "zero_descriptor = \<lparr>limit_low = 0, base_low = 0, base_mid = 0, attr1 = 0,
     limit_high_attr2 = 0, base_high = 0\<rparr>"

definition bss_process :: process where
  "bss_process = \<lparr>p_regs = zero_regs, p_ldt_sel = 0, p_ldt = replicate LDT_SIZE zero_descriptor, p_ticks = 0, p_priority = 0,
     p_id = 0, p_name = replicate 16 0, p_console_id = 0, p_flags = 0, p_msg = 0,
     p_recv_from = 0, p_send_to = 0, p_have_int_msg = False, p_current_send = None,
     p_next_send = None\<rparr>"

definition bss_kernel :: "mem \<Rightarrow> (c_int \<Rightarrow> process) \<Rightarrow> kernel" where
  "bss_kernel m out = \<lparr>memory = m, proc_table = replicate TOTAL_TASK_CNT bss_process,
     outside = out, process_ready = 0, int_reenter = 0, ticks = 1\<rparr>"

text \<open>The kernel when \<open>init_process_main\<close> comes to its \<open>init_clock\<close>.\<close>

definition boot_kernel :: "symbols \<Rightarrow> descriptor list \<Rightarrow> mem \<Rightarrow> (c_int \<Rightarrow> process) \<Rightarrow> kernel" where
  "boot_kernel lnk gdt m out = init_process_main lnk gdt (bss_kernel m out)"


section \<open>Reading a process back\<close>

text \<open>
  How the processor reads a selector (table, index, requested privilege), a descriptor's
  privilege, and the I/O privilege in the flags register.
\<close>

definition sel_rpl :: "u32 \<Rightarrow> nat" where "sel_rpl s = unat (s AND 3)"
definition sel_local :: "u32 \<Rightarrow> bool" where "sel_local s \<longleftrightarrow> bit s 2"
definition sel_index :: "u32 \<Rightarrow> nat" where "sel_index s = unat (drop_bit 3 (s AND 0xffff))"
definition desc_dpl :: "descriptor \<Rightarrow> nat" where "desc_dpl d = unat (drop_bit 5 (attr1 d) AND 3)"
definition iopl :: "u32 \<Rightarrow> nat" where "iopl f = unat (drop_bit 12 f AND 3)"

text \<open>The ring a process runs in.\<close>

definition ring :: "nat \<Rightarrow> nat" where
  "ring i = (if i < RING1_TASK_CNT then 1 else 3)"

lemma less_TOTAL: "i < TOTAL_TASK_CNT \<Longrightarrow> i = 0 \<or> i = 1 \<or> i = 2 \<or> i = 3 \<or> i = 4 \<or> i = 5 \<or> i = 6"
  by presburger

lemma stack_size_choose: "i < TOTAL_TASK_CNT \<Longrightarrow> stack_size (c_task (choose_task i)) = 0x8000"
  using less_TOTAL [of i] by (auto simp: choose_task_def r1_task_table_def r3_task_table_def)

text \<open>The loop looks at the table only.\<close>

lemma init_table_same_globals:
  "init_table n i sel tos lnk gdt (k\<lparr>process_ready := a, int_reenter := b, ticks := c\<rparr>) =
     (init_table n i sel tos lnk gdt k)\<lparr>process_ready := a, int_reenter := b, ticks := c\<rparr>"
proof (induction n arbitrary: i sel tos k)
  case (Suc n)
  have "upd_proc i f (k\<lparr>process_ready := a, int_reenter := b, ticks := c\<rparr>) =
      (upd_proc i f k)\<lparr>process_ready := a, int_reenter := b, ticks := c\<rparr>" for f
    by (simp add: upd_proc_def proc_def)
  then show ?case using Suc.IH by simp
qed simp

lemma init_process_main_globals:
  "init_process_main lnk gdt (k\<lparr>process_ready := a, int_reenter := b, ticks := c\<rparr>) = init_process_main lnk gdt k"
  by (simp add: init_process_main_def init_table_same_globals)

lemma length_init_table [simp]:
  "length (proc_table (init_table n i sel tos lnk gdt k)) = length (proc_table k)"
  by (induction n arbitrary: i sel tos k) simp_all

lemma proc_init_table:
  assumes "i + n = TOTAL_TASK_CNT" and "length (proc_table k) = TOTAL_TASK_CNT"
  shows "proc (init_table n i sel tos lnk gdt k) j =
    (if i \<le> j \<and> j < TOTAL_TASK_CNT
     then init_process lnk gdt j (sel + 8 * of_nat (j - i)) (tos - 0x8000 * of_nat (j - i)) (proc k j)
     else proc k j)"
  using assms
proof (induction n arbitrary: i sel tos k)
  case (Suc n)
  let ?k = "upd_proc i (init_process lnk gdt i sel tos) k"
  have i: "i < TOTAL_TASK_CNT" using Suc.prems(1) by simp
  have "proc (init_table (Suc n) i sel tos lnk gdt k) j =
      proc (init_table n (i + 1) (sel + 8) (tos - 0x8000) lnk gdt ?k) j"
    by (simp add: stack_size_choose [OF i] push_bit_eq_mult)
  also have "\<dots> = (if i + 1 \<le> j \<and> j < TOTAL_TASK_CNT
     then init_process lnk gdt j (sel + 8 + 8 * of_nat (j - (i + 1)))
       (tos - 0x8000 - 0x8000 * of_nat (j - (i + 1))) (proc ?k j)
     else proc ?k j)"
    using Suc.prems by (intro Suc.IH) auto
  finally have step: "proc (init_table (Suc n) i sel tos lnk gdt k) j = \<dots>" .
  have at: "proc ?k j = (if j = i then init_process lnk gdt i sel tos (proc k i) else proc k j)"
    using Suc.prems(2) i by (simp add: proc_upd_proc)
  show ?case
  proof (cases "i + 1 \<le> j \<and> j < TOTAL_TASK_CNT")
    case True
    then obtain m where m: "j = i + 1 + m" using le_Suc_ex by blast
    show ?thesis using True unfolding step at by (simp add: m algebra_simps)
  next
    case False
    then show ?thesis using i unfolding step at by auto
  qed
qed auto

lemma proc_bss_kernel:
  "i < TOTAL_TASK_CNT \<Longrightarrow> proc (bss_kernel m out) i = bss_process"
  "length (proc_table (bss_kernel m out)) = TOTAL_TASK_CNT"
  by (simp_all add: proc_def bss_kernel_def)

lemma proc_boot_kernel:
  "i < TOTAL_TASK_CNT \<Longrightarrow> proc (boot_kernel lnk gdt m out) i =
     init_process lnk gdt i (SELECTOR_LDT_FIRST + 8 * of_nat i)
       (lnk ''task_stack'' + STACK_SIZE - 0x8000 * of_nat i) bss_process"
  using proc_init_table [of 0 TOTAL_TASK_CNT "bss_kernel m out"]
  by (simp add: boot_kernel_def init_process_main_def proc_bss_kernel)

lemma init_table_globals [simp]:
  "memory (init_table n i sel tos lnk gdt k) = memory k"
  "outside (init_table n i sel tos lnk gdt k) = outside k"
  by (induction n arbitrary: i sel tos k) simp_all

lemma boot_kernel_globals [simp]:
  "memory (boot_kernel lnk gdt m out) = m" "outside (boot_kernel lnk gdt m out) = out"
  "length (proc_table (boot_kernel lnk gdt m out)) = TOTAL_TASK_CNT"
  "process_ready (boot_kernel lnk gdt m out) = 0"
  "int_reenter (boot_kernel lnk gdt m out) = 0"
  "ticks (boot_kernel lnk gdt m out) = 0"
  by (simp_all add: boot_kernel_def init_process_main_def bss_kernel_def)

lemma boot_process_fields:
  fixes lnk gdt m out
  assumes "i < TOTAL_TASK_CNT"
  defines "p \<equiv> proc (boot_kernel lnk gdt m out) i"
  shows "p_id p = of_nat i" "p_flags p = 0" "p_msg p = 0" "p_have_int_msg p = False"
    "p_current_send p = None" "p_next_send p = None"
    "p_priority p = (if i < RING1_TASK_CNT then 15 else 5)" "p_ticks p = p_priority p"
    "p_console_id p = (if i < RING1_TASK_CNT then 0 else 1)"
  using assms(1) by (simp_all add: p_def proc_boot_kernel init_process_def bss_process_def Let_def
      choose_task_def)

lemma boot_ldt_base:
  "i < TOTAL_TASK_CNT \<Longrightarrow> desc_base (gdt ! 2) = 0 \<Longrightarrow>
     ldt_linear_addr (proc (boot_kernel lnk gdt m out) i) INDEX_LDT_RW = 0"
  by (simp add: ldt_linear_addr_def proc_boot_kernel init_process_def Let_def desc_base_def
      drop_bit_eq_div)


section \<open>What the table says\<close>

lemma boot_segments:
  fixes lnk gdt m out
  assumes "i < TOTAL_TASK_CNT"
  defines "p \<equiv> proc (boot_kernel lnk gdt m out) i"
  shows "sel_local (r_cs (p_regs p))" "sel_index (r_cs (p_regs p)) = 0"
    "sel_rpl (r_cs (p_regs p)) = ring i" "sel_local (r_ss (p_regs p))"
    "sel_index (r_ss (p_regs p)) = 1" "sel_rpl (r_ss (p_regs p)) = ring i"
    "desc_dpl (p_ldt p ! 0) = ring i" "desc_dpl (p_ldt p ! 1) = ring i"
    "r_ds (p_regs p) = r_ss (p_regs p)" "r_es (p_regs p) = r_ss (p_regs p)"
    "r_fs (p_regs p) = r_ss (p_regs p)"
    "desc_base (p_ldt p ! 0) = desc_base (gdt ! 1)" "desc_base (p_ldt p ! 1) = desc_base (gdt ! 2)"
  using assms(1)
  by (simp_all add: p_def proc_boot_kernel init_process_def Let_def choose_task_def ring_def
      ldt_selector_def sel_local_def sel_index_def sel_rpl_def desc_dpl_def desc_base_def bit_simps
      drop_bit_eq_div)

lemma boot_flags:
  fixes lnk gdt m out
  assumes "i < TOTAL_TASK_CNT"
  defines "p \<equiv> proc (boot_kernel lnk gdt m out) i"
  shows "bit (r_eflags (p_regs p)) 9" "ring i \<le> iopl (r_eflags (p_regs p)) \<longleftrightarrow> i < RING1_TASK_CNT"
  using assms(1)
  by (simp_all add: p_def proc_boot_kernel init_process_def Let_def choose_task_def iopl_def
      ring_def drop_bit_eq_div bit_simps)


text \<open>The stack of process \<open>i\<close>: the addresses below its first stack pointer.\<close>

definition stack_of :: "kernel \<Rightarrow> nat \<Rightarrow> addr \<Rightarrow> bool" where
  "stack_of k i a \<longleftrightarrow>
     in_block a (r_esp (p_regs (proc k i)) - stack_size (c_task (choose_task i)))
       (unat (stack_size (c_task (choose_task i))))"

lemma stack_of_boot:
  assumes "i < TOTAL_TASK_CNT"
  shows "stack_of (boot_kernel lnk gdt m out) i a \<longleftrightarrow>
    6 - i = unat (a - lnk ''task_stack'') div 0x8000 \<and> unat (a - lnk ''task_stack'') < 0x38000"
proof -
  let ?x = "a - lnk ''task_stack''"
  have "lnk ''task_stack'' + STACK_SIZE - 0x8000 * of_nat i - 0x8000 =
      lnk ''task_stack'' + of_nat (0x8000 * (6 - i))"
    using less_TOTAL [OF assms] by auto
  moreover have "r_esp (p_regs (proc (boot_kernel lnk gdt m out) i)) =
      lnk ''task_stack'' + STACK_SIZE - 0x8000 * of_nat i"
    using assms by (simp add: proc_boot_kernel init_process_def Let_def)
  ultimately have "r_esp (p_regs (proc (boot_kernel lnk gdt m out) i)) - 0x8000 =
      lnk ''task_stack'' + of_nat (0x8000 * (6 - i))"
    by (simp only:)
  then have "stack_of (boot_kernel lnk gdt m out) i a \<longleftrightarrow>
      unat (?x - of_nat (0x8000 * (6 - i))) < 0x8000"
    by (simp add: stack_of_def in_block_def stack_size_choose [OF assms] diff_diff_eq)
  also have "\<dots> \<longleftrightarrow> 0x8000 * (6 - i) \<le> unat ?x \<and> unat ?x < 0x8000 * (6 - i) + 0x8000"
    by (rule unat_diff_less_iff) simp_all
  also have "\<dots> \<longleftrightarrow> 6 - i = unat ?x div 0x8000 \<and> unat ?x < 0x38000"
    using assms by linarith
  finally show ?thesis .
qed


lemma boot_ipc_wf:
  assumes "desc_base (gdt ! 2) = 0"
  shows "ipc_wf (boot_kernel lnk gdt m out) \<and>
    abs_ipc (boot_kernel lnk gdt m out) =
      \<lparr>a_status = \<lambda>_. Ready, a_queue = \<lambda>_. [], a_pending = \<lambda>_. False\<rparr> \<and>
    runnable (boot_kernel lnk gdt m out) (process_ready (boot_kernel lnk gdt m out))"
proof -
  let ?k = "boot_kernel lnk gdt m out"
  have f: "i < TOTAL_TASK_CNT \<Longrightarrow> proc_wf i (proc ?k i)" for i
    using boot_ldt_base [OF _ assms, of i lnk m out]
    by (simp add: proc_wf_def boot_process_fields word_sless_alt)
  have idle: "\<not> sending ?k i d" if "i < TOTAL_TASK_CNT" for i d
    using boot_process_fields(2) [OF that, of lnk gdt m out] by (simp add: sending_def)
  then have none: "senders ?k d = {}" "waits_for ?k = {}" for d
    by (auto simp: senders_def waits_for_def)
  have q: "ipc_wf ?k \<and> (\<forall>d<TOTAL_TASK_CNT. send_queue ?k d = [])"
    by (rule ipc_wfI) (simp_all add: f none queue_wf_def boot_process_fields acyclic_def)
  moreover have "abs_ipc ?k = \<lparr>a_status = \<lambda>_. Ready, a_queue = \<lambda>_. [], a_pending = \<lambda>_. False\<rparr>"
    using q by (intro abs_ipc_eqI) (simp_all add: abs_status_def boot_process_fields)
  ultimately show ?thesis by (simp add: runnable_def boot_process_fields)
qed

text \<open>The segments of the boot loader are flat.\<close>

lemma loader_gdt_flat: "desc_base (loader_gdt ! 2) = 0"
  by (simp add: loader_gdt_def loader_Descriptor_def desc_base_def Let_def)

text \<open>One such kernel, for the concrete instances.\<close>

definition sample_boot :: kernel where
  "sample_boot = boot_kernel (\<lambda>_. 0x50000) loader_gdt (\<lambda>_. 0) (\<lambda>_. bss_process)"

lemma sample_boot_simps [simp]:
  "ipc_wf sample_boot"
  "abs_ipc sample_boot = \<lparr>a_status = \<lambda>_. Ready, a_queue = \<lambda>_. [], a_pending = \<lambda>_. False\<rparr>"
  "process_ready sample_boot = 0" "outside sample_boot = (\<lambda>_. bss_process)"
  "memory sample_boot = (\<lambda>_. 0)"
  using boot_ipc_wf [OF loader_gdt_flat] by (simp_all add: sample_boot_def)

lemma sample_boot_proc [simp]:
  "i < TOTAL_TASK_CNT \<Longrightarrow> p_flags (proc sample_boot i) = 0"
  by (simp add: sample_boot_def boot_process_fields)

section \<open>Properties\<close>

text \<open>
  Every process starts in its own ring: code and stack selectors name the two
  descriptors of its local table with the ring (1 for the four kernel tasks, 3 for user
  processes) as requested privilege, and these descriptors carry the same privilege and
  the bases of the kernel's segments; interrupts are enabled, and the flags allow port
  I/O to the kernel tasks only.
\<close>

theorem init_process_main_rings:
  assumes "i < TOTAL_TASK_CNT"
  shows "let p = proc (boot_kernel lnk gdt m out) i; r = p_regs p in
    sel_local (r_cs r) \<and> sel_index (r_cs r) = 0 \<and> sel_rpl (r_cs r) = ring i \<and>
    sel_local (r_ss r) \<and> sel_index (r_ss r) = 1 \<and> sel_rpl (r_ss r) = ring i \<and>
    r_ds r = r_ss r \<and> r_es r = r_ss r \<and> r_fs r = r_ss r \<and>
    desc_dpl (p_ldt p ! 0) = ring i \<and> desc_dpl (p_ldt p ! 1) = ring i \<and>
    desc_base (p_ldt p ! 0) = desc_base (gdt ! 1) \<and> desc_base (p_ldt p ! 1) = desc_base (gdt ! 2) \<and>
    bit (r_eflags r) 9 \<and> (ring i \<le> iopl (r_eflags r) \<longleftrightarrow> i < RING1_TASK_CNT)"
  unfolding Let_def by (intro conjI boot_segments [OF assms] boot_flags [OF assms])

theorem init_process_main_rings_witness:
  "sel_rpl (r_cs (p_regs (proc (boot_kernel (\<lambda>_. 0) loader_gdt (\<lambda>_. 0) (\<lambda>_. bss_process)) 5))) = 3"
  using init_process_main_rings [of 5 "\<lambda>_. 0" loader_gdt "\<lambda>_. 0" "\<lambda>_. bss_process"]
  by (simp add: Let_def ring_def)

text \<open>
  The stacks of the seven processes lie inside \<open>task_stack\<close> and do not overlap.
\<close>

theorem init_process_main_stacks_disjoint:
  assumes "i < TOTAL_TASK_CNT" and "j < TOTAL_TASK_CNT" and "i \<noteq> j"
    and "stack_of (boot_kernel lnk gdt m out) i a"
  shows "in_block a (lnk ''task_stack'') (unat STACK_SIZE) \<and>
    \<not> stack_of (boot_kernel lnk gdt m out) j a"
  using assms by (auto simp: stack_of_boot in_block_def)

theorem init_process_main_stacks_disjoint_witness:
  "\<not> stack_of (boot_kernel (\<lambda>_. 0x50000) loader_gdt (\<lambda>_. 0) (\<lambda>_. bss_process)) 5 0x50010"
proof -
  have "stack_of (boot_kernel (\<lambda>_. 0x50000) loader_gdt (\<lambda>_. 0) (\<lambda>_. bss_process)) 6 0x50010"
    by (simp add: stack_of_boot)
  then show ?thesis
    using init_process_main_stacks_disjoint
      [of 6 5 "\<lambda>_. 0x50000" loader_gdt "\<lambda>_. 0" "\<lambda>_. bss_process" "0x50010"] by simp
qed

text \<open>
  The selector a process is given for its local table names, in the descriptor table
  \<open>init_ldt_descs\<close> has filled, a segment of two descriptors that starts at the process'
  own \<open>ldt\<close> field.
\<close>

theorem ldt_selector_names_own_table:
  assumes "length gdt = GDT_SIZE" and "i < TOTAL_TASK_CNT" and "desc_base (gdt ! 2) = 0"
  shows "let d = init_ldt_descs pt gdt ! unat (drop_bit 3 (p_ldt_sel (proc (boot_kernel lnk gdt m out) i)))
    in desc_base d = ldt_addr pt i \<and> desc_limit d = 15"
proof -
  have "unat (drop_bit 3 (p_ldt_sel (proc (boot_kernel lnk gdt m out) i))) = INDEX_LDT_FIRST + i"
    using less_TOTAL [OF assms(2)]
    by (auto simp: proc_boot_kernel init_process_def Let_def)
  then show ?thesis
    using init_ldt_descs_entry [OF assms(1,2), of pt] assms(3)
    by (simp add: seg2phys_def Let_def)
qed

theorem ldt_selector_names_own_table_witness:
  "desc_base (init_ldt_descs 0x40000 (loader_gdt @ replicate 124 zero_descriptor) !
     unat (drop_bit 3 (p_ldt_sel (proc (boot_kernel (\<lambda>_. 0) loader_gdt (\<lambda>_. 0) (\<lambda>_. bss_process)) 3))))
   = ldt_addr 0x40000 3"
proof -
  let ?gdt = "loader_gdt @ replicate 124 zero_descriptor"
  have "length ?gdt = 128" by (simp add: loader_gdt_def)
  moreover have "desc_base (?gdt ! 2) = 0"
    by (simp add: loader_gdt_def loader_Descriptor_def desc_base_def Let_def)
  ultimately show ?thesis
    using ldt_selector_names_own_table [of ?gdt 3 "0x40000" "\<lambda>_. 0" "\<lambda>_. 0" "\<lambda>_. bss_process"]
    by (simp add: Let_def proc_boot_kernel init_process_def)
qed

text \<open>
  The table the kernel starts with is well formed: no process is blocked, no queue has
  a member, no interrupt is pending; process 0 runs.
\<close>

theorem boot_kernel_wf:
  assumes "desc_base (gdt ! 2) = 0"
  shows "ipc_wf (boot_kernel lnk gdt m out) \<and>
    abs_ipc (boot_kernel lnk gdt m out) =
      \<lparr>a_status = \<lambda>_. Ready, a_queue = \<lambda>_. [], a_pending = \<lambda>_. False\<rparr> \<and>
    runnable (boot_kernel lnk gdt m out) (process_ready (boot_kernel lnk gdt m out))"
  using assms by (rule boot_ipc_wf)

theorem boot_kernel_wf_witness:
  "ipc_wf (boot_kernel (\<lambda>_. 0) loader_gdt (\<lambda>_. 0) (\<lambda>_. bss_process))"
  using boot_kernel_wf [of loader_gdt "\<lambda>_. 0" "\<lambda>_. 0" "\<lambda>_. bss_process"]
  by (simp add: loader_gdt_def loader_Descriptor_def desc_base_def Let_def)


text \<open>The scheduler from the kernel's first state: the console task, as first of the four
  tasks of priority 15.\<close>

theorem process_schedule_picks_best_witness:
  "\<exists>k'. process_schedule sample_boot = Some k' \<and> best k' (process_ready k')"
proof -
  have "runnable sample_boot 0"
    using ipc_wf_length [OF sample_boot_simps(1)] by (simp add: runnable_def)
  moreover have "0 <s p_priority (proc sample_boot 0)"
    by (simp add: sample_boot_def boot_process_fields word_sless_alt)
  ultimately obtain k' where "process_schedule sample_boot = Some k'"
    using schedule_returns [of sample_boot 0] by blast
  then show ?thesis using process_schedule_picks_best [of sample_boot k'] by auto
qed

end
