(* ===== verification/Rendezvous.thy ===== *)
theory Rendezvous
  imports Init
begin

text \<open>
  The properties of the message component: the calls of \<open>kernel/message.c\<close> and the
  interrupt delivery of \<open>kernel/process.c\<close> refine the abstract rendezvous machine, return
  when they should, refuse a cycle of senders, and copy the message.
\<close>

section \<open>Interrupts as messages\<close>

lemma deliver_int_result:
  assumes wf: "ipc_wf k" and n: "n < TOTAL_TASK_CNT"
  shows "\<exists>k'. deliver_int_to_proc n k = Inr k' \<and> ipc_wf k' \<and> abs_ipc k' = a_interrupt n (abs_ipc k) \<and>
    process_ready k' = process_ready k \<and>
    (\<forall>i<TOTAL_TASK_CNT. p_flags (proc k i) = 0 \<longrightarrow> p_flags (proc k' i) = 0)"
proof -
  have len: "length (proc_table k) = TOTAL_TASK_CNT" using wf by (rule ipc_wf_length)
  define P where "P \<longleftrightarrow> p_flags (proc k n) = MSG_RECVING \<and>
    (p_recv_from (proc k n) = MSG_SOURCE_INTERRUPT \<or> p_recv_from (proc k n) = P_ANY)"
  define f :: "process \<Rightarrow> process" where "f = (\<lambda>p. if P then p\<lparr>p_msg := 0, p_have_int_msg := False, p_flags := 0,
    p_recv_from := P_NO_TASK\<rparr> else p\<lparr>p_have_int_msg := True\<rparr>)"
  have test: "(p_flags (proc k n) AND MSG_RECVING \<noteq> 0 \<and>
      (p_recv_from (proc k n) = MSG_SOURCE_INTERRUPT \<or> p_recv_from (proc k n) = P_ANY)) \<longleftrightarrow> P"
    using flag_tests(2) [OF wf n] by (simp add: P_def)
  obtain m where r: "deliver_int_to_proc n k = Inr (upd_proc n f (k\<lparr>memory := m\<rparr>))"
  proof (cases P)
    case True
    then have "p_flags (proc k n) = MSG_RECVING" by (simp add: P_def)
    then show thesis
      using True test n len
      by (intro that [of "store32 (p_msg (proc k n) + 4) MSG_HW_INTERRUPT
            (store32 (p_msg (proc k n)) MSG_SOURCE_INTERRUPT (memory k))"])
         (simp add: deliver_int_to_proc_def unblock_def Let_def proc_upd_proc f_def upd_proc_def,
          simp add: proc_def)
  next
    case False
    then show thesis using test
      by (intro that [of "memory k"]) (simp add: deliver_int_to_proc_def f_def if_not_P)
  qed
  define k' where "k' = upd_proc n f (k\<lparr>memory := m\<rparr>)"
  have pr: "proc k' i = (if i = n then f (proc k n) else proc k i)" for i
    using n len by (simp add: k'_def proc_upd_proc)
  have q: "ipc_wf k' \<and> (\<forall>d<TOTAL_TASK_CNT. send_queue k' d = send_queue k d)"
  proof (rule wf_same_links [OF wf])
    show "length (proc_table k') = length (proc_table k)" by (simp add: k'_def)
    show "proc_wf i (proc k' i)" if "i < TOTAL_TASK_CNT" for i
      using ipc_wf_proc [OF wf that] by (auto simp: pr f_def proc_wf_def ldt_linear_addr_def)
    show "\<not> accepts k' e t" if "e < TOTAL_TASK_CNT" "t \<in> senders k e" for e t
      using ipc_wf_accepts [OF wf that] by (auto simp: accepts_def pr f_def)
    show "sending k' i d = sending k i d" for i d
      by (auto simp: sending_def pr f_def P_def)
  qed (auto simp: pr f_def)
  moreover have "abs_ipc k' = a_interrupt n (abs_ipc k)"
  proof -
    have st: "abs_status (proc k n) = Receiving MSG_SOURCE_INTERRUPT \<or>
        abs_status (proc k n) = Receiving P_ANY \<longleftrightarrow> P"
      using ipc_wf_flags [OF wf n] by (auto simp: abs_status_def P_def)
    show ?thesis
      using q n st
      by (intro abs_ipc_eqI) (auto simp: abs_ipc_def a_interrupt_def pr f_def abs_status_def)
  qed
  moreover have "process_ready k' = process_ready k" by (simp add: k'_def)
  moreover have "\<forall>i<TOTAL_TASK_CNT. p_flags (proc k i) = 0 \<longrightarrow> p_flags (proc k' i) = 0"
    by (auto simp: pr f_def)
  ultimately show ?thesis using r by (auto simp: k'_def)
qed


section \<open>When the calls return\<close>

lemma msg_send_result:
  assumes wf: "ipc_wf k" and s: "s < TOTAL_TASK_CNT" and d: "d < TOTAL_TASK_CNT" and sd: "s \<noteq> d"
    and idle: "p_flags (proc k s) = 0" and free: "(d, s) \<notin> (waits_for k)\<^sup>+"
    and ptr: "accepts k d s \<Longrightarrow> p_msg (proc k d) \<noteq> 0 \<and> msg \<noteq> 0"
    and other: "\<not> accepts k d s \<Longrightarrow> j < TOTAL_TASK_CNT \<and> j \<noteq> s \<and> p_flags (proc k j) = 0"
  shows "\<exists>k'. msg_send s (of_nat d) msg k = Inr (k', 0)"
proof (cases "accepts k d s")
  case True
  then obtain k' where "msg_send_direct s d msg k = Inr k'"
    using msg_send_direct_refines [OF wf s d True, of msg] ptr by blast
  then show ?thesis using True msg_send_branch [OF wf s d sd idle free, of msg] by simp
next
  case False
  have wf': "ipc_wf (enqueued s d msg k)"
    using enqueued_refines [OF wf s d idle sd False free] by simp
  have "p_flags (proc (enqueued s d msg k) s) \<noteq> 0" "p_flags (proc (enqueued s d msg k) j) = 0"
    using proc_enqueued [OF wf s d idle sd, of msg] other [OF False] by auto
  then obtain k' where "block s (enqueued s d msg k) = Inr k'"
    using block_returns [OF wf'] other [OF False] by blast
  then show ?thesis using False msg_send_branch [OF wf s d sd idle free, of msg] by simp
qed

lemma msg_recv_result:
  assumes wf: "ipc_wf k" and r: "r < TOTAL_TASK_CNT" and idle: "p_flags (proc k r) = 0"
    and src: "src \<noteq> of_nat r" "\<not> stray_sender k src r"
    and other: "j < TOTAL_TASK_CNT" "j \<noteq> r" "p_flags (proc k j) = 0"
  shows "\<exists>k'. msg_recv r src msg k = Inr (k', 0)"
proof (cases "p_have_int_msg (proc k r) \<and> (src = P_ANY \<or> src = MSG_SOURCE_INTERRUPT)")
  case True
  then show ?thesis
    using wf r src by (auto simp: msg_recv_def msg_recv_int_def ipc_wf_id vir_to_linear_flat)
next
  case False
  then have q: "msg_recv r src msg k =
      andThen (msg_recv_queue r src msg k) (\<lambda>k'. Inr (k', 0))"
    using src(1) by (auto simp: msg_recv_def ipc_wf_id [OF wf r])
  note c = msg_recv_queue_cases [OF wf r idle, of src msg]
  show ?thesis
  proof (cases "a_select src (send_queue k r)")
    case None
    have wf': "ipc_wf (waiting r src msg k)" using waiting_refines [OF wf r idle None, of msg] by simp
    have pr: "proc (waiting r src msg k) i = (if i = r then (proc k r)\<lparr>p_flags := MSG_RECVING,
        p_msg := msg, p_recv_from := src\<rparr> else proc k i)" for i
      using r idle ipc_wf_length [OF wf] by (simp add: waiting_def proc_upd_proc)
    then obtain k' where "block r (waiting r src msg k) = Inr k'"
      using block_returns [OF wf' _ other(1)] other by fastforce
    then show ?thesis using q c src(2) None by simp
  qed (use q c src(2) in auto)
qed

section \<open>Not every process waits to send\<close>

lemma some_process_not_sending:
  assumes wf: "ipc_wf k"
  shows "\<exists>i<TOTAL_TASK_CNT. p_flags (proc k i) \<noteq> MSG_SENDING"
proof (rule ccontr)
  assume "\<not> ?thesis"
  then have all: "\<And>i. i < TOTAL_TASK_CNT \<Longrightarrow> \<exists>d. (i, d) \<in> waits_for k"
    using ipc_wf_proc [OF wf] by (fastforce simp: proc_wf_def waits_for_def sending_def)
  have "\<forall>z\<in>{..<TOTAL_TASK_CNT}. \<exists>y\<in>{..<TOTAL_TASK_CNT}. (y, z) \<in> (waits_for k)\<inverse>"
    using all by (fastforce simp: waits_for_def)
  moreover have "\<exists>z\<in>{..<TOTAL_TASK_CNT}. \<forall>y. (y, z) \<in> (waits_for k)\<inverse> \<longrightarrow> y \<notin> {..<TOTAL_TASK_CNT}"
    using wfE_min [OF wf_waits_for [OF wf], of 0 "{..<TOTAL_TASK_CNT}"]
    by (metis lessThan_iff zero_less_numeral)
  ultimately show False by blast
qed


lemma senders_of_idle:
  assumes "\<And>i. i < TOTAL_TASK_CNT \<Longrightarrow> p_flags (proc k i) \<noteq> MSG_SENDING"
  shows "waits_for k = {}" "senders k d = {}"
  using assms by (auto simp: waits_for_def senders_def sending_def)

lemma sample_boot_links [simp]:
  "waits_for sample_boot = {}" "senders sample_boot d = {}"
  "d < TOTAL_TASK_CNT \<Longrightarrow> \<not> accepts sample_boot d s"
  by (simp_all add: senders_of_idle accepts_def)

section \<open>What a call leaves in memory\<close>

lemma block_same_ipc: "block p k = Inr k' \<Longrightarrow> same_ipc k k'"
  by (auto simp: block_def ASSERT_Inr_iff intro: sched.schedule_frame)

lemma msg_send_blocked:
  assumes wf: "ipc_wf k" and s: "s < TOTAL_TASK_CNT" and d: "d < TOTAL_TASK_CNT"
    and idle: "p_flags (proc k s) = 0" and na: "\<not> accepts k d s"
    and r: "msg_send s (of_nat d) msg k = Inr (k', ret)"
  shows "memory k' = memory k" "p_msg (proc k' s) = msg" "sending k' s d"
    "\<And>i. i < TOTAL_TASK_CNT \<Longrightarrow> i \<noteq> s \<Longrightarrow> p_msg (proc k' i) = p_msg (proc k i) \<and>
       p_flags (proc k' i) = p_flags (proc k i)"
    "ipc_wf k'" "abs_ipc k' = a_send s d (abs_ipc k)" "outside k' = outside k"
proof -
  obtain sd: "s \<noteq> d" and free: "(d, s) \<notin> (waits_for k)\<^sup>+"
    using msg_send_Inr_dest [OF wf s r] d by (auto simp: of_nat_u32_eq_iff)
  have b: "block s (enqueued s d msg k) = Inr k'"
    using r msg_send_branch [OF wf s d sd idle free, of msg] na by (auto simp: andThen_Inr_iff)
  note same = block_same_ipc [OF b]
  have len: "length (proc_table (enqueued s d msg k)) = TOTAL_TASK_CNT"
    using enqueued_refines [OF wf s d idle sd na free, of msg] by (simp add: ipc_wf_length)
  note f = same_ipc_fields [OF same, unfolded len]
  note pr = proc_enqueued [OF wf s d idle sd, of msg]
  show "memory k' = memory k" "outside k' = outside k"
    using same_ipc_globals [OF same] by (simp_all add: enqueued_def Let_def)
  show "p_msg (proc k' s) = msg" "sending k' s d"
    using f [OF s] pr by (simp_all add: sending_def)
  show "p_msg (proc k' i) = p_msg (proc k i) \<and> p_flags (proc k' i) = p_flags (proc k i)"
    if "i < TOTAL_TASK_CNT" "i \<noteq> s" for i
    using f [OF that(1)] pr that by auto
  show "ipc_wf k'" "abs_ipc k' = a_send s d (abs_ipc k)"
    using msg_send_correct [OF wf s idle r] d by simp_all
qed

lemma msg_send_received:
  assumes wf: "ipc_wf k" and s: "s < TOTAL_TASK_CNT" and d: "d < TOTAL_TASK_CNT"
    and idle: "p_flags (proc k s) = 0" and acc: "accepts k d s"
    and r: "msg_send s (of_nat d) msg k = Inr (k', ret)"
  shows "memory k' = memcpy (p_msg (proc k d)) msg SIZEOF_MESSAGE (memory k)"
    "process_ready k' = process_ready k" "p_flags (proc k' d) = 0" "ipc_wf k'"
    "abs_ipc k' = a_send s d (abs_ipc k)" "\<And>i. i \<noteq> d \<Longrightarrow> proc k' i = proc k i"
proof -
  obtain sd: "s \<noteq> d" and free: "(d, s) \<notin> (waits_for k)\<^sup>+"
    using msg_send_Inr_dest [OF wf s r] d by (auto simp: of_nat_u32_eq_iff)
  have dir: "msg_send_direct s d msg k = Inr k'"
    using acc r msg_send_branch [OF wf s d sd idle free, of msg] by (auto simp: andThen_Inr_iff)
  then have "p_msg (proc k d) \<noteq> 0" "msg \<noteq> 0" by (simp_all add: msg_send_direct_def ASSERT_Inr_iff)
  from msg_send_direct_refines [OF wf s d acc this] dir
  show "memory k' = memcpy (p_msg (proc k d)) msg SIZEOF_MESSAGE (memory k)"
    "process_ready k' = process_ready k" "p_flags (proc k' d) = 0" "ipc_wf k'"
    "abs_ipc k' = a_send s d (abs_ipc k)" "\<And>i. i \<noteq> d \<Longrightarrow> proc k' i = proc k i"
    by auto
qed

lemma msg_recv_takes:
  assumes wf: "ipc_wf k" and r: "r < TOTAL_TASK_CNT" and idle: "p_flags (proc k r) = 0"
    and quiet: "\<not> (p_have_int_msg (proc k r) \<and> (src = P_ANY \<or> src = MSG_SOURCE_INTERRUPT))"
    and sel: "a_select src (send_queue k r) = Some s"
    and ok: "msg_recv r src msg k = Inr (k', ret)"
  shows "memory k' = memcpy msg (p_msg (proc k s)) SIZEOF_MESSAGE (memory k)"
    "p_flags (proc k' s) = 0"
proof -
  have q: "msg_recv_queue r src msg k = Inr k'"
    using ok quiet by (auto simp: msg_recv_def ASSERT_Inr_iff andThen_Inr_iff)
  then have "\<not> stray_sender k src r" using msg_recv_queue_cases [OF wf r idle, of src msg] by auto
  then obtain ys zs where sq: "send_queue k r = ys @ s # zs" and k': "k' = received r s ys msg k"
    using msg_recv_queue_cases [OF wf r idle, of src msg] q sel by auto
  show "memory k' = memcpy msg (p_msg (proc k s)) SIZEOF_MESSAGE (memory k)"
    by (simp add: k' received_def Let_def)
  show "p_flags (proc k' s) = 0" using proc_received [OF wf r sq idle, of msg] by (simp add: k')
qed

text \<open>Two processes of the sample kernel: 0 has sent to 1 and waits.\<close>

lemma sample_waiting:
  obtains k' where "msg_send 0 1 0x1000 sample_boot = Inr (k', 0)" "ipc_wf k'" "sending k' 0 1"
    "abs_ipc k' = \<lparr>a_status = (\<lambda>_. Ready)(0 := Sending 1), a_queue = (\<lambda>_. [])(1 := [0]),
      a_pending = \<lambda>_. False\<rparr>"
    "p_msg (proc k' 0) = 0x1000" "\<And>i. i < TOTAL_TASK_CNT \<Longrightarrow> i \<noteq> 0 \<Longrightarrow> p_flags (proc k' i) = 0"
    "memory k' = (\<lambda>_. 0)" "outside k' = (\<lambda>_. bss_process)"
proof -
  obtain k' where r: "msg_send 0 1 0x1000 sample_boot = Inr (k', 0)"
    using msg_send_result [of sample_boot 0 1 "0x1000" 5] by auto
  then have r': "msg_send 0 (of_nat 1) 0x1000 sample_boot = Inr (k', 0)" by simp
  note b = msg_send_blocked [OF _ _ _ _ _ r', simplified]
  show thesis
    by (rule that [of k']) (use r b in \<open>simp_all add: a_send_def wants_def\<close>)
qed

lemma abs_queue: "d < TOTAL_TASK_CNT \<Longrightarrow> a_queue (abs_ipc k) d = send_queue k d"
  by (simp add: abs_ipc_def)

lemma abs_pending: "d < TOTAL_TASK_CNT \<Longrightarrow> a_pending (abs_ipc k) d = p_have_int_msg (proc k d)"
  by (simp add: abs_ipc_def)

lemma msg_recv_blocked:
  assumes wf: "ipc_wf k" and r: "r < TOTAL_TASK_CNT" and idle: "p_flags (proc k r) = 0"
    and none: "a_select src (send_queue k r) = None" and q: "msg_recv_queue r src msg k = Inr k'"
  shows "ipc_wf k'" "memory k' = memory k" "outside k' = outside k"
    "p_flags (proc k' r) = MSG_RECVING" "p_recv_from (proc k' r) = src" "p_msg (proc k' r) = msg"
    "p_have_int_msg (proc k' r) = p_have_int_msg (proc k r)"
    "\<And>i. i < TOTAL_TASK_CNT \<Longrightarrow> i \<noteq> r \<Longrightarrow> p_flags (proc k' i) = p_flags (proc k i)"
    "abs_ipc k' = (abs_ipc k)\<lparr>a_status := (a_status (abs_ipc k))(r := Receiving src)\<rparr>"
proof -
  have b: "block r (waiting r src msg k) = Inr k'"
    using msg_recv_queue_cases [OF wf r idle, of src msg] none q by (auto split: if_splits)
  note same = block_same_ipc [OF b]
  have w: "ipc_wf (waiting r src msg k)"
    "abs_ipc (waiting r src msg k) =
      (abs_ipc k)\<lparr>a_status := (a_status (abs_ipc k))(r := Receiving src)\<rparr>"
    using waiting_refines [OF wf r idle none, of msg] by simp_all
  note f = same_ipc_fields [OF same, unfolded ipc_wf_length [OF w(1)]]
  have pr: "proc (waiting r src msg k) i = (if i = r then (proc k r)\<lparr>p_flags := MSG_RECVING,
      p_msg := msg, p_recv_from := src\<rparr> else proc k i)" for i
    using r idle ipc_wf_length [OF wf] by (simp add: waiting_def proc_upd_proc)
  show "ipc_wf k'" "abs_ipc k' = (abs_ipc k)\<lparr>a_status := (a_status (abs_ipc k))(r := Receiving src)\<rparr>"
    using block_ipc [OF b w(1)] w(2) by simp_all
  show "memory k' = memory k" "outside k' = outside k"
    using same_ipc_globals [OF same] by (simp_all add: waiting_def)
  show "p_flags (proc k' r) = MSG_RECVING" "p_recv_from (proc k' r) = src" "p_msg (proc k' r) = msg"
    "p_have_int_msg (proc k' r) = p_have_int_msg (proc k r)"
    using f [OF r] by (simp_all add: pr)
  show "p_flags (proc k' i) = p_flags (proc k i)" if "i < TOTAL_TASK_CNT" "i \<noteq> r" for i
    using f [OF that(1)] that by (simp add: pr)
qed

text \<open>In the sample kernel, 2 waits for anybody.\<close>

lemma sample_receiving:
  obtains k' where "msg_recv 2 P_ANY 0x2000 sample_boot = Inr (k', 0)" "ipc_wf k'"
    "accepts k' 2 0" "p_msg (proc k' 2) = 0x2000" "memory k' = (\<lambda>_. 0)"
    "\<And>i. i < TOTAL_TASK_CNT \<Longrightarrow> i \<noteq> 2 \<Longrightarrow> p_flags (proc k' i) = 0"
    "abs_ipc k' = \<lparr>a_status = (\<lambda>_. Ready)(2 := Receiving P_ANY), a_queue = \<lambda>_. [],
      a_pending = \<lambda>_. False\<rparr>"
proof -
  obtain k' where r: "msg_recv 2 P_ANY 0x2000 sample_boot = Inr (k', 0)"
    using msg_recv_result [of sample_boot 2 P_ANY 0 "0x2000"] by (auto simp: stray_sender_def)
  have quiet: "\<not> p_have_int_msg (proc sample_boot 2)"
    using arg_cong [OF sample_boot_simps(2), of "\<lambda>a. a_pending a 2"] by (simp add: abs_ipc_def)
  have e: "send_queue sample_boot 2 = []"
    using arg_cong [OF sample_boot_simps(2), of "\<lambda>a. a_queue a 2"] by (simp add: abs_ipc_def)
  have q: "msg_recv_queue 2 P_ANY 0x2000 sample_boot = Inr k'"
    using r quiet by (auto simp: msg_recv_def ASSERT_Inr_iff andThen_Inr_iff)
  have "a_select P_ANY (send_queue sample_boot 2) = None" by (simp add: e a_select_def)
  note b = msg_recv_blocked [OF sample_boot_simps(1) _ _ this q, simplified]
  show thesis
    by (rule that [of k']) (use r b in \<open>simp_all add: accepts_def\<close>)
qed

lemma a_recv_a_send:
  assumes "\<not> wants (a_status a d) s" and "a_status a s = Ready" and "s \<notin> set (a_queue a d)"
    and "s < TOTAL_TASK_CNT"
  shows "a_recv d (of_nat s) (a_send s d a) = a"
proof -
  have name: "of_nat s \<noteq> P_ANY" "of_nat s \<noteq> MSG_SOURCE_INTERRUPT"
    using less_TOTAL [OF assms(4)] by auto
  show ?thesis
  proof (rule ipc.equality)
    show "a_status (a_recv d (of_nat s) (a_send s d a)) = a_status a"
      using assms name by (simp add: a_recv_def a_send_def a_select_def fun_eq_iff)
    show "a_queue (a_recv d (of_nat s) (a_send s d a)) = a_queue a"
      using assms name by (simp add: a_recv_def a_send_def a_select_def remove1_append fun_eq_iff)
    show "a_pending (a_recv d (of_nat s) (a_send s d a)) = a_pending a"
      using assms name by (simp add: a_recv_def a_send_def a_select_def)
  qed simp
qed

lemma memcpy_message:
  assumes "dst = src \<or> SIZEOF_MESSAGE \<le> dst - src"
  shows "\<forall>i<48. memcpy dst src SIZEOF_MESSAGE m (dst + of_nat i) = m (src + of_nat i)"
    "\<forall>a. \<not> in_block a dst 48 \<longrightarrow> memcpy dst src SIZEOF_MESSAGE m a = m a"
proof -
  have "i < 48 \<Longrightarrow> unat (of_nat i :: u32) = i" for i by (rule unat_of_nat_u32) simp
  then show "\<forall>i<48. memcpy dst src SIZEOF_MESSAGE m (dst + of_nat i) = m (src + of_nat i)"
    by (simp add: memcpy_eq [OF assms] in_block_def)
qed (simp add: memcpy_frame)

text \<open>With every waiting sender's message in place, a cycle is reported as such.\<close>

lemma print_cycle_done:
  assumes wf: "ipc_wf k" and "s < TOTAL_TASK_CNT" and "p < TOTAL_TASK_CNT"
    and "(p, s) \<in> (waits_for k)\<^sup>*"
    and msgs: "\<And>i d. (i, d) \<in> waits_for k \<Longrightarrow> p_msg (proc k i) \<noteq> 0"
  shows "print_cycle k s p = Some (Inr ())"
  using wf_waits_for [OF wf] assms(3,4)
proof (induction p rule: wf_induct_rule)
  case (less p)
  show ?case
  proof (cases "p = s")
    case False
    then obtain d where d: "(p, d) \<in> waits_for k" "(d, s) \<in> (waits_for k)\<^sup>*"
      using less.prems(2) by (meson converse_rtranclE)
    then have "proc_index (p_send_to (proc k p)) = Some d" "d < TOTAL_TASK_CNT"
      by (auto simp: waits_for_def sending_def proc_index_Some)
    then show ?thesis
      using False less.IH [of d] d msgs [OF d(1)] by (simp add: print_cycle.simps [of k s p])
  qed (simp add: print_cycle.simps [of k s s])
qed

lemma msg_send_cycle:
  assumes wf: "ipc_wf k" and s: "s < TOTAL_TASK_CNT" and d: "d < TOTAL_TASK_CNT"
    and cycle: "(d, s) \<in> (waits_for k)\<^sup>+"
    and msgs: "\<And>i d. (i, d) \<in> waits_for k \<Longrightarrow> p_msg (proc k i) \<noteq> 0"
  shows "msg_send s (of_nat d) msg k = Inl (Critical ''DEAD LOCK'')"
proof -
  have ne: "s \<noteq> d" using cycle ipc_wf_acyclic [OF wf] by (auto simp: acyclic_def)
  moreover have "print_cycle k s d = Some (Inr ())"
    using assms by (intro print_cycle_done trancl_into_rtrancl)
  ultimately have "dead_lock (of_nat s) (of_nat d) k = Inr True"
    using assms by (simp add: dead_lock_def of_nat_u32_eq_iff dead_lock_loop_reaches proc_index_def)
  then show ?thesis using ne s d wf by (simp add: msg_send_def ipc_wf_id of_nat_u32_eq_iff)
qed

section \<open>Properties\<close>

text \<open>
  C2. A send by a process that is not blocked keeps the table well formed, changes the
  abstract state exactly as the rendezvous machine's send does (the destination wakes up if
  it waits for this message, otherwise the sender blocks at the end of its queue), returns
  0, and leaves a process that can run as the current one.
\<close>

theorem msg_send_refines:
  assumes "ipc_wf k" and "s < TOTAL_TASK_CNT" and "p_flags (proc k s) = 0" and "process_ready k = s"
    and "msg_send s dest msg k = Inr (k', ret)"
  shows "ipc_wf k' \<and> abs_ipc k' = a_send s (unat dest) (abs_ipc k) \<and> ret = 0 \<and>
    runnable k' (process_ready k')"
  using msg_send_correct [OF assms(1,2,3,5)] assms(4) by simp

theorem msg_send_refines_witness:
  "\<exists>k'. msg_send 0 1 0x1000 sample_boot = Inr (k', 0) \<and> ipc_wf k' \<and>
    a_status (abs_ipc k') 0 = Sending 1 \<and> a_queue (abs_ipc k') 1 = [0]"
proof -
  obtain k' where r: "msg_send 0 1 0x1000 sample_boot = Inr (k', 0)"
    using msg_send_result [of sample_boot 0 1 "0x1000" 5] by auto
  then show ?thesis
    using msg_send_refines [OF sample_boot_simps(1) _ _ _ r]
    by (auto simp: a_send_def wants_def)
qed

text \<open>
  C3. A receive by a process that is not blocked keeps the table well formed and changes
  the abstract state exactly as the rendezvous machine's receive does: a pending interrupt
  first, else the oldest sender of the queue (or the one it names) is taken out and made
  ready, else the receiver blocks. It returns 0, and the current process can run.
\<close>

theorem msg_recv_refines:
  assumes "ipc_wf k" and "r < TOTAL_TASK_CNT" and "p_flags (proc k r) = 0" and "process_ready k = r"
    and "msg_recv r src msg k = Inr (k', ret)"
  shows "ipc_wf k' \<and> abs_ipc k' = a_recv r src (abs_ipc k) \<and> ret = 0 \<and>
    runnable k' (process_ready k')"
  using msg_recv_correct [OF assms(1,2,3,5)] assms(4) by simp

theorem msg_recv_refines_witness:
  "\<exists>k'. msg_recv 0 P_ANY 0x2000 sample_boot = Inr (k', 0) \<and> ipc_wf k' \<and>
    a_status (abs_ipc k') 0 = Receiving P_ANY"
proof -
  obtain k' where r: "msg_recv 0 P_ANY 0x2000 sample_boot = Inr (k', 0)"
    using msg_recv_result [of sample_boot 0 P_ANY 5 "0x2000"] by (auto simp: stray_sender_def)
  then show ?thesis
    using msg_recv_refines [OF sample_boot_simps(1) _ _ _ r]
    by (auto simp: a_recv_def a_select_def)
qed

text \<open>
  C10. A send returns whenever it closes no cycle of senders, and either the destination
  waits for it and no buffer is null, or some other process can run meanwhile.
\<close>

theorem msg_send_returns:
  assumes "ipc_wf k" and "s < TOTAL_TASK_CNT" and "d < TOTAL_TASK_CNT" and "s \<noteq> d"
    and "p_flags (proc k s) = 0" and "(d, s) \<notin> (waits_for k)\<^sup>+"
    and "accepts k d s \<Longrightarrow> p_msg (proc k d) \<noteq> 0 \<and> msg \<noteq> 0"
    and "\<not> accepts k d s \<Longrightarrow> j < TOTAL_TASK_CNT \<and> j \<noteq> s \<and> p_flags (proc k j) = 0"
  shows "\<exists>k'. msg_send s (of_nat d) msg k = Inr (k', 0)"
  using assms by (rule msg_send_result)

theorem msg_send_returns_witness:
  "\<exists>k'. msg_send 6 3 0x1234 sample_boot = Inr (k', 0)"
  using msg_send_returns [of sample_boot 6 3 "0x1234" 0] by simp

text \<open>
  C38. A receive returns whenever the process names neither itself nor an index outside
  the table whose memory looks like a process sending to it, and some other process can
  run meanwhile.
\<close>

theorem msg_recv_returns:
  assumes "ipc_wf k" and "r < TOTAL_TASK_CNT" and "p_flags (proc k r) = 0"
    and "src \<noteq> of_nat r" and "\<not> stray_sender k src r"
    and "j < TOTAL_TASK_CNT" and "j \<noteq> r" and "p_flags (proc k j) = 0"
  shows "\<exists>k'. msg_recv r src msg k = Inr (k', 0)"
  using assms by (rule msg_recv_result)

theorem msg_recv_returns_witness:
  "\<exists>k'. msg_recv 2 MSG_SOURCE_INTERRUPT 0x1234 sample_boot = Inr (k', 0)"
  using msg_recv_returns [of sample_boot 2 MSG_SOURCE_INTERRUPT 0 "0x1234"]
  by (simp add: stray_sender_def bss_process_def)


text \<open>
  C8. A send that would close a cycle of waiting senders is refused: when the messages of
  the waiting processes are in place, the system stops with the deadlock report.
\<close>

theorem msg_send_detects_deadlock:
  assumes "ipc_wf k" and "s < TOTAL_TASK_CNT" and "d < TOTAL_TASK_CNT"
    and "(d, s) \<in> (waits_for k)\<^sup>+"
    and "\<And>i d. (i, d) \<in> waits_for k \<Longrightarrow> p_msg (proc k i) \<noteq> 0"
  shows "msg_send s (of_nat d) msg k = Inl (Critical ''DEAD LOCK'')"
  using assms by (rule msg_send_cycle)

theorem msg_send_detects_deadlock_witness:
  "\<exists>k. msg_send 0 1 0x1000 sample_boot = Inr (k, 0) \<and>
     msg_send 1 0 0x2000 k = Inl (Critical ''DEAD LOCK'')"
proof -
  obtain k' where k': "msg_send 0 1 0x1000 sample_boot = Inr (k', 0)" "ipc_wf k'" "sending k' 0 1"
      "p_msg (proc k' 0) = 0x1000" "\<And>i. i < TOTAL_TASK_CNT \<Longrightarrow> i \<noteq> 0 \<Longrightarrow> p_flags (proc k' i) = 0"
    using sample_waiting by metis
  have only: "(i, d) \<in> waits_for k' \<Longrightarrow> i = 0" for i d
    using k'(5) [of i] by (auto simp: waits_for_def sending_def)
  have "(0, 1) \<in> (waits_for k')\<^sup>+" using k'(3) by (auto simp: waits_for_def)
  then have "msg_send 1 (of_nat 0) 0x2000 k' = Inl (Critical ''DEAD LOCK'')"
    using msg_send_detects_deadlock [OF k'(2), of 1 0 "0x2000"] only k'(4) by fastforce
  then show ?thesis using k'(1) by auto
qed

text \<open>
  At every moment some process is not waiting for a receiver: the cycle check keeps the
  whole system from blocking in sends.
\<close>

theorem not_all_processes_send:
  assumes "ipc_wf k"
  shows "\<exists>i<TOTAL_TASK_CNT. \<forall>d. a_status (abs_ipc k) i \<noteq> Sending d"
  using some_process_not_sending [OF assms] by (auto simp: abs_ipc_def abs_status_def)

theorem not_all_processes_send_witness:
  "\<exists>i<TOTAL_TASK_CNT. \<forall>d. a_status (abs_ipc sample_boot) i \<noteq> Sending d"
  by (rule not_all_processes_send [OF sample_boot_simps(1)])

text \<open>
  A send to a process that waits for it delivers the 48 bytes of the message to the
  receiver's buffer and changes no other byte, unless the buffers overlap the wrong way.
\<close>

theorem msg_send_delivers:
  assumes "ipc_wf k" and "s < TOTAL_TASK_CNT" and "d < TOTAL_TASK_CNT" and "p_flags (proc k s) = 0"
    and "accepts k d s" and "msg_send s (of_nat d) msg k = Inr (k', ret)"
    and "p_msg (proc k d) = msg \<or> SIZEOF_MESSAGE \<le> p_msg (proc k d) - msg"
  shows "(\<forall>i<48. memory k' (p_msg (proc k d) + of_nat i) = memory k (msg + of_nat i)) \<and>
    (\<forall>a. \<not> in_block a (p_msg (proc k d)) 48 \<longrightarrow> memory k' a = memory k a)"
  using msg_send_received(1) [OF assms(1-6)] memcpy_message [OF assms(7)] by simp

theorem msg_send_delivers_witness:
  "\<exists>k k'. msg_recv 2 P_ANY 0x2000 sample_boot = Inr (k, 0) \<and>
     msg_send 0 2 0x3000 (k\<lparr>memory := \<lambda>a. ucast a\<rparr>) = Inr (k', 0) \<and>
     memory k' 0x2007 = 7 \<and> memory k' 0x2050 = 0x50"
proof -
  obtain k where k: "msg_recv 2 P_ANY 0x2000 sample_boot = Inr (k, 0)" "ipc_wf k" "accepts k 2 0"
      "p_msg (proc k 2) = 0x2000" "\<And>i. i < TOTAL_TASK_CNT \<Longrightarrow> i \<noteq> 2 \<Longrightarrow> p_flags (proc k i) = 0"
    using sample_receiving by metis
  let ?k = "k\<lparr>memory := \<lambda>a. ucast a\<rparr>"
  have wf: "ipc_wf ?k \<and> (\<forall>d<TOTAL_TASK_CNT. send_queue ?k d = send_queue k d)"
    using ipc_wf_proc [OF k(2)] ipc_wf_accepts [OF k(2)]
    by (intro wf_same_links [OF k(2)]) (simp_all add: sending_def accepts_def)
  have acc: "accepts ?k 2 0" using k(3) by (simp add: accepts_def)
  have "\<not> sending ?k 2 d" for d using k(3) by (simp add: sending_def accepts_def)
  then have free: "(2, 0) \<notin> (waits_for ?k)\<^sup>+" by (auto simp: waits_for_def dest: tranclD)
  obtain k' where r: "msg_send 0 (of_nat 2) 0x3000 ?k = Inr (k', 0)"
    using msg_send_result [of ?k 0 2 "0x3000" 1] wf k(4,5) free acc by auto
  have "(\<forall>i<48. memory k' (p_msg (proc ?k 2) + of_nat i) = memory ?k (0x3000 + of_nat i)) \<and>
      (\<forall>a. \<not> in_block a (p_msg (proc ?k 2)) 48 \<longrightarrow> memory k' a = memory ?k a)"
    using wf acc k(4,5) r by (intro msg_send_delivers [of ?k 0 2]) simp_all
  then have "memory k' (0x2000 + of_nat 7) = 7" "memory k' 0x2050 = 0x50"
    using k(4) by (auto simp: in_block_def dest: spec [of _ 7])
  then show ?thesis using k(1) r by auto
qed

text \<open>
  C7. Send and receive are a round trip: when \<open>s\<close> sends to a process \<open>d\<close> that does not
  wait for it and \<open>d\<close> then receives from \<open>s\<close>, the message arrives byte for byte, and
  statuses, queues and pending interrupts are what they were before.
\<close>

theorem msg_send_recv_roundtrip:
  assumes "ipc_wf k" and "s < TOTAL_TASK_CNT" and "d < TOTAL_TASK_CNT"
    and "p_flags (proc k s) = 0" and "p_flags (proc k d) = 0"
    and "msg_send s (of_nat d) msg k = Inr (k1, 0)"
    and "msg_recv d (of_nat s) buf k1 = Inr (k2, 0)"
    and "buf = msg \<or> SIZEOF_MESSAGE \<le> buf - msg"
  shows "abs_ipc k2 = abs_ipc k \<and> ipc_wf k2 \<and>
    (\<forall>i<48. memory k2 (buf + of_nat i) = memory k (msg + of_nat i))"
proof -
  have sd: "s \<noteq> d" using msg_send_Inr_dest [OF assms(1,2,6)] assms(3) by (auto simp: of_nat_u32_eq_iff)
  have na: "\<not> accepts k d s" using assms(5) by (simp add: accepts_def)
  note b = msg_send_blocked [OF assms(1-4) na assms(6)]
  have nw: "\<not> wants (a_status (abs_ipc k) d) s" using wants_abs [OF assms(3,1)] na by simp
  have "a_queue (abs_ipc k1) d = a_queue (abs_ipc k) d @ [s]"
    unfolding b(6) using nw by (simp add: a_send_def)
  then have sq: "send_queue k1 d = send_queue k d @ [s]" by (simp only: abs_queue [OF assms(3)])
  have idle: "p_flags (proc k1 d) = 0" using b(4) [OF assms(3)] sd assms(5) by simp
  have new: "s \<notin> set (send_queue k d)"
    using send_queue_members(2) [OF assms(1,3)] assms(4) not_sending_not_sender [of k s] by fastforce
  have name: "of_nat s \<noteq> P_ANY" "of_nat s \<noteq> MSG_SOURCE_INTERRUPT"
    using less_TOTAL [OF assms(2)] by auto
  have sel: "a_select (of_nat s) (send_queue k1 d) = Some s"
    using name(1) assms(2) by (simp add: a_select_def sq)
  have "memory k2 = memcpy buf msg SIZEOF_MESSAGE (memory k)"
    using msg_recv_takes(1) [OF b(5) assms(3) idle _ sel assms(7)] name b(1,2) by simp
  moreover have "abs_status (proc k s) = Ready" using assms(4) by (simp add: abs_status_def)
  then have "a_recv d (of_nat s) (a_send s d (abs_ipc k)) = abs_ipc k"
    using nw assms(2,3) new by (intro a_recv_a_send) (simp_all add: abs_ipc_def)
  moreover have "ipc_wf k2" "abs_ipc k2 = a_recv d (of_nat s) (abs_ipc k1)"
    using msg_recv_correct [OF b(5) assms(3) idle assms(7)] by auto
  ultimately show ?thesis using memcpy_message(1) [OF assms(8)] b(6) by simp
qed


theorem msg_send_recv_roundtrip_witness:
  "\<exists>k1 k2. msg_send 0 1 0x1000 sample_boot = Inr (k1, 0) \<and> msg_recv 1 0 0x2000 k1 = Inr (k2, 0) \<and>
     abs_ipc k2 = abs_ipc sample_boot"
proof -
  obtain k1 where k1: "msg_send 0 1 0x1000 sample_boot = Inr (k1, 0)" "ipc_wf k1"
      "\<And>i. i < TOTAL_TASK_CNT \<Longrightarrow> i \<noteq> 0 \<Longrightarrow> p_flags (proc k1 i) = 0"
    using sample_waiting by metis
  obtain k2 where "msg_recv 1 (of_nat 0) 0x2000 k1 = Inr (k2, 0)"
    using msg_recv_result [OF k1(2), of 1 "of_nat 0" 2 "0x2000"] k1(3)
    by (auto simp: stray_sender_def proc_index_def)
  then show ?thesis
    using msg_send_recv_roundtrip [of sample_boot 0 1 "0x1000" k1 "0x2000" k2] k1(1) by auto
qed


text \<open>
  Senders are served first in, first out: when a process that can run receives from
  anybody and no interrupt is pending, it takes the oldest sender of its queue, that
  sender's message arrives and the sender can run again; the others keep their order.
\<close>

theorem msg_recv_any_fifo:
  assumes "ipc_wf k" and "r < TOTAL_TASK_CNT" and "p_flags (proc k r) = 0"
    and "a_queue (abs_ipc k) r = s # rest" and "\<not> a_pending (abs_ipc k) r"
    and "msg_recv r P_ANY msg k = Inr (k', ret)"
    and "msg = p_msg (proc k s) \<or> SIZEOF_MESSAGE \<le> msg - p_msg (proc k s)"
  shows "a_queue (abs_ipc k') r = rest \<and> a_status (abs_ipc k') s = Ready \<and>
    (\<forall>i<48. memory k' (msg + of_nat i) = memory k (p_msg (proc k s) + of_nat i))"
proof -
  have "a_select P_ANY (send_queue k r) = Some s"
    using assms(4) by (simp add: a_select_def abs_queue [OF assms(2)])
  then have "memory k' = memcpy msg (p_msg (proc k s)) SIZEOF_MESSAGE (memory k)"
    using msg_recv_takes(1) [OF assms(1-3) _ _ assms(6)] assms(5) by (simp add: abs_pending [OF assms(2)])
  then show ?thesis
    using msg_recv_correct [OF assms(1-3,6)] assms(4,5) memcpy_message(1) [OF assms(7)]
    by (simp add: a_recv_def a_select_def)
qed

theorem msg_recv_any_fifo_witness:
  "\<exists>k1 k2. msg_send 0 1 0x1000 sample_boot = Inr (k1, 0) \<and> msg_recv 1 P_ANY 0x2000 k1 = Inr (k2, 0) \<and>
     a_queue (abs_ipc k2) 1 = [] \<and> a_status (abs_ipc k2) 0 = Ready"
proof -
  obtain k1 where k1: "msg_send 0 1 0x1000 sample_boot = Inr (k1, 0)" "ipc_wf k1"
      "abs_ipc k1 = \<lparr>a_status = (\<lambda>_. Ready)(0 := Sending 1), a_queue = (\<lambda>_. [])(1 := [0]),
        a_pending = \<lambda>_. False\<rparr>"
      "p_msg (proc k1 0) = 0x1000" "\<And>i. i < TOTAL_TASK_CNT \<Longrightarrow> i \<noteq> 0 \<Longrightarrow> p_flags (proc k1 i) = 0"
    using sample_waiting by metis
  obtain k2 where "msg_recv 1 P_ANY 0x2000 k1 = Inr (k2, 0)"
    using msg_recv_result [OF k1(2), of 1 P_ANY 2 "0x2000"] k1(5) by (auto simp: stray_sender_def)
  then show ?thesis
    using msg_recv_any_fifo [OF k1(2), of 1 0 "[]" "0x2000" k2 0] k1 by auto
qed

text \<open>
  C9. Delivering a hardware interrupt to a task always succeeds and refines the abstract
  machine: a task that waits for an interrupt or for anybody becomes ready, for any other
  task the interrupt is remembered. No process that can run is blocked by it, and the
  current process stays.
\<close>

theorem deliver_int_refines:
  assumes "ipc_wf k" and "n < TOTAL_TASK_CNT"
  shows "\<exists>k'. deliver_int_to_proc n k = Inr k' \<and> ipc_wf k' \<and>
    abs_ipc k' = a_interrupt n (abs_ipc k) \<and> process_ready k' = process_ready k \<and>
    (\<forall>i<TOTAL_TASK_CNT. p_flags (proc k i) = 0 \<longrightarrow> p_flags (proc k' i) = 0)"
  using assms by (rule deliver_int_result)

theorem deliver_int_refines_witness:
  "\<exists>k'. deliver_int_to_proc HDD_TASK sample_boot = Inr k' \<and> a_pending (abs_ipc k') HDD_TASK"
  using deliver_int_refines [OF sample_boot_simps(1), of HDD_TASK] by (auto simp: a_interrupt_def)

text \<open>
  An interrupt remembered before a receive is not lost: the next receive from anybody
  or from the hardware returns at once with the interrupt message.
\<close>

theorem pending_interrupt_received:
  assumes "ipc_wf k" and "r < TOTAL_TASK_CNT" and "a_pending (abs_ipc k) r"
    and "src = P_ANY \<or> src = MSG_SOURCE_INTERRUPT"
  shows "\<exists>k'. msg_recv r src msg k = Inr (k', 0) \<and> \<not> a_pending (abs_ipc k') r \<and>
    process_ready k' = process_ready k \<and>
    load32 (memory k') msg = MSG_SOURCE_INTERRUPT \<and> load32 (memory k') (msg + 4) = MSG_HW_INTERRUPT"
proof -
  have "of_nat r \<noteq> src" using less_TOTAL [OF assms(2)] assms(4) by auto
  then have r: "msg_recv r src msg k = Inr (upd_proc r (\<lambda>p. p\<lparr>p_have_int_msg := False\<rparr>)
      (k\<lparr>memory := write_int_msg msg (memory k)\<rparr>), 0)"
    using assms by (simp add: msg_recv_def msg_recv_int_def ipc_wf_id vir_to_linear_flat abs_pending)
  have "load32 (write_int_msg msg m) msg = MSG_SOURCE_INTERRUPT" for m
    by (simp add: write_int_msg_def)
  moreover have "load32 (write_int_msg msg m) (msg + 4) = MSG_HW_INTERRUPT" for m
    by (simp add: write_int_msg_def)
  ultimately show ?thesis
    using r assms(2) ipc_wf_length [OF assms(1)] by (simp add: abs_ipc_def proc_upd_proc)
qed

theorem pending_interrupt_received_witness:
  "\<exists>k1 k2. deliver_int_to_proc HDD_TASK sample_boot = Inr k1 \<and>
     msg_recv HDD_TASK MSG_SOURCE_INTERRUPT 0x2000 k1 = Inr (k2, 0) \<and>
     load32 (memory k2) 0x2004 = MSG_HW_INTERRUPT"
proof -
  obtain k1 where "deliver_int_to_proc HDD_TASK sample_boot = Inr k1" "ipc_wf k1"
      "abs_ipc k1 = a_interrupt HDD_TASK (abs_ipc sample_boot)"
    using deliver_int_result [OF sample_boot_simps(1), of HDD_TASK] by auto
  then show ?thesis
    using pending_interrupt_received [of k1 HDD_TASK MSG_SOURCE_INTERRUPT "0x2000"]
    by (auto simp: a_interrupt_def)
qed

text \<open>
  C13. Yet a wake-up can be lost inside \<open>msg_recv\<close>: when the interrupt arrives after the
  test of \<open>have_int_msg\<close> and before the receiver is marked as receiving, the receiver
  blocks waiting for anybody while its interrupt stays pending, and only another message
  or interrupt wakes it.
\<close>

theorem msg_recv_lost_wakeup:
  assumes "ipc_wf k" and "r < TOTAL_TASK_CNT" and "p_flags (proc k r) = 0"
    and "a_queue (abs_ipc k) r = []"
    and "deliver_int_to_proc r k = Inr k1" and "msg_recv_queue r P_ANY msg k1 = Inr k2"
  shows "a_status (abs_ipc k2) r = Receiving P_ANY \<and> a_pending (abs_ipc k2) r"
proof -
  have d: "ipc_wf k1" "abs_ipc k1 = a_interrupt r (abs_ipc k)" "p_flags (proc k1 r) = 0"
    using deliver_int_result [OF assms(1,2)] assms(2,3,5) by auto
  have "a_status (abs_ipc k) r = Ready" using assms(2,3) by (simp add: abs_ipc_def abs_status_def)
  then have a: "a_queue (abs_ipc k1) r = []" "a_pending (abs_ipc k1) r"
    using d(2) assms(4) by (simp_all add: a_interrupt_def)
  have "a_select P_ANY (send_queue k1 r) = None"
    using a(1) by (simp add: abs_queue [OF assms(2)] a_select_def)
  from msg_recv_blocked(9) [OF d(1) assms(2) d(3) this assms(6)] a(2) show ?thesis by simp
qed

theorem msg_recv_lost_wakeup_witness:
  "\<exists>k1 k2. deliver_int_to_proc HDD_TASK sample_boot = Inr k1 \<and>
     msg_recv_queue HDD_TASK P_ANY 0x2000 k1 = Inr k2 \<and>
     a_status (abs_ipc k2) HDD_TASK = Receiving P_ANY \<and> a_pending (abs_ipc k2) HDD_TASK"
proof -
  obtain k1 where k1: "deliver_int_to_proc HDD_TASK sample_boot = Inr k1" "ipc_wf k1"
      "abs_ipc k1 = a_interrupt HDD_TASK (abs_ipc sample_boot)"
      "\<forall>i<TOTAL_TASK_CNT. p_flags (proc k1 i) = 0"
    using deliver_int_result [OF sample_boot_simps(1), of HDD_TASK] by auto
  have "send_queue k1 2 = []"
    using arg_cong [OF k1(3), of "\<lambda>a. a_queue a 2"] by (simp add: abs_queue a_interrupt_def)
  then have sel: "a_select P_ANY (send_queue k1 2) = None" by (simp add: a_select_def)
  have w: "ipc_wf (waiting 2 P_ANY 0x2000 k1)"
    using waiting_refines [OF k1(2) _ _ sel, of "0x2000"] k1(4) by simp
  have "p_flags (proc (waiting 2 P_ANY 0x2000 k1) 2) \<noteq> 0" "p_flags (proc (waiting 2 P_ANY 0x2000 k1) 0) = 0"
    using k1(4) ipc_wf_length [OF k1(2)] by (simp_all add: waiting_def proc_upd_proc)
  then obtain k2 where "block 2 (waiting 2 P_ANY 0x2000 k1) = Inr k2"
    using block_returns [OF w, of 2 0] by auto
  then have "msg_recv_queue 2 P_ANY 0x2000 k1 = Inr k2"
    using msg_recv_queue_cases [OF k1(2), of 2 P_ANY "0x2000"] k1(4) sel by (simp add: stray_sender_def)
  then show ?thesis
    using msg_recv_lost_wakeup [OF sample_boot_simps(1), of HDD_TASK k1 "0x2000" k2] k1(1) by auto
qed

end
