(* ===== verification/Syscall.thy ===== *)
theory Syscall
  imports Rendezvous
begin

text \<open>
  How the kernel is entered: \<open>_save\<close> and \<open>restart_process\<close> of \<open>kernel/gas/interrupt.s\<close>
  as far as they move \<open>int_reenter\<close>, the system call \<open>sys_send_recv\<close> and the clock
  interrupt of \<open>kernel/interrupt.c\<close>, the library call \<open>send_recv\<close> of
  \<open>kernel/message.c\<close>, and the disk interrupt as far as the process table sees it.
\<close>

section \<open>Entering and leaving the kernel\<close>

text \<open>
  \<open>int_reenter\<close> is \<open>-1\<close> while a process runs; \<open>_save\<close> counts it up and
  \<open>restart_process\<close> or \<open>restart_re_enter\<close> counts it down.
\<close>

definition kernel_enter :: "kernel \<Rightarrow> kernel" where
  "kernel_enter k = k\<lparr>int_reenter := int_reenter k + 1\<rparr>"

definition kernel_leave :: "kernel \<Rightarrow> kernel" where
  "kernel_leave k = k\<lparr>int_reenter := int_reenter k - 1\<rparr>"

section \<open>The system call\<close>

abbreviation (input) MSG_SEND :: c_int where "MSG_SEND \<equiv> 0"
abbreviation (input) MSG_RECEIVE :: c_int where "MSG_RECEIVE \<equiv> 1"
abbreviation (input) MSG_BOTH :: c_int where "MSG_BOTH \<equiv> 2"

definition sys_send_recv ::
  "c_int \<Rightarrow> c_int \<Rightarrow> addr \<Rightarrow> nat \<Rightarrow> kernel \<Rightarrow> stop + (kernel \<times> c_int)" where
  "sys_send_recv func src_dest msg p k =
     ASSERT (int_reenter k = 0) ''int_reenter == 0''
      (andThen (vir_to_linear (p_id (proc k p)) msg k) (\<lambda>msg_la.
        let k1 = k\<lparr>memory := store32 msg_la (p_id (proc k p)) (memory k)\<rparr>
        in ASSERT (load32 (memory k1) msg_la \<noteq> src_dest) ''msg_la->source != src_dest''
             (if func = MSG_SEND then msg_send p src_dest msg k1
              else if func = MSG_RECEIVE then msg_recv p src_dest msg k1
              else Inl (Critical ''NOT SUPPORT''))))"

text \<open>
  \<open>sys_call\<close>: the current process traps, the C function runs for it, its result goes to
  the \<open>eax\<close> of the process that trapped, and whichever process is current then goes on.
\<close>

definition sys_call_send_recv :: "c_int \<Rightarrow> c_int \<Rightarrow> addr \<Rightarrow> kernel \<Rightarrow> stop + kernel" where
  "sys_call_send_recv func src_dest msg k =
     (let caller = process_ready k
      in andThen (sys_send_recv func src_dest msg caller (kernel_enter k)) (\<lambda>(k', ret).
           Inr (kernel_leave
             (upd_proc caller (\<lambda>p. p\<lparr>p_regs := (p_regs p)\<lparr>r_eax := ret\<rparr>\<rparr>) k'))))"

text \<open>
  \<open>send_recv\<close> in user mode: which traps it makes, in order (the second of \<open>MSG_BOTH\<close> only
  when the first has returned 0), and what it does to the message first. It returns 0.
\<close>

definition send_recv_calls :: "c_int \<Rightarrow> c_int list" where
  "send_recv_calls func =
     (if func = MSG_BOTH then [MSG_SEND, MSG_RECEIVE]
      else if func = MSG_SEND \<or> func = MSG_RECEIVE then [func] else [])"

definition send_recv_prepare :: "c_int \<Rightarrow> addr \<Rightarrow> mem \<Rightarrow> mem" where
  "send_recv_prepare func msg m =
     (if func = MSG_RECEIVE then memset msg 0 SIZEOF_MESSAGE m else m)"

section \<open>Interrupts\<close>

definition clock_int_handler :: "kernel \<Rightarrow> kernel option" where
  "clock_int_handler k =
     (let k1 = upd_proc (process_ready k) (\<lambda>p. p\<lparr>p_ticks := p_ticks p - 1\<rparr>)
                 (k\<lparr>ticks := ticks k + 1\<rparr>)
      in if int_reenter k1 \<noteq> 0 then Some k1
         else if 0 <s p_ticks (proc k1 (process_ready k1)) then Some k1
         else process_schedule k1)"

text \<open>The clock interrupts a running process.\<close>

definition clock_interrupt :: "kernel \<Rightarrow> kernel option" where
  "clock_interrupt k = map_option kernel_leave (clock_int_handler (kernel_enter k))"

text \<open>A disk interrupt: the handler ends in \<open>deliver_int_to_proc(HDD_TASK)\<close>.\<close>

definition hdd_interrupt :: "kernel \<Rightarrow> stop + kernel" where
  "hdd_interrupt k =
     andThen (deliver_int_to_proc HDD_TASK (kernel_enter k)) (\<lambda>k'. Inr (kernel_leave k'))"

section \<open>The invariant of a running process\<close>

text \<open>
  While a process runs on a full time slice: the table is well formed, the current process can
  run and has some of its slice left, and nobody is inside the kernel. (A clock interrupt that
  comes during a system call can use up the rest of the slice without a switch; what holds
  then too is in \<open>Interleaving\<close>.)
\<close>

definition slice_left :: "kernel \<Rightarrow> bool" where
  "slice_left k \<longleftrightarrow> 0 <s p_ticks (proc k (process_ready k))"

definition kernel_inv :: "kernel \<Rightarrow> bool" where
  "kernel_inv k \<longleftrightarrow> ipc_wf k \<and> runnable k (process_ready k) \<and> slice_left k \<and>
     int_reenter k = - 1"

section \<open>Lemmas\<close>

text \<open>Changes to the table that the message component does not see.\<close>

lemma same_view:
  assumes wf: "ipc_wf k" and "length (proc_table k') = length (proc_table k)"
    and f: "\<And>i. i < TOTAL_TASK_CNT \<Longrightarrow>
      \<exists>t r. proc k' i = (proc k i)\<lparr>p_ticks := t, p_regs := r\<rparr>"
  shows "ipc_wf k' \<and> abs_ipc k' = abs_ipc k"
proof -
  have pr: "p_id (proc k' i) = p_id (proc k i) \<and> p_flags (proc k' i) = p_flags (proc k i) \<and>
      p_recv_from (proc k' i) = p_recv_from (proc k i) \<and> p_send_to (proc k' i) = p_send_to (proc k i) \<and>
      p_have_int_msg (proc k' i) = p_have_int_msg (proc k i) \<and> p_ldt (proc k' i) = p_ldt (proc k i) \<and>
      p_current_send (proc k' i) = p_current_send (proc k i) \<and>
      p_next_send (proc k' i) = p_next_send (proc k i) \<and> p_priority (proc k' i) = p_priority (proc k i)"
    if "i < TOTAL_TASK_CNT" for i
    using f [OF that] by auto
  have q: "ipc_wf k' \<and> (\<forall>d<TOTAL_TASK_CNT. send_queue k' d = send_queue k d)"
  proof (rule wf_same_links [OF wf assms(2)])
    show "proc_wf i (proc k' i)" if "i < TOTAL_TASK_CNT" for i
      using ipc_wf_proc [OF wf that] pr [OF that] by (simp add: proc_wf_def ldt_linear_addr_def)
    show "\<not> accepts k' d s" if "d < TOTAL_TASK_CNT" "s \<in> senders k d" for d s
      using ipc_wf_accepts [OF wf that] pr [OF that(1)] by (simp add: accepts_def)
  qed (use pr in \<open>simp_all add: sending_def\<close>)
  moreover have "abs_ipc k' = abs_ipc k"
    using q pr by (intro abs_ipc_eqI) (simp_all add: abs_ipc_def abs_status_def)
  ultimately show ?thesis by simp
qed

lemma enter_leave_simps [simp]:
  "proc (kernel_enter k) i = proc k i" "proc (kernel_leave k) i = proc k i"
  "proc_table (kernel_enter k) = proc_table k" "proc_table (kernel_leave k) = proc_table k"
  "process_ready (kernel_enter k) = process_ready k" "process_ready (kernel_leave k) = process_ready k"
  "memory (kernel_enter k) = memory k" "memory (kernel_leave k) = memory k"
  "outside (kernel_enter k) = outside k" "outside (kernel_leave k) = outside k"
  "ticks (kernel_enter k) = ticks k" "ticks (kernel_leave k) = ticks k"
  "int_reenter (kernel_enter k) = int_reenter k + 1" "int_reenter (kernel_leave k) = int_reenter k - 1"
  by (simp_all add: kernel_enter_def kernel_leave_def)

lemma same_table:
  assumes "proc_table k' = proc_table k"
  shows "ipc_wf k \<Longrightarrow> ipc_wf k' \<and> abs_ipc k' = abs_ipc k" "runnable k' i = runnable k i"
    "proc k' i = proc k i"
proof -
  show "proc k' i = proc k i" for i using assms by (simp add: proc_def)
  then show "runnable k' i = runnable k i" using assms by (simp add: runnable_def)
  have "\<exists>t r. proc k' i = (proc k i)\<lparr>p_ticks := t, p_regs := r\<rparr>" for i
    using \<open>\<And>i. proc k' i = proc k i\<close>
    by (intro exI [of _ "p_ticks (proc k i)"] exI [of _ "p_regs (proc k i)"]) simp
  then show "ipc_wf k \<Longrightarrow> ipc_wf k' \<and> abs_ipc k' = abs_ipc k"
    using assms by (intro same_view) simp_all
qed

lemma upd_regs_view:
  assumes "ipc_wf k" and "i < TOTAL_TASK_CNT"
  shows "ipc_wf (upd_proc i (\<lambda>p. p\<lparr>p_regs := f p\<rparr>) k)"
    "abs_ipc (upd_proc i (\<lambda>p. p\<lparr>p_regs := f p\<rparr>) k) = abs_ipc k"
proof -
  let ?k = "upd_proc i (\<lambda>p. p\<lparr>p_regs := f p\<rparr>) k"
  have "\<exists>t r. proc ?k j = (proc k j)\<lparr>p_ticks := t, p_regs := r\<rparr>" for j
    using assms(2) ipc_wf_length [OF assms(1)]
    by (intro exI [of _ "p_ticks (proc k j)"]
          exI [of _ "if j = i then f (proc k i) else p_regs (proc k j)"])
       (simp add: proc_upd_proc)
  then have "ipc_wf ?k \<and> abs_ipc ?k = abs_ipc k"
    using assms(1) by (intro same_view) simp_all
  then show "ipc_wf ?k" "abs_ipc ?k = abs_ipc k" by simp_all
qed

lemma upd_regs_runnable [simp]:
  "i < length (proc_table k) \<Longrightarrow> runnable (upd_proc i (\<lambda>p. p\<lparr>p_regs := f p\<rparr>) k) j = runnable k j"
  by (simp add: runnable_def proc_upd_proc)

text \<open>What \<open>msg_send\<close> and \<open>msg_recv\<close> leave alone.\<close>

lemma block_int_reenter: "block p k = Inr k' \<Longrightarrow> int_reenter k' = int_reenter k \<and> ticks k' = ticks k"
  by (auto simp: block_def ASSERT_Inr_iff dest!: sched.schedule_frame simp: same_ipc_def)

lemma msg_send_globals:
  assumes "msg_send s dest msg k = Inr (k', ret)"
  shows "int_reenter k' = int_reenter k \<and> ticks k' = ticks k"
proof -
  obtain d where "msg_send_direct s d msg k = Inr k' \<or> msg_send_enqueue s d msg k = Inr k'"
    using assms
    by (auto simp: msg_send_def ASSERT_Inr_iff andThen_Inr_iff split: option.splits if_splits)
  then show ?thesis
    by (auto simp: msg_send_direct_def msg_send_enqueue_def ASSERT_Inr_iff andThen_Inr_iff unblock_def
        Let_def split: option.splits dest!: block_int_reenter)
qed

lemma msg_recv_copy_globals:
  "msg_recv_copy r s p_prev msg k = Inr k' \<Longrightarrow> int_reenter k' = int_reenter k \<and> ticks k' = ticks k"
  by (auto simp: msg_recv_copy_def dequeue_sender_def ASSERT_Inr_iff andThen_Inr_iff unblock_def
      split: option.splits if_splits)

lemma msg_recv_wait_globals:
  "msg_recv_wait r src msg k = Inr k' \<Longrightarrow> int_reenter k' = int_reenter k \<and> ticks k' = ticks k"
  by (auto simp: msg_recv_wait_def dest!: block_int_reenter)

lemma msg_recv_globals:
  assumes "msg_recv r src msg k = Inr (k', ret)"
  shows "int_reenter k' = int_reenter k \<and> ticks k' = ticks k"
proof -
  consider "msg_recv_int r msg k = Inr k'" | "msg_recv_wait r src msg k = Inr k'"
    | s q where "msg_recv_copy r s q msg k = Inr k'"
    using assms
    by (auto simp: msg_recv_def msg_recv_queue_def Let_def ASSERT_Inr_iff andThen_Inr_iff
        split: option.splits if_splits prod.splits)
  then show ?thesis
    by cases (auto simp: msg_recv_int_def andThen_Inr_iff
        dest: msg_recv_copy_globals msg_recv_wait_globals)
qed

lemma deliver_int_globals:
  "deliver_int_to_proc n k = Inr k' \<Longrightarrow> int_reenter k' = int_reenter k \<and> ticks k' = ticks k"
  by (auto simp: deliver_int_to_proc_def Let_def unblock_def ASSERT_Inr_iff split: if_splits)

text \<open>Time slices: a call either keeps them all, or goes through the scheduler.\<close>

lemma p_ticks_upd_proc:
  "(\<And>p. p_ticks (f p) = p_ticks p) \<Longrightarrow> p_ticks (proc (upd_proc i f k) j) = p_ticks (proc k j)"
  by (cases "i < length (proc_table k)")
     (simp_all add: proc_upd_proc, simp add: upd_proc_def proc_def list_update_beyond)

lemma slice_left_upd_proc [simp]:
  "(\<And>p. p_ticks (f p) = p_ticks p) \<Longrightarrow> slice_left (upd_proc i f k) = slice_left k"
  by (simp add: slice_left_def p_ticks_upd_proc)

lemma slice_left_simps [simp]:
  "slice_left (k\<lparr>memory := m\<rparr>) = slice_left k"
  "slice_left (kernel_enter k) = slice_left k" "slice_left (kernel_leave k) = slice_left k"
  by (simp_all add: slice_left_def)

lemma schedule_slice: "process_schedule k = Some k' \<Longrightarrow> slice_left k'"
  using schedule_Some [of k k'] by (auto simp: slice_left_def best_def proc_def)

lemma block_slice: "block p k = Inr k' \<Longrightarrow> slice_left k'"
  by (auto simp: block_def ASSERT_Inr_iff intro: schedule_slice)

lemma msg_send_slice:
  assumes "msg_send s dest msg k = Inr (k', ret)" and "slice_left k"
  shows "slice_left k'"
proof -
  obtain d where "msg_send_direct s d msg k = Inr k' \<or> msg_send_enqueue s d msg k = Inr k'"
    using assms(1)
    by (auto simp: msg_send_def ASSERT_Inr_iff andThen_Inr_iff split: option.splits if_splits)
  then show ?thesis using assms(2)
    by (auto simp: msg_send_direct_def msg_send_enqueue_def ASSERT_Inr_iff andThen_Inr_iff unblock_def
        Let_def split: option.splits dest!: block_slice)
qed

lemma msg_recv_slice:
  assumes "msg_recv r src msg k = Inr (k', ret)" and "slice_left k"
  shows "slice_left k'"
proof -
  consider "msg_recv_int r msg k = Inr k'" | "msg_recv_wait r src msg k = Inr k'"
    | s q where "msg_recv_copy r s q msg k = Inr k'"
    using assms(1)
    by (auto simp: msg_recv_def msg_recv_queue_def Let_def ASSERT_Inr_iff andThen_Inr_iff
        split: option.splits if_splits prod.splits)
  then show ?thesis
  proof cases
    case 3
    then show ?thesis using assms(2)
      by (auto simp: msg_recv_copy_def dequeue_sender_def ASSERT_Inr_iff andThen_Inr_iff unblock_def
          split: option.splits if_splits)
  qed (use assms(2) in \<open>auto simp: msg_recv_int_def msg_recv_wait_def andThen_Inr_iff
    dest!: block_slice\<close>)
qed

lemma deliver_int_slice: "deliver_int_to_proc n k = Inr k' \<Longrightarrow> slice_left k \<Longrightarrow> slice_left k'"
  by (auto simp: deliver_int_to_proc_def Let_def unblock_def ASSERT_Inr_iff split: if_splits)


section \<open>The invariant\<close>

lemma kernel_inv_parts:
  assumes "kernel_inv k"
  shows "ipc_wf k" "process_ready k < TOTAL_TASK_CNT" "p_flags (proc k (process_ready k)) = 0"
    "int_reenter k = - 1" "slice_left k"
  using assms by (auto simp: kernel_inv_def runnable_def ipc_wf_length)

lemma sys_send_recv_correct:
  assumes wf: "ipc_wf k" and p: "p < TOTAL_TASK_CNT" and idle: "p_flags (proc k p) = 0"
    and cur: "process_ready k = p" and r: "sys_send_recv func x msg p k = Inr (k', ret)"
  shows "ipc_wf k' \<and> runnable k' (process_ready k') \<and> (slice_left k \<longrightarrow> slice_left k') \<and>
    int_reenter k' = int_reenter k \<and> ret = 0 \<and>
    (func = MSG_SEND \<and> abs_ipc k' = a_send p (unat x) (abs_ipc k) \<or>
     func = MSG_RECEIVE \<and> abs_ipc k' = a_recv p x (abs_ipc k))"
proof -
  define k1 where "k1 = k\<lparr>memory := store32 msg (of_nat p) (memory k)\<rparr>"
  have k1: "ipc_wf k1" "abs_ipc k1 = abs_ipc k" "p_flags (proc k1 p) = 0" "process_ready k1 = p"
      "int_reenter k1 = int_reenter k" "slice_left k1 = slice_left k"
    using same_table(1) [of k1 k] wf idle cur by (simp_all add: k1_def)
  have "func = MSG_SEND \<and> msg_send p x msg k1 = Inr (k', ret) \<or>
      func = MSG_RECEIVE \<and> msg_recv p x msg k1 = Inr (k', ret)"
    using r by (auto simp: sys_send_recv_def ASSERT_Inr_iff andThen_Inr_iff ipc_wf_id [OF wf p]
        vir_to_linear_flat [OF wf p] Let_def k1_def split: if_splits)
  then show ?thesis
  proof (elim disjE conjE)
    assume f: "func = MSG_SEND" and s: "msg_send p x msg k1 = Inr (k', ret)"
    show ?thesis using msg_send_correct [OF k1(1) p k1(3) s] msg_send_globals [OF s]
      msg_send_slice [OF s] f k1 by simp
  next
    assume f: "func = MSG_RECEIVE" and s: "msg_recv p x msg k1 = Inr (k', ret)"
    show ?thesis using msg_recv_correct [OF k1(1) p k1(3) s] msg_recv_globals [OF s]
      msg_recv_slice [OF s] f k1 by simp
  qed
qed

lemma sys_call_correct:
  assumes inv: "kernel_inv k" and r: "sys_call_send_recv func x msg k = Inr k'"
  shows "kernel_inv k' \<and>
    (func = MSG_SEND \<and> abs_ipc k' = a_send (process_ready k) (unat x) (abs_ipc k) \<or>
     func = MSG_RECEIVE \<and> abs_ipc k' = a_recv (process_ready k) x (abs_ipc k))"
proof -
  note k = kernel_inv_parts [OF inv]
  have e: "ipc_wf (kernel_enter k)" "abs_ipc (kernel_enter k) = abs_ipc k"
    using same_table(1) [of "kernel_enter k" k] k(1) by simp_all
  obtain k1 ret where s: "sys_send_recv func x msg (process_ready k) (kernel_enter k) = Inr (k1, ret)"
      and k': "k' = kernel_leave (upd_proc (process_ready k) (\<lambda>p. p\<lparr>p_regs := (p_regs p)\<lparr>r_eax := ret\<rparr>\<rparr>) k1)"
    using r by (auto simp: sys_call_send_recv_def Let_def andThen_Inr_iff)
  note c = sys_send_recv_correct [OF e(1) k(2) _ _ s, simplified, OF k(3)]
  have len: "process_ready k < length (proc_table k1)" using c k(2) by (simp add: ipc_wf_length)
  let ?k2 = "upd_proc (process_ready k) (\<lambda>p. p\<lparr>p_regs := (p_regs p)\<lparr>r_eax := ret\<rparr>\<rparr>) k1"
  have v: "ipc_wf ?k2" "abs_ipc ?k2 = abs_ipc k1"
    using upd_regs_view [OF _ k(2)] c by simp_all
  have "runnable ?k2 (process_ready k1)" using c len by simp
  then have "kernel_inv k'"
    using same_table [of k' ?k2] v(1) c k(4,5) by (simp add: kernel_inv_def k')
  moreover have "abs_ipc k' = abs_ipc k1" using same_table(1) [of k' ?k2] v by (simp add: k')
  ultimately show ?thesis using c e(2) by simp
qed

lemma clock_int_handler_correct:
  assumes wf: "ipc_wf k" and cur: "runnable k (process_ready k)"
  shows "\<exists>k'. clock_int_handler k = Some k' \<and> ipc_wf k' \<and> abs_ipc k' = abs_ipc k \<and>
    runnable k' (process_ready k') \<and> (int_reenter k = 0 \<longrightarrow> slice_left k') \<and> ticks k' = ticks k + 1 \<and> int_reenter k' = int_reenter k \<and>
    memory k' = memory k"
proof -
  define k1 where "k1 = upd_proc (process_ready k) (\<lambda>p. p\<lparr>p_ticks := p_ticks p - 1\<rparr>)
    (k\<lparr>ticks := ticks k + 1\<rparr>)"
  have r: "process_ready k < TOTAL_TASK_CNT" "p_flags (proc k (process_ready k)) = 0"
    using cur ipc_wf_length [OF wf] by (simp_all add: runnable_def)
  have pr: "proc k1 i = (if i = process_ready k
      then (proc k i)\<lparr>p_ticks := p_ticks (proc k i) - 1\<rparr> else proc k i)" for i
    using r ipc_wf_length [OF wf] by (simp add: k1_def proc_upd_proc)
  have "\<exists>t r. proc k1 i = (proc k i)\<lparr>p_ticks := t, p_regs := r\<rparr>" for i
    by (intro exI [of _ "p_ticks (proc k1 i)"] exI [of _ "p_regs (proc k i)"]) (simp add: pr)
  then have wf1: "ipc_wf k1" "abs_ipc k1 = abs_ipc k"
    using same_view [OF wf, of k1] by (simp_all add: k1_def)
  have g: "ticks k1 = ticks k + 1" "int_reenter k1 = int_reenter k" "memory k1 = memory k"
      "process_ready k1 = process_ready k"
    by (simp_all add: k1_def)
  have run1: "runnable k1 (process_ready k1)"
    using r ipc_wf_length [OF wf1(1)] by (simp add: runnable_def pr g)
  have c: "clock_int_handler k = (if int_reenter k1 \<noteq> 0 \<or> 0 <s p_ticks (proc k1 (process_ready k1))
      then Some k1 else process_schedule k1)"
    by (simp add: clock_int_handler_def Let_def k1_def)
  show ?thesis
  proof (cases "int_reenter k1 \<noteq> 0 \<or> 0 <s p_ticks (proc k1 (process_ready k1))")
    case True
    then show ?thesis using c wf1 g run1 by (auto simp: slice_left_def)
  next
    case False
    obtain k' where s: "process_schedule k1 = Some k'"
      using sched.schedule_wf_total [OF wf1(1) r(1)] r(2) by (auto simp: pr)
    then show ?thesis
      using False c g wf1 schedule_slice [OF s] sched.schedule_ipc [OF s wf1(1)] sched.schedule_ready [OF s]
        same_ipc_globals [OF sched.schedule_frame [OF s]] by auto
  qed
qed

lemma clock_interrupt_correct:
  assumes "kernel_inv k"
  shows "\<exists>k'. clock_interrupt k = Some k' \<and> kernel_inv k' \<and> abs_ipc k' = abs_ipc k \<and>
    ticks k' = ticks k + 1 \<and> memory k' = memory k"
proof -
  note k = kernel_inv_parts [OF assms]
  have e: "ipc_wf (kernel_enter k)" "abs_ipc (kernel_enter k) = abs_ipc k"
    using same_table(1) [of "kernel_enter k" k] k(1) by simp_all
  have "runnable (kernel_enter k) (process_ready (kernel_enter k))"
    using assms same_table(2) [of "kernel_enter k" k] by (simp add: kernel_inv_def)
  then obtain k1 where k1: "clock_int_handler (kernel_enter k) = Some k1" "ipc_wf k1"
      "abs_ipc k1 = abs_ipc k" "runnable k1 (process_ready k1)" "ticks k1 = ticks k + 1"
      "int_reenter k1 = 0" "slice_left k1" "memory k1 = memory k"
    using clock_int_handler_correct [OF e(1)] e(2) k(4) by auto
  have "kernel_inv (kernel_leave k1) \<and> abs_ipc (kernel_leave k1) = abs_ipc k1"
    using same_table [of "kernel_leave k1" k1] k1 by (simp add: kernel_inv_def)
  then show ?thesis using k1 by (auto simp: clock_interrupt_def)
qed

lemma hdd_interrupt_correct:
  assumes "kernel_inv k"
  shows "\<exists>k'. hdd_interrupt k = Inr k' \<and> kernel_inv k' \<and> abs_ipc k' = a_interrupt HDD_TASK (abs_ipc k) \<and>
    process_ready k' = process_ready k"
proof -
  note k = kernel_inv_parts [OF assms]
  have e: "ipc_wf (kernel_enter k)" "abs_ipc (kernel_enter k) = abs_ipc k"
    using same_table(1) [of "kernel_enter k" k] k(1) by simp_all
  obtain k1 where k1: "deliver_int_to_proc HDD_TASK (kernel_enter k) = Inr k1" "ipc_wf k1"
      "abs_ipc k1 = a_interrupt HDD_TASK (abs_ipc k)" "process_ready k1 = process_ready k"
      "\<forall>i<TOTAL_TASK_CNT. p_flags (proc k i) = 0 \<longrightarrow> p_flags (proc k1 i) = 0"
    using deliver_int_result [OF e(1), of HDD_TASK] e(2) by auto
  have "runnable k1 (process_ready k1)" "int_reenter k1 = 0" "slice_left k1"
    using k k1 deliver_int_slice [OF k1(1)] ipc_wf_length [OF k1(2)] deliver_int_globals [OF k1(1)] by (auto simp: runnable_def)
  then have "kernel_inv (kernel_leave k1) \<and> abs_ipc (kernel_leave k1) = abs_ipc k1"
    using same_table [of "kernel_leave k1" k1] k1 by (simp add: kernel_inv_def)
  then show ?thesis using k1 by (auto simp: hdd_interrupt_def)
qed

lemma boot_kernel_inv:
  assumes "desc_base (gdt ! 2) = 0"
  shows "kernel_inv (kernel_leave (boot_kernel lnk gdt m out))"
  using boot_ipc_wf [OF assms, of lnk m out]
    same_table [of "kernel_leave (boot_kernel lnk gdt m out)" "boot_kernel lnk gdt m out"]
  by (simp add: kernel_inv_def slice_left_def boot_process_fields word_sless_alt)


section \<open>System calls that go through\<close>

text \<open>What the C function is given: the message stamped with its sender.\<close>

definition stamped :: "addr \<Rightarrow> kernel \<Rightarrow> kernel" where
  "stamped msg k = (kernel_enter k)\<lparr>memory := store32 msg (of_nat (process_ready k)) (memory k)\<rparr>"

lemma stamped_simps [simp]:
  "proc (stamped msg k) i = proc k i" "process_ready (stamped msg k) = process_ready k"
  "memory (stamped msg k) = store32 msg (of_nat (process_ready k)) (memory k)"
  "ticks (stamped msg k) = ticks k" "outside (stamped msg k) = outside k"
  "int_reenter (stamped msg k) = int_reenter k + 1" "slice_left (stamped msg k) = slice_left k"
  by (simp_all add: stamped_def)

lemma stamped_view:
  assumes "ipc_wf k"
  shows "ipc_wf (stamped msg k)" "abs_ipc (stamped msg k) = abs_ipc k"
    "accepts (stamped msg k) d s = accepts k d s" "waits_for (stamped msg k) = waits_for k"
    "d < TOTAL_TASK_CNT \<Longrightarrow> send_queue (stamped msg k) d = send_queue k d"
proof -
  show wf: "ipc_wf (stamped msg k)" and ab: "abs_ipc (stamped msg k) = abs_ipc k"
    using same_table(1) [of "stamped msg k" k] assms by (simp_all add: stamped_def)
  show "accepts (stamped msg k) d s = accepts k d s" "waits_for (stamped msg k) = waits_for k"
    by (simp_all add: accepts_def waits_for_def sending_def)
  show "d < TOTAL_TASK_CNT \<Longrightarrow> send_queue (stamped msg k) d = send_queue k d"
    using ab by (simp flip: abs_queue)
qed

lemma sys_call_eq:
  assumes "kernel_inv k" and "x \<noteq> of_nat (process_ready k)"
  shows "sys_call_send_recv func x msg k = andThen
     (if func = MSG_SEND then msg_send (process_ready k) x msg (stamped msg k)
      else if func = MSG_RECEIVE then msg_recv (process_ready k) x msg (stamped msg k)
      else Inl (Critical ''NOT SUPPORT''))
     (\<lambda>(k', ret). Inr (kernel_leave
        (upd_proc (process_ready k) (\<lambda>p. p\<lparr>p_regs := (p_regs p)\<lparr>r_eax := ret\<rparr>\<rparr>) k')))"
proof -
  note k = kernel_inv_parts [OF assms(1)]
  have wf: "ipc_wf (kernel_enter k)" using same_table(1) [of "kernel_enter k" k] k(1) by simp
  show ?thesis
    using k(2,4) assms(2)
    by (simp add: sys_call_send_recv_def sys_send_recv_def Let_def vir_to_linear_flat [OF wf]
        ipc_wf_id [OF wf, simplified] stamped_def)
qed

lemma upd_regs_proc:
  "i < length (proc_table k) \<Longrightarrow>
   proc (upd_proc i (\<lambda>p. p\<lparr>p_regs := f p\<rparr>) k) j = (if j = i then (proc k i)\<lparr>p_regs := f (proc k i)\<rparr> else proc k j)"
  by (simp add: proc_upd_proc)

lemma sys_call_send_direct:
  assumes inv: "kernel_inv k" and c: "process_ready k = c" and d: "d < TOTAL_TASK_CNT"
    and acc: "accepts k d c" and ptr: "p_msg (proc k d) \<noteq> 0" "msg \<noteq> 0"
  shows "\<exists>k'. sys_call_send_recv MSG_SEND (of_nat d) msg k = Inr k' \<and> kernel_inv k' \<and>
    process_ready k' = c \<and> abs_ipc k' = a_send c d (abs_ipc k) \<and> ticks k' = ticks k \<and>
    memory k' = memcpy (p_msg (proc k d)) msg SIZEOF_MESSAGE (store32 msg (of_nat c) (memory k)) \<and>
    p_flags (proc k' d) = 0 \<and> (\<forall>i. i \<noteq> d \<longrightarrow> p_msg (proc k' i) = p_msg (proc k i))"
proof -
  note k = kernel_inv_parts [OF inv, unfolded c]
  note v = stamped_view [OF k(1), where msg = msg]
  have cd: "c \<noteq> d" using acc k(3) by (auto simp: accepts_def)
  have "\<not> sending k d e" for e using acc by (simp add: sending_def accepts_def)
  then have free: "(d, c) \<notin> (waits_for (stamped msg k))\<^sup>+"
    unfolding v(4) by (auto simp: waits_for_def dest: tranclD)
  obtain k1 where s: "msg_send c (of_nat d) msg (stamped msg k) = Inr (k1, 0)"
    using msg_send_result [OF v(1) k(2) d cd _ free] k(3) acc ptr by (auto simp: v)
  note e = msg_send_received [OF v(1) k(2) d _ _ s, simplified, OF k(3), unfolded v, OF acc]
  let ?k2 = "upd_proc c (\<lambda>p. p\<lparr>p_regs := (p_regs p)\<lparr>r_eax := 0\<rparr>\<rparr>) k1"
  have x: "of_nat d \<noteq> (of_nat (process_ready k) :: u32)"
    using cd c k(2) d by (simp add: of_nat_u32_eq_iff)
  have r: "sys_call_send_recv MSG_SEND (of_nat d) msg k = Inr (kernel_leave ?k2)"
    using sys_call_eq [OF inv x, of MSG_SEND msg] s c by simp
  have len: "c < length (proc_table k1)" using k(2) ipc_wf_length [OF e(4)] by simp
  have pr: "proc ?k2 i = (if i = c then (proc k1 c)\<lparr>p_regs := (p_regs (proc k1 c))\<lparr>r_eax := 0\<rparr>\<rparr> else proc k1 i)" for i
    using upd_regs_proc [OF len] by simp
  have "kernel_inv (kernel_leave ?k2)"
    using sys_call_correct [OF inv r] by simp
  moreover have "abs_ipc (kernel_leave ?k2) = a_send c d (abs_ipc k)"
    using sys_call_correct [OF inv r] c d by auto
  moreover have "ticks (kernel_leave ?k2) = ticks k"
    using msg_send_globals [OF s] by simp
  moreover have "p_flags (proc (kernel_leave ?k2) d) = 0" using e(3) cd by (simp add: pr)
  moreover have "\<forall>i. i \<noteq> d \<longrightarrow> p_msg (proc (kernel_leave ?k2) i) = p_msg (proc k i)"
    using e(6) cd by (auto simp: pr)
  ultimately show ?thesis using r e(1,2) c by auto
qed

lemma sys_call_recv_waits:
  assumes inv: "kernel_inv k" and c: "process_ready k = c"
    and x: "src \<noteq> of_nat c" "\<not> stray_sender k src c"
    and none: "a_select src (send_queue k c) = None"
    and quiet: "\<not> (p_have_int_msg (proc k c) \<and> (src = P_ANY \<or> src = MSG_SOURCE_INTERRUPT))"
    and other: "j < TOTAL_TASK_CNT" "j \<noteq> c" "p_flags (proc k j) = 0"
  shows "\<exists>k'. sys_call_send_recv MSG_RECEIVE src msg k = Inr k' \<and> kernel_inv k' \<and>
    ticks k' = ticks k \<and> memory k' = store32 msg (of_nat c) (memory k) \<and>
    p_flags (proc k' c) = MSG_RECVING \<and> p_recv_from (proc k' c) = src \<and> p_msg (proc k' c) = msg \<and>
    (\<forall>i<TOTAL_TASK_CNT. i \<noteq> c \<longrightarrow> p_flags (proc k' i) = p_flags (proc k i))"
proof -
  note k = kernel_inv_parts [OF inv, unfolded c]
  note v = stamped_view [OF k(1), where msg = msg]
  have none': "a_select src (send_queue (stamped msg k) c) = None" using none k(2) by (simp add: v)
  have stray: "\<not> stray_sender (stamped msg k) src c" using x(2) by (simp add: stray_sender_def)
  obtain k1 where s: "msg_recv c src msg (stamped msg k) = Inr (k1, 0)"
    using msg_recv_result [OF v(1) k(2) _ x(1) stray other(1,2)] k(3) other(3) by auto
  then have q: "msg_recv_queue c src msg (stamped msg k) = Inr k1"
    using quiet by (auto simp: msg_recv_def ASSERT_Inr_iff andThen_Inr_iff)
  note e = msg_recv_blocked [OF v(1) k(2) _ none' q, simplified, OF k(3)]
  let ?k2 = "upd_proc c (\<lambda>p. p\<lparr>p_regs := (p_regs p)\<lparr>r_eax := 0\<rparr>\<rparr>) k1"
  have r: "sys_call_send_recv MSG_RECEIVE src msg k = Inr (kernel_leave ?k2)"
    using sys_call_eq [OF inv, of src MSG_RECEIVE msg] s c x by simp
  have len: "c < length (proc_table k1)" using k(2) ipc_wf_length [OF e(1)] by simp
  have pr: "proc ?k2 i = (if i = c then (proc k1 c)\<lparr>p_regs := (p_regs (proc k1 c))\<lparr>r_eax := 0\<rparr>\<rparr> else proc k1 i)" for i
    using upd_regs_proc [OF len] by simp
  have "kernel_inv (kernel_leave ?k2)" using sys_call_correct [OF inv r] by simp
  moreover have "ticks (kernel_leave ?k2) = ticks k" using msg_recv_globals [OF s] by simp
  moreover have "\<forall>i<TOTAL_TASK_CNT. i \<noteq> c \<longrightarrow> p_flags (proc (kernel_leave ?k2) i) = p_flags (proc k i)"
    using e(8) by (simp add: pr)
  ultimately show ?thesis using r e(2,4,5,6) c by (auto simp: pr)
qed

lemma sys_call_recv_blocks:
  assumes inv: "kernel_inv k" and c: "process_ready k = c" and d: "d < TOTAL_TASK_CNT" "d \<noteq> c"
    and ns: "p_flags (proc k d) = 0"
  shows "\<exists>k'. sys_call_send_recv MSG_RECEIVE (of_nat d) msg k = Inr k' \<and> kernel_inv k' \<and>
    ticks k' = ticks k \<and> memory k' = store32 msg (of_nat c) (memory k) \<and>
    accepts k' c d \<and> p_msg (proc k' c) = msg \<and> p_flags (proc k' d) = 0"
proof -
  note k = kernel_inv_parts [OF inv, unfolded c]
  have name: "of_nat d \<noteq> P_ANY" "of_nat d \<noteq> MSG_SOURCE_INTERRUPT"
    using less_TOTAL [OF d(1)] by auto
  have "d \<notin> set (send_queue k c)"
    using send_queue_members(2) [OF k(1,2)] not_sending_not_sender [of k d] ns by fastforce
  then have "a_select (of_nat d) (send_queue k c) = None"
    using name d(1) by (simp add: a_select_def)
  moreover have "of_nat d \<noteq> (of_nat c :: u32)" using d k(2) by (simp add: of_nat_u32_eq_iff)
  moreover have "\<not> stray_sender k (of_nat d) c" using d(1) by (simp add: stray_sender_def)
  ultimately show ?thesis
    using sys_call_recv_waits [OF inv c, of "of_nat d" d msg] name d ns by (auto simp: accepts_def)
qed

end
