(* ===== verification/System.thy ===== *)
theory System
  imports Syscall
begin

text \<open>
  The system as a whole: what the system call promises, fairness of the scheduler under clock
  interrupts, and the service of the system task (\<open>kernel/system.c\<close>, \<open>get_ticks\<close> of
  \<open>kernel/interrupt.c\<close>) from request to answer.
\<close>

section \<open>Message buffers\<close>

text \<open>Two buffers of 48 bytes that do not overlap.\<close>

definition apart :: "addr \<Rightarrow> addr \<Rightarrow> bool" where
  "apart a b \<longleftrightarrow> 48 \<le> unat (a - b) \<and> 48 \<le> unat (b - a)"

lemma apart_sym: "apart a b \<Longrightarrow> apart b a"
  by (simp add: apart_def)

lemma apart_not_in_block:
  assumes "apart a b" and "i < 48"
  shows "\<not> in_block (a + of_nat i) b 48"
proof
  assume "in_block (a + of_nat i) b 48"
  then obtain j where j: "j < 48" "a + of_nat i = b + of_nat j"
    using in_block_iff_offset [of 48 "a + of_nat i" b] by auto
  show False
  proof (cases "i \<le> j")
    case True
    then have "a - b = of_nat (j - i)" using j(2) by (simp add: algebra_simps)
    moreover have "unat (of_nat (j - i) :: u32) < 48"
      using j(1) by (subst unat_of_nat_u32) simp_all
    ultimately show False using assms(1) by (auto simp only: apart_def)
  next
    case False
    then have "b - a = of_nat (i - j)" using j(2) by (simp add: algebra_simps)
    moreover have "unat (of_nat (i - j) :: u32) < 48"
      using assms(2) by (subst unat_of_nat_u32) simp_all
    ultimately show False using assms(1) by (auto simp only: apart_def)
  qed
qed

lemma apart_memcpy: "apart a b \<Longrightarrow> a = b \<or> SIZEOF_MESSAGE \<le> a - b"
  by (simp add: apart_def word_le_nat_alt)

text \<open>A field, a word at an offset inside the buffer, through a copy and past other writes.\<close>

lemma field_copied:
  assumes "apart d s" and "n + 4 \<le> 48"
  shows "load32 (memcpy d s SIZEOF_MESSAGE m) (d + of_nat n) = load32 m (s + of_nat n)"
proof (rule load32_cong)
  fix i :: nat assume "i < 4"
  then have "n + i < 48" using assms(2) by simp
  then have "memcpy d s SIZEOF_MESSAGE m (d + of_nat (n + i)) = m (s + of_nat (n + i))"
    using memcpy_message(1) [OF apart_memcpy [OF assms(1)]] by blast
  then show "memcpy d s SIZEOF_MESSAGE m (d + of_nat n + of_nat i) = m (s + of_nat n + of_nat i)"
    by (simp add: add.assoc)
qed

lemma in_block_mono:
  assumes "in_block x (b + of_nat n) 4" and "n + 4 \<le> 48"
  shows "in_block x b 48"
proof -
  obtain i where i: "i < 4" "x = b + of_nat n + of_nat i"
    using assms(1) in_block_iff_offset [of 4 x "b + of_nat n"] by auto
  then show ?thesis
    using assms(2) in_block_offset [of "n + i" 48 b] by (simp add: add.assoc)
qed

lemma field_other_buffer:
  assumes "apart a b" and "n + 4 \<le> 48"
    and same: "\<And>x. \<not> in_block x b 48 \<Longrightarrow> m' x = m x"
  shows "load32 m' (a + of_nat n) = load32 m (a + of_nat n)"
proof (rule load32_cong)
  fix i :: nat assume "i < 4"
  then show "m' (a + of_nat n + of_nat i) = m (a + of_nat n + of_nat i)"
    using same apart_not_in_block [OF assms(1), of "n + i"] assms(2) by (simp add: add.assoc)
qed

lemma field_same_buffer:
  assumes "n + 4 \<le> l \<or> l + 4 \<le> n" and "n + 4 \<le> 48" and "l + 4 \<le> 48"
  shows "load32 (store32 (a + of_nat n) v m) (a + of_nat l) = load32 m (a + of_nat l)"
proof (rule load32_cong)
  fix i :: nat assume i: "i < 4"
  have "\<not> in_block (a + of_nat l + of_nat i) (a + of_nat n) 4"
  proof
    assume "in_block (a + of_nat l + of_nat i) (a + of_nat n) 4"
    then obtain j where j: "j < 4" "a + of_nat l + of_nat i = a + of_nat n + of_nat j"
      using in_block_iff_offset [of 4 "a + of_nat l + of_nat i" "a + of_nat n"] by auto
    then have "(of_nat (l + i) :: u32) = of_nat (n + j)" by (simp add: add.assoc)
    then have "l + i = n + j" using i j(1) assms(2,3) by (subst (asm) of_nat_u32_eq_iff) simp_all
    then show False using assms(1) i j(1) by linarith
  qed
  then show "store32 (a + of_nat n) v m (a + of_nat l + of_nat i) = m (a + of_nat l + of_nat i)"
    by (rule store32_frame)
qed

section \<open>Clock interrupts\<close>

text \<open>\<open>n\<close> clock interrupts while no process makes a system call.\<close>

fun clock_ticks :: "nat \<Rightarrow> kernel \<Rightarrow> kernel option" where
  "clock_ticks 0 k = Some k"
| "clock_ticks (Suc n) k = Option.bind (clock_interrupt k) (clock_ticks n)"

lemma clock_interrupt_frame:
  assumes "kernel_inv k" and "clock_interrupt k = Some k'" and "i < TOTAL_TASK_CNT"
  shows "\<exists>t. proc k' i = (proc k i)\<lparr>p_ticks := t\<rparr>"
proof -
  define k1 where "k1 = upd_proc (process_ready k) (\<lambda>p. p\<lparr>p_ticks := p_ticks p - 1\<rparr>)
    ((kernel_enter k)\<lparr>ticks := ticks k + 1\<rparr>)"
  note k = kernel_inv_parts [OF assms(1)]
  have pr: "proc k1 j = (if j = process_ready k
      then (proc k j)\<lparr>p_ticks := p_ticks (proc k j) - 1\<rparr> else proc k j)" for j
    using k(2) ipc_wf_length [OF k(1)] by (simp add: k1_def proc_upd_proc)
  have len: "length (proc_table k1) = TOTAL_TASK_CNT" using ipc_wf_length [OF k(1)] by (simp add: k1_def)
  have "clock_int_handler (kernel_enter k) =
      (if int_reenter k1 \<noteq> 0 \<or> 0 <s p_ticks (proc k1 (process_ready k1))
       then Some k1 else process_schedule k1)"
    by (simp add: clock_int_handler_def Let_def k1_def)
  then obtain k2 where k2: "k2 = k1 \<or> process_schedule k1 = Some k2" and k': "k' = kernel_leave k2"
    using assms(2) by (auto simp: clock_interrupt_def split: if_splits)
  have "(proc k2 i)\<lparr>p_ticks := 0\<rparr> = (proc k i)\<lparr>p_ticks := 0\<rparr>"
    using k2
  proof
    assume "process_schedule k1 = Some k2"
    then have "(proc k2 i)\<lparr>p_ticks := 0\<rparr> = (proc k1 i)\<lparr>p_ticks := 0\<rparr>"
      using sched.schedule_frame assms(3) len by (auto simp: same_ipc_def)
    then show ?thesis by (simp add: pr)
  qed (simp add: pr)
  then have "proc k2 i = (proc k i)\<lparr>p_ticks := p_ticks (proc k2 i)\<rparr>"
    by (metis (no_types, lifting) process.surjective process.update_convs(4))
  then show ?thesis by (auto simp: k')
qed

lemma clock_ticks_inv:
  assumes "kernel_inv k"
  shows "\<exists>k'. clock_ticks n k = Some k' \<and> kernel_inv k' \<and> abs_ipc k' = abs_ipc k \<and>
    memory k' = memory k \<and> ticks k' = ticks k + of_nat n \<and>
    (\<forall>i<TOTAL_TASK_CNT. \<exists>t. proc k' i = (proc k i)\<lparr>p_ticks := t\<rparr>)"
  using assms
proof (induction n arbitrary: k)
  case 0
  have "\<exists>t. proc k i = (proc k i)\<lparr>p_ticks := t\<rparr>" for i
    by (intro exI [of _ "p_ticks (proc k i)"]) simp
  then show ?case using 0 by simp
next
  case (Suc n)
  obtain k1 where k1: "clock_interrupt k = Some k1" "kernel_inv k1" "abs_ipc k1 = abs_ipc k"
      "memory k1 = memory k" "ticks k1 = ticks k + 1"
    using clock_interrupt_correct [OF Suc.prems] by auto
  obtain k' where k': "clock_ticks n k1 = Some k'" "kernel_inv k'" "abs_ipc k' = abs_ipc k1"
      "memory k' = memory k1" "ticks k' = ticks k1 + of_nat n"
      "\<forall>i<TOTAL_TASK_CNT. \<exists>t. proc k' i = (proc k1 i)\<lparr>p_ticks := t\<rparr>"
    using Suc.IH [OF k1(2)] by auto
  have "\<exists>t. proc k' i = (proc k i)\<lparr>p_ticks := t\<rparr>" if "i < TOTAL_TASK_CNT" for i
    using k'(6) that clock_interrupt_frame [OF Suc.prems k1(1) that] by fastforce
  then show ?case using k1 k' by (auto simp: algebra_simps)
qed


section \<open>Fairness\<close>

text \<open>
  The time slice a process still has, and what all processes that can run have together;
  \<open>round k\<close> is what a refill gives out.
\<close>

definition time_left :: "kernel \<Rightarrow> nat \<Rightarrow> nat" where
  "time_left k i = (if runnable k i then nat (sint (p_ticks (proc k i))) else 0)"

definition budget :: "kernel \<Rightarrow> nat" where
  "budget k = (\<Sum>i<TOTAL_TASK_CNT. time_left k i)"

definition round_slices :: "kernel \<Rightarrow> nat" where
  "round_slices k = (\<Sum>i<TOTAL_TASK_CNT. nat (sint (p_priority (proc k i))))"

lemma slice_pos: "0 < time_left k i \<longleftrightarrow> runnable k i \<and> 0 <s p_ticks (proc k i)"
  by (simp add: time_left_def word_sless_alt)

lemma budget_cong: "(\<And>i. i < TOTAL_TASK_CNT \<Longrightarrow> time_left k' i = time_left k i) \<Longrightarrow> budget k' = budget k"
  by (simp add: budget_def)

lemma slice_leave [simp]: "time_left (kernel_leave k) i = time_left k i"
  by (simp add: time_left_def same_table(2) [of "kernel_leave k" k])

text \<open>The clock, from a kernel that satisfies the invariant.\<close>

definition ticked :: "kernel \<Rightarrow> kernel" where
  "ticked k = upd_proc (process_ready k) (\<lambda>p. p\<lparr>p_ticks := p_ticks p - 1\<rparr>)
     ((kernel_enter k)\<lparr>ticks := ticks k + 1\<rparr>)"

lemma proc_ticked:
  assumes "kernel_inv k"
  shows "proc (ticked k) i = (if i = process_ready k
      then (proc k i)\<lparr>p_ticks := p_ticks (proc k i) - 1\<rparr> else proc k i)"
    "length (proc_table (ticked k)) = TOTAL_TASK_CNT" "process_ready (ticked k) = process_ready k"
    "runnable (ticked k) i = runnable k i"
proof -
  note k = kernel_inv_parts [OF assms]
  show *: "proc (ticked k) i = (if i = process_ready k
      then (proc k i)\<lparr>p_ticks := p_ticks (proc k i) - 1\<rparr> else proc k i)" for i
    using k(2) ipc_wf_length [OF k(1)] by (simp add: ticked_def proc_upd_proc)
  show "length (proc_table (ticked k)) = TOTAL_TASK_CNT" "process_ready (ticked k) = process_ready k"
    using ipc_wf_length [OF k(1)] by (simp_all add: ticked_def)
  then show "runnable (ticked k) i = runnable k i"
    using ipc_wf_length [OF k(1)] by (simp add: runnable_def *)
qed

lemma clock_interrupt_cases:
  assumes "kernel_inv k"
  shows "clock_interrupt k =
    (if 1 < time_left k (process_ready k) then Some (kernel_leave (ticked k))
     else map_option kernel_leave (process_schedule (ticked k)))"
proof -
  note k = kernel_inv_parts [OF assms]
  have pos: "0 <s p_ticks (proc k (process_ready k))" using k(5) by (simp add: slice_left_def)
  have "0 <s p_ticks (proc (ticked k) (process_ready (ticked k))) \<longleftrightarrow> 1 < time_left k (process_ready k)"
    using k(2,3) ipc_wf_length [OF k(1)] sint_minus_1 [OF pos]
    by (auto simp: proc_ticked [OF assms] time_left_def runnable_def word_sless_alt)
  moreover have "int_reenter (ticked k) = 0" using k(4) by (simp add: ticked_def)
  moreover have "clock_int_handler (kernel_enter k) =
      (if int_reenter (ticked k) \<noteq> 0 then Some (ticked k)
       else if 0 <s p_ticks (proc (ticked k) (process_ready (ticked k))) then Some (ticked k)
       else process_schedule (ticked k))"
    by (simp add: clock_int_handler_def ticked_def Let_def)
  ultimately show ?thesis by (simp add: clock_interrupt_def)
qed

lemma slice_ticked:
  assumes "kernel_inv k"
  shows "time_left (ticked k) i = (if i = process_ready k then time_left k i - 1 else time_left k i)"
proof -
  note k = kernel_inv_parts [OF assms]
  have pos: "0 <s p_ticks (proc k (process_ready k))" using k(5) by (simp add: slice_left_def)
  show ?thesis
    using sint_minus_1 [OF pos] by (auto simp: time_left_def proc_ticked [OF assms])
qed

lemma budget_ticked:
  assumes "kernel_inv k"
  shows "budget k = Suc (budget (ticked k))"
proof -
  note k = kernel_inv_parts [OF assms]
  let ?r = "process_ready k"
  have pos: "0 < time_left k ?r"
    using k(2,3,5) ipc_wf_length [OF k(1)] by (simp add: slice_pos runnable_def slice_left_def)
  have split: "(\<Sum>i<TOTAL_TASK_CNT. f i) = f ?r + (\<Sum>i\<in>{..<TOTAL_TASK_CNT} - {?r}. f i)"
    for f :: "nat \<Rightarrow> nat"
    using k(2) by (intro sum.remove) simp_all
  show ?thesis
    using pos by (simp add: budget_def split slice_ticked [OF assms])
qed

text \<open>While somebody has part of a slice, nobody gets a new one.\<close>

lemma clock_interrupt_spends:
  assumes inv: "kernel_inv k" and k': "clock_interrupt k = Some k'"
    and j: "0 < time_left (ticked k) j"
  shows "budget k = Suc (budget k')" "time_left k' i = time_left (ticked k) i"
    "p_priority (proc k' i) = p_priority (proc k i)"
proof -
  have "\<exists>r. k' = kernel_leave ((ticked k)\<lparr>process_ready := r\<rparr>)"
  proof (cases "1 < time_left k (process_ready k)")
    case True
    then show ?thesis using k' clock_interrupt_cases [OF inv]
      by (intro exI [of _ "process_ready (ticked k)"]) simp
  next
    case False
    obtain r where "process_schedule (ticked k) = Some ((ticked k)\<lparr>process_ready := r\<rparr>)"
      using schedule_now j by (auto simp: slice_pos)
    then show ?thesis using k' clock_interrupt_cases [OF inv] False by auto
  qed
  then obtain r where r: "k' = kernel_leave ((ticked k)\<lparr>process_ready := r\<rparr>)" by blast
  show s: "time_left k' i = time_left (ticked k) i" for i
    by (simp add: r) (simp add: time_left_def)
  show "budget k = Suc (budget k')"
    using budget_ticked [OF inv] budget_cong [of k' "ticked k"] s by simp
  show "p_priority (proc k' i) = p_priority (proc k i)"
    by (simp add: r proc_ticked [OF inv])
qed

text \<open>When all slices are spent, every process that can run gets its priority.\<close>

lemma clock_interrupt_refills:
  assumes inv: "kernel_inv k" and k': "clock_interrupt k = Some k'"
    and none: "\<And>j. time_left (ticked k) j = 0"
  shows "i < TOTAL_TASK_CNT \<Longrightarrow>
      time_left k' i = (if runnable k i then nat (sint (p_priority (proc k i))) else 0)"
proof -
  assume i: "i < TOTAL_TASK_CNT"
  let ?k = "(ticked k)\<lparr>proc_table := refill (proc_table (ticked k))\<rparr>"
  have "\<not> 1 < time_left k (process_ready k)"
    using none [of "process_ready k"] by (simp add: slice_ticked [OF inv])
  then obtain k2 where k2: "process_schedule (ticked k) = Some k2" "k' = kernel_leave k2"
    using k' clock_interrupt_cases [OF inv] by auto
  have "\<not> best (ticked k) r" for r using none [of r] slice_pos [of "ticked k" r] by (auto simp: best_def)
  then obtain r where "k2 = (ticked k)\<lparr>process_ready := r, proc_table := refill (proc_table (ticked k))\<rparr>"
    using schedule_Some [OF k2(1)] by auto
  then have "time_left k' i = time_left ?k i" by (simp add: k2(2)) (simp add: time_left_def proc_def runnable_def)
  then show ?thesis
    using i ipc_wf_length [OF kernel_inv_parts(1) [OF inv]]
    by (auto simp: time_left_def proc_refill proc_ticked [OF inv] runnable_def)
qed

lemma scheduled_within_budget:
  assumes "kernel_inv k" and "0 < time_left k i"
  shows "\<exists>n k'. n + time_left k i \<le> budget k \<and> clock_ticks n k = Some k' \<and> process_ready k' = i"
  using assms
proof (induction "budget k" arbitrary: k rule: less_induct)
  case less
  have le: "time_left k i \<le> budget k"
  proof -
    have "i < TOTAL_TASK_CNT"
      using less.prems ipc_wf_length kernel_inv_parts(1) by (fastforce simp: time_left_def runnable_def split: if_splits)
    then show ?thesis unfolding budget_def by (intro member_le_sum) simp_all
  qed
  show ?case
  proof (cases "process_ready k = i")
    case True
    then show ?thesis using le by (intro exI [of _ 0] exI [of _ k]) simp
  next
    case False
    obtain k1 where k1: "clock_interrupt k = Some k1" "kernel_inv k1"
      using clock_interrupt_correct [OF less.prems(1)] by auto
    have same: "time_left (ticked k) i = time_left k i" using False by (simp add: slice_ticked [OF less.prems(1)])
    note sp = clock_interrupt_spends [OF less.prems(1) k1(1), of i, unfolded same, OF less.prems(2)]
    obtain n k' where "n + time_left k1 i \<le> budget k1" "clock_ticks n k1 = Some k'" "process_ready k' = i"
      using less.hyps [of k1] sp(1) sp(2) [of i] same k1(2) less.prems(2) by auto
    then show ?thesis using sp(1) sp(2) [of i] same k1(1)
      by (intro exI [of _ "Suc n"] exI [of _ k']) simp
  qed
qed


lemma scheduled_eventually:
  assumes "kernel_inv k" and "runnable k i"
  shows "\<exists>n k'. n \<le> budget k + round_slices k \<and> clock_ticks n k = Some k' \<and> process_ready k' = i"
  using assms
proof (induction "budget k" arbitrary: k rule: less_induct)
  case less
  note inv = less.prems(1)
  have i: "i < TOTAL_TASK_CNT" using less.prems ipc_wf_length [OF kernel_inv_parts(1) [OF inv]]
    by (simp add: runnable_def)
  obtain k1 where k1: "clock_interrupt k = Some k1" "kernel_inv k1" "abs_ipc k1 = abs_ipc k"
    using clock_interrupt_correct [OF inv] by auto
  have wf1: "length (proc_table k1) = TOTAL_TASK_CNT" using k1(2) kernel_inv_parts(1) ipc_wf_length by blast
  have run: "runnable k1 i"
    using clock_interrupt_frame [OF inv k1(1) i] less.prems(2) i wf1 by (auto simp: runnable_def)
  have prio: "round_slices k1 = round_slices k"
    unfolding round_slices_def
    using clock_interrupt_frame [OF inv k1(1)] by (intro sum.cong refl) fastforce
  have one_more: ?case if "\<exists>n k'. Suc n \<le> budget k + round_slices k \<and> clock_ticks n k1 = Some k' \<and>
      process_ready k' = i"
    using that k1(1) by (metis bind.bind_lunit clock_ticks.simps(2))
  show ?case
  proof (cases "\<exists>j. 0 < time_left (ticked k) j")
    case True
    then have "budget k = Suc (budget k1)" using clock_interrupt_spends(1) [OF inv k1(1)] by blast
    moreover obtain n k' where "n \<le> budget k1 + round_slices k1" "clock_ticks n k1 = Some k'"
        "process_ready k' = i"
      using less.hyps [of k1] calculation k1(2) run by auto
    ultimately show ?thesis using prio by (intro one_more exI [of _ n] exI [of _ k']) simp
  next
    case False
    then have sl: "j < TOTAL_TASK_CNT \<Longrightarrow>
        time_left k1 j = (if runnable k j then nat (sint (p_priority (proc k j))) else 0)" for j
      using clock_interrupt_refills [OF inv k1(1)] by simp
    have "0 <s p_priority (proc k i)"
      using ipc_wf_proc [OF kernel_inv_parts(1) [OF inv] i] by (simp add: proc_wf_def)
    then have "0 < time_left k1 i" using sl [OF i] less.prems(2) by (simp add: word_sless_alt)
    then obtain n k' where n: "n + time_left k1 i \<le> budget k1" "clock_ticks n k1 = Some k'"
        "process_ready k' = i"
      using scheduled_within_budget [OF k1(2)] by blast
    have "budget k1 \<le> round_slices k"
      unfolding budget_def round_slices_def using sl by (intro sum_mono) simp
    then show ?thesis using n \<open>0 < time_left k1 i\<close> by (intro one_more exI [of _ n] exI [of _ k']) simp
  qed
qed


section \<open>The system task\<close>

abbreviation (input) MSG_GET_TICKS :: c_int where "MSG_GET_TICKS \<equiv> 2"

text \<open>
  \<open>get_ticks\<close>: the message it makes up, and what it returns once \<open>send_recv(MSG_BOTH)\<close> is
  over (\<open>u.m3.m3i1\<close>, at offset 8 of the message).
\<close>

definition get_ticks_message :: "addr \<Rightarrow> mem \<Rightarrow> mem" where
  "get_ticks_message msg m = store32 (msg + 4) MSG_GET_TICKS (memset msg 0 SIZEOF_MESSAGE m)"

definition get_ticks_result :: "addr \<Rightarrow> mem \<Rightarrow> c_int" where
  "get_ticks_result msg m = load32 m (msg + 8)"

text \<open>The body of \<open>sys_task\<close>'s loop after its receive, as the running process.\<close>

definition sys_task_serve :: "addr \<Rightarrow> kernel \<Rightarrow> stop + kernel" where
  "sys_task_serve msg k =
     (let src = load32 (memory k) msg
      in if load32 (memory k) (msg + 4) = MSG_GET_TICKS
         then sys_call_send_recv MSG_SEND src msg
                (k\<lparr>memory := store32 (msg + 8) (ticks k) (memory k)\<rparr>)
         else Inl (Critical ''sys_task''))"

lemma memory_inv: "kernel_inv k \<Longrightarrow> kernel_inv (k\<lparr>memory := m\<rparr>) \<and> abs_ipc (k\<lparr>memory := m\<rparr>) = abs_ipc k"
  using same_table [of "k\<lparr>memory := m\<rparr>" k] by (simp add: kernel_inv_def)

lemma store32_in_buffer:
  "n + 4 \<le> 48 \<Longrightarrow> \<not> in_block x b 48 \<Longrightarrow> store32 (b + of_nat n) v m x = m x"
  using in_block_mono [of x b n] by (intro store32_frame) blast

text \<open>The request, as the system task finds it in its own buffer.\<close>

lemma request_arrives:
  fixes c m0
  assumes "apart sm msg"
  defines "m \<equiv> memcpy sm msg SIZEOF_MESSAGE (store32 msg c (get_ticks_message msg m0))"
  shows "load32 m sm = c" "load32 m (sm + 4) = MSG_GET_TICKS"
  using field_copied [OF assms(1), of 0] field_copied [OF assms(1), of 4]
    field_same_buffer [of 0 4 msg]
  by (simp_all add: m_def get_ticks_message_def)

lemma get_ticks_service:
  assumes inv: "kernel_inv k" and c: "process_ready k = c"
    and acc: "accepts k SYSTEM_TASK c" and sm: "p_msg (proc k SYSTEM_TASK) = sm"
    and ptr: "sm \<noteq> 0" "msg \<noteq> 0" and ap: "apart sm msg"
  shows "\<exists>k1 k2. sys_call_send_recv MSG_SEND (of_nat SYSTEM_TASK) msg
       (k\<lparr>memory := get_ticks_message msg (memory k)\<rparr>) = Inr k1 \<and> process_ready k1 = c \<and>
     sys_call_send_recv MSG_RECEIVE (of_nat SYSTEM_TASK) msg k1 = Inr k2 \<and>
     (\<exists>n k3. clock_ticks n k2 = Some k3 \<and> process_ready k3 = SYSTEM_TASK) \<and>
     (\<forall>n k3. clock_ticks n k2 = Some k3 \<and> process_ready k3 = SYSTEM_TASK \<longrightarrow>
        (\<exists>k4. sys_task_serve sm k3 = Inr k4 \<and> a_status (abs_ipc k4) c = Ready \<and>
           get_ticks_result msg (memory k4) = ticks k + of_nat n))"
proof -
  let ?m0 = "get_ticks_message msg (memory k)"
  note inv0 = memory_inv [OF inv, of ?m0]
  have ci: "c < TOTAL_TASK_CNT" "p_flags (proc k c) = 0" using kernel_inv_parts [OF inv] c by simp_all
  have c1: "SYSTEM_TASK \<noteq> c" using acc ci by (auto simp: accepts_def)
  obtain k1 where k1: "sys_call_send_recv MSG_SEND (of_nat SYSTEM_TASK) msg (k\<lparr>memory := ?m0\<rparr>) = Inr k1"
      "kernel_inv k1" "process_ready k1 = c" "ticks k1 = ticks k"
      "memory k1 = memcpy sm msg SIZEOF_MESSAGE (store32 msg (of_nat c) ?m0)"
      "p_flags (proc k1 SYSTEM_TASK) = 0"
    using sys_call_send_direct [of "k\<lparr>memory := ?m0\<rparr>" c SYSTEM_TASK msg] inv0 c acc sm ptr
    by (auto simp: accepts_def)
  obtain k2 where k2: "sys_call_send_recv MSG_RECEIVE (of_nat SYSTEM_TASK) msg k1 = Inr k2"
      "kernel_inv k2" "ticks k2 = ticks k" "memory k2 = store32 msg (of_nat c) (memory k1)"
      "accepts k2 c SYSTEM_TASK" "p_msg (proc k2 c) = msg" "p_flags (proc k2 SYSTEM_TASK) = 0"
    using sys_call_recv_blocks [OF k1(2,3), of SYSTEM_TASK msg] k1(4,6) c1 by auto
  have "runnable k2 SYSTEM_TASK"
    using k2(7) ipc_wf_length [OF kernel_inv_parts(1) [OF k2(2)]] by (simp add: runnable_def)
  then have eventually: "\<exists>n k3. clock_ticks n k2 = Some k3 \<and> process_ready k3 = SYSTEM_TASK"
    using scheduled_eventually [OF k2(2)] by blast
  have served: "\<exists>k4. sys_task_serve sm k3 = Inr k4 \<and> a_status (abs_ipc k4) c = Ready \<and>
      get_ticks_result msg (memory k4) = ticks k + of_nat n"
    if run: "clock_ticks n k2 = Some k3" "process_ready k3 = SYSTEM_TASK" for n k3
  proof -
    have k3: "kernel_inv k3" "memory k3 = memory k2" "ticks k3 = ticks k + of_nat n"
        "\<exists>t. proc k3 c = (proc k2 c)\<lparr>p_ticks := t\<rparr>"
      using clock_ticks_inv [OF k2(2), of n] run(1) k2(3) ci(1) by auto
    have got: "load32 (memory k3) sm = of_nat c" "load32 (memory k3) (sm + 4) = MSG_GET_TICKS"
      using request_arrives [OF ap, of "of_nat c" "memory k"]
        field_other_buffer [OF ap, of 0 "memory k2" "memory k1"]
        field_other_buffer [OF ap, of 4 "memory k2" "memory k1"]
        store32_in_buffer [of 0 _ msg]
      by (simp_all add: k1(5) k2(4) k3(2))
    let ?k = "k3\<lparr>memory := store32 (sm + 8) (ticks k3) (memory k3)\<rparr>"
    have "accepts ?k c SYSTEM_TASK" "p_msg (proc ?k c) = msg"
      using k3(4) k2(5,6) by (auto simp: accepts_def)
    then obtain k4 where k4: "sys_call_send_recv MSG_SEND (of_nat c) sm ?k = Inr k4"
        "abs_ipc k4 = a_send SYSTEM_TASK c (abs_ipc ?k)"
        "memory k4 = memcpy msg sm SIZEOF_MESSAGE (store32 sm (of_nat SYSTEM_TASK) (memory ?k))"
      using sys_call_send_direct [of ?k SYSTEM_TASK c sm] memory_inv [OF k3(1)] run(2) ci(1) ptr
      by auto
    have "load32 (memory k4) (msg + 8) = ticks k3"
      using field_copied [OF apart_sym [OF ap], of 8] field_same_buffer [of 0 8 sm]
      by (simp add: k4(3))
    moreover have "a_status (abs_ipc k4) c = Ready"
      using \<open>accepts ?k c SYSTEM_TASK\<close> wants_abs [OF ci(1), of ?k SYSTEM_TASK]
        kernel_inv_parts(1) memory_inv [OF k3(1)]
      by (auto simp: k4(2) a_send_def)
    ultimately show ?thesis
      using k4(1) got k3(3) by (simp add: sys_task_serve_def get_ticks_result_def)
  qed
  show ?thesis using k1(1,3) k2(1) eventually served by blast
qed


section \<open>A concrete run\<close>

text \<open>The sample kernel once it runs, with the system task as the current process.\<close>

definition sample_runs :: "nat \<Rightarrow> kernel" where
  "sample_runs t = (kernel_leave sample_boot)\<lparr>process_ready := t\<rparr>"

lemma sample_ticks: "i < TOTAL_TASK_CNT \<Longrightarrow> 0 <s p_ticks (proc sample_boot i)"
  by (simp add: sample_boot_def boot_process_fields word_sless_alt)

lemma sample_int_reenter [simp]: "int_reenter sample_boot = 0"
  by (simp add: sample_boot_def)

lemma sample_running: "kernel_inv (kernel_leave sample_boot)"
  using same_table [of "kernel_leave sample_boot" sample_boot] sample_ticks [of 0]
    ipc_wf_length [OF sample_boot_simps(1)]
  by (simp add: kernel_inv_def runnable_def slice_left_def)

lemma sample_runs_inv:
  assumes "t < TOTAL_TASK_CNT"
  shows "kernel_inv (sample_runs t)" and "abs_ipc (sample_runs t) = abs_ipc sample_boot"
  using same_table [of "sample_runs t" sample_boot] sample_ticks [OF assms] assms
    ipc_wf_length [OF sample_boot_simps(1)]
  by (simp_all add: sample_runs_def kernel_inv_def runnable_def slice_left_def)

definition sample_run :: kernel where
  "sample_run = (kernel_leave sample_boot)\<lparr>process_ready := SYSTEM_TASK\<rparr>"

lemma sample_run_inv: "kernel_inv sample_run" "abs_ipc sample_run = abs_ipc sample_boot"
  using sample_runs_inv [of SYSTEM_TASK] by (simp_all add: sample_run_def sample_runs_def)

text \<open>A task that waits for a request of anybody.\<close>

lemma sample_waiting_task:
  assumes "t < TOTAL_TASK_CNT" and "t \<noteq> 0"
  obtains k where "kernel_inv k" "accepts k t (process_ready k)" "p_msg (proc k t) = 0x2000" "process_ready k \<noteq> t"
proof -
  note inv = sample_runs_inv [OF assms(1)]
  have e: "send_queue (sample_runs t) t = []" "\<not> p_have_int_msg (proc (sample_runs t) t)"
    using arg_cong [OF inv(2), of "\<lambda>a. a_queue a t"] arg_cong [OF inv(2), of "\<lambda>a. a_pending a t"] assms(1)
    by (simp_all add: abs_ipc_def [of "sample_runs t"])
  have "p_flags (proc (sample_runs t) 0) = 0" by (simp add: sample_runs_def)
  moreover have "process_ready (sample_runs t) = t" by (simp add: sample_runs_def)
  moreover have "P_ANY \<noteq> of_nat t" using less_TOTAL [OF assms(1)] by auto
  ultimately obtain k where k: "kernel_inv k" "p_flags (proc k t) = MSG_RECVING"
      "p_recv_from (proc k t) = P_ANY" "p_msg (proc k t) = 0x2000"
    using sys_call_recv_waits [OF inv(1), of t P_ANY 0 "0x2000"] e assms
    by (auto simp: stray_sender_def a_select_def)
  moreover have "process_ready k \<noteq> t" using kernel_inv_parts(3) [OF k(1)] k(2) by auto
  ultimately show thesis using that [of k] by (simp add: accepts_def)
qed

section \<open>Properties\<close>

text \<open>
  C4. A system call that comes back is a send or a receive, keeps the invariant, and acts on
  the abstract state as the rendezvous machine's operation for the process that made it.
\<close>

theorem sys_call_refines:
  assumes "kernel_inv k" and "sys_call_send_recv func src_dest msg k = Inr k'"
  shows "kernel_inv k' \<and>
    (func = MSG_SEND \<and> abs_ipc k' = a_send (process_ready k) (unat src_dest) (abs_ipc k) \<or>
     func = MSG_RECEIVE \<and> abs_ipc k' = a_recv (process_ready k) src_dest (abs_ipc k))"
  using assms by (rule sys_call_correct)

theorem sys_call_refines_witness:
  "\<exists>k'. sys_call_send_recv MSG_RECEIVE 5 0x2000 (kernel_leave sample_boot) = Inr k' \<and>
     a_status (abs_ipc k') 0 = Receiving 5"
proof -
  have ab: "abs_ipc (kernel_leave sample_boot) = abs_ipc sample_boot"
    using same_table(1) [of "kernel_leave sample_boot" sample_boot] by simp
  obtain k' where r: "sys_call_send_recv MSG_RECEIVE (of_nat 5) 0x2000 (kernel_leave sample_boot) = Inr k'"
    using sys_call_recv_blocks [OF sample_running, of 0 5 "0x2000"] by auto
  show ?thesis
    using sys_call_refines [OF sample_running r] r by (auto simp: ab a_recv_def a_select_def)
qed

text \<open>
  The clock interrupt of a running system always comes back, keeps the invariant and
  the state of all messages and buffers, and counts the tick.
\<close>

theorem clock_interrupt_returns:
  assumes "kernel_inv k"
  shows "\<exists>k'. clock_interrupt k = Some k' \<and> kernel_inv k' \<and> abs_ipc k' = abs_ipc k \<and>
    ticks k' = ticks k + 1 \<and> memory k' = memory k"
  using assms by (rule clock_interrupt_correct)

theorem clock_interrupt_returns_witness:
  "\<exists>k'. clock_interrupt (kernel_leave sample_boot) = Some k' \<and> ticks k' = 1"
  using clock_interrupt_returns [OF sample_running] by (auto simp: sample_boot_def)

text \<open>
  C6. No process that can run starves: while processes only compute, each of them becomes
  the current one after at most as many clock interrupts as there are slices left, plus one
  round of refilled slices.
\<close>

theorem fair_scheduling:
  assumes "kernel_inv k" and "runnable k i"
  shows "\<exists>n k'. n \<le> budget k + round_slices k \<and> clock_ticks n k = Some k' \<and> process_ready k' = i"
  using assms by (rule scheduled_eventually)

theorem fair_scheduling_witness:
  "\<exists>n k'. clock_ticks n (kernel_leave sample_boot) = Some k' \<and> process_ready k' = 6"
proof -
  have "runnable (kernel_leave sample_boot) 6"
    using ipc_wf_length [OF sample_boot_simps(1)] by (simp add: runnable_def)
  then show ?thesis using fair_scheduling [OF sample_running] by blast
qed

text \<open>
  C5. \<open>get_ticks\<close> is answered: when the system task waits for a request, the caller's send
  is delivered at once and its receive blocks; the system task is scheduled after some clock
  interrupts, and whenever that happens its answer goes through, makes the caller ready and
  leaves in the caller's message the tick count of that moment.
\<close>

theorem get_ticks_answered:
  assumes "kernel_inv k" and "process_ready k = c"
    and "accepts k SYSTEM_TASK c" and "p_msg (proc k SYSTEM_TASK) = sm"
    and "sm \<noteq> 0" and "msg \<noteq> 0" and "apart sm msg"
  shows "\<exists>k1 k2. sys_call_send_recv MSG_SEND (of_nat SYSTEM_TASK) msg
       (k\<lparr>memory := get_ticks_message msg (memory k)\<rparr>) = Inr k1 \<and> process_ready k1 = c \<and>
     sys_call_send_recv MSG_RECEIVE (of_nat SYSTEM_TASK) msg k1 = Inr k2 \<and>
     (\<exists>n k3. clock_ticks n k2 = Some k3 \<and> process_ready k3 = SYSTEM_TASK) \<and>
     (\<forall>n k3. clock_ticks n k2 = Some k3 \<and> process_ready k3 = SYSTEM_TASK \<longrightarrow>
        (\<exists>k4. sys_task_serve sm k3 = Inr k4 \<and> a_status (abs_ipc k4) c = Ready \<and>
           get_ticks_result msg (memory k4) = ticks k + of_nat n))"
  using assms by (rule get_ticks_service)

theorem get_ticks_answered_witness:
  "\<exists>k n k3 k4. accepts k SYSTEM_TASK (process_ready k) \<and> process_ready k3 = SYSTEM_TASK \<and>
     sys_task_serve 0x2000 k3 = Inr k4 \<and>
     get_ticks_result 0x9000 (memory k4) = ticks k + of_nat n"
proof -
  obtain k where k: "kernel_inv k" "accepts k SYSTEM_TASK (process_ready k)"
      "p_msg (proc k SYSTEM_TASK) = 0x2000"
    by (rule sample_waiting_task [of SYSTEM_TASK]) simp_all
  have "apart 0x2000 0x9000" by (simp add: apart_def)
  then show ?thesis
    using get_ticks_answered [OF k(1) refl k(2,3), of "0x9000"] k(2) by (simp; blast)
qed

end
