(* ===== verification/Lib_Common.thy ===== *)
theory Lib_Common
  imports Lib_String
begin

text \<open>
  The library \<open>lib/common.c\<close>: numbers to text and back (\<open>itoa_base\<close>, \<open>atoi\<close>), the formatted
  output of \<open>vsprintf\<close>, and the messages written straight to the screen (\<open>show_msg_ext\<close>).
  Strings, the format and the arguments lie in the byte memory, and the loops over them end
  with a zero byte or not at all, so they are \<open>partial_function\<close>s.
\<close>

section \<open>Messages on the boot screen\<close>

text \<open>\<open>position\<close> is a byte offset into the video segment that \<open>gs\<close> selects.\<close>

record screen =
  position :: u32
  video :: "u32 \<Rightarrow> u8"

definition show_char :: "u8 \<Rightarrow> u16 \<Rightarrow> screen \<Rightarrow> screen" where
  "show_char c color s =
     (if c = 10 then s\<lparr>position := (position s div 160 + 1) * 160\<rparr>
      else
        (let value = (if color \<noteq> 0 then ucast (push_bit 8 (ucast color :: c_int) OR scast c)
                      else ucast ((0xf00 :: c_int) OR scast c)) :: u16
         in s\<lparr>position := position s + 2,
              video := (video s)(position s := ucast value, position s + 1 := ucast (drop_bit 8 value))\<rparr>))"

partial_function (option) show_msg_ext :: "mem \<Rightarrow> addr \<Rightarrow> u16 \<Rightarrow> screen \<Rightarrow> screen option" where
  "show_msg_ext m c color s =
     (if m c \<noteq> 0 then show_msg_ext m (c + 1) color (show_char (m c) color s) else Some s)"

definition show_msg :: "mem \<Rightarrow> addr \<Rightarrow> screen \<Rightarrow> screen option" where
  "show_msg m msg s = show_msg_ext m msg 0 s"

section \<open>Numbers to text\<close>

partial_function (option) reverse_loop :: "addr \<Rightarrow> c_int \<Rightarrow> c_int \<Rightarrow> mem \<Rightarrow> mem option" where
  "reverse_loop s i j m =
     (if i <s j then reverse_loop s (i + 1) (j - 1) (m(s + i := m (s + j), s + j := m (s + i)))
      else Some m)"

definition reverse :: "addr \<Rightarrow> mem \<Rightarrow> mem option" where
  "reverse s m =
     (case strlen m s of None \<Rightarrow> None | Some n \<Rightarrow> reverse_loop s 0 (n - 1) m)"

text \<open>\<open>idiv\<close> faults where the quotient is no \<open>int\<close>.\<close>

definition idiv_faults :: "c_int \<Rightarrow> c_int \<Rightarrow> bool" where
  "idiv_faults a b \<longleftrightarrow> b = 0 \<or> a = 0x80000000 \<and> b = - 1"

definition digit_char :: "c_int \<Rightarrow> u8" where
  "digit_char c = ucast (if c <s 10 then c + 48 else c + 97 - 10)"

partial_function (option) itoa_loop ::
  "addr \<Rightarrow> c_int \<Rightarrow> c_int \<Rightarrow> c_int \<Rightarrow> mem \<Rightarrow> (stop + c_int \<times> mem) option" where
  "itoa_loop dest radix i value m =
     (if value = 0 then Some (Inr (i, m))
      else if idiv_faults value radix then Some (Inl Divide_error)
      else itoa_loop dest radix (i + 1) (c_div value radix) (m(dest + i := digit_char (c_mod value radix))))"

definition itoa_base :: "c_int \<Rightarrow> addr \<Rightarrow> c_int \<Rightarrow> mem \<Rightarrow> stop + mem" where
  "itoa_base value dest radix m =
     (let positive = \<not> value <s 0; value = (if value <s 0 then - value else value) in
      andThen (returns_or_stops (itoa_loop dest radix 0 value m)) (\<lambda>(i, m).
      let (i, m) = (if \<not> positive then (i + 1, m(dest + i := 45)) else (i, m));
          (i, m) = (if i = 0 then (i + 1, m(dest + i := 48)) else (i, m));
          m = m(dest + i := 0)
      in returns (reverse dest m)))"

definition itoa :: "c_int \<Rightarrow> addr \<Rightarrow> mem \<Rightarrow> stop + mem" where
  "itoa value dest m = itoa_base value dest 10 m"

section \<open>Text to numbers\<close>

partial_function (option) atoi_loop :: "mem \<Rightarrow> addr \<Rightarrow> c_int \<Rightarrow> c_int option" where
  "atoi_loop m s num = (if m s \<noteq> 0 then atoi_loop m (s + 1) (num * 10 + (scast (m s) - 48)) else Some num)"

definition atoi :: "mem \<Rightarrow> addr \<Rightarrow> c_int option" where
  "atoi m s =
     (if m s = 45 then map_option (\<lambda>num. num OR 0x80000000) (atoi_loop m (s + 1) 0)
      else if m s = 43 then atoi_loop m (s + 1) 0
      else atoi_loop m s 0)"

section \<open>Formatted output\<close>

text \<open>The width: decimal digits of the format, from \<open>fmt\<close> on.\<close>

partial_function (option) read_align :: "mem \<Rightarrow> addr \<Rightarrow> c_int \<Rightarrow> (c_int \<times> addr) option" where
  "read_align m fmt align =
     (if 48 \<le> m fmt \<and> m fmt \<le> 57 then read_align m (fmt + 1) (align * 10 + (scast (m fmt) - 48))
      else Some (align, fmt))"

text \<open>The \<open>switch\<close>: the argument's text in \<open>tmp\<close>, and the next argument.\<close>

definition convert :: "addr \<Rightarrow> u8 \<Rightarrow> addr \<Rightarrow> mem \<Rightarrow> stop + addr \<times> mem" where
  "convert tmp c arg m =
     (if c = 120 then andThen (itoa_base (load32 m arg) tmp 16 m) (\<lambda>m. Inr (arg + 4, m))
      else if c = 100 then andThen (itoa (load32 m arg) tmp m) (\<lambda>m. Inr (arg + 4, m))
      else if c = 99 then Inr (arg + 4, m(tmp := m arg))
      else if c = 115 then andThen (returns (strcpy tmp (load32 m arg) m)) (\<lambda>m. Inr (arg + 4, m))
      else Inr (arg, m))"

text \<open>The \<open>for\<close> loop over \<open>j\<close> asks for the length of \<open>tmp\<close> in each round.\<close>

partial_function (option) fill_loop :: "addr \<Rightarrow> u8 \<Rightarrow> c_int \<Rightarrow> c_int \<Rightarrow> addr \<Rightarrow> mem \<Rightarrow> (addr \<times> mem) option" where
  "fill_loop tmp fill_ch align j p m =
     (case strlen m tmp of
        None \<Rightarrow> None
      | Some n \<Rightarrow>
          if j <s align - n then fill_loop tmp fill_ch align (j + 1) (p + 1) (m(p := fill_ch))
          else Some (p, m))"

definition append_padded :: "addr \<Rightarrow> u8 \<Rightarrow> c_int \<Rightarrow> addr \<Rightarrow> mem \<Rightarrow> (addr \<times> mem) option" where
  "append_padded tmp fill_ch align p m =
     Option.bind (strlen m tmp) (\<lambda>n.
     Option.bind (if n <s align then fill_loop tmp fill_ch align 0 p m else Some (p, m)) (\<lambda>(p, m).
     Option.bind (strcpy p tmp m) (\<lambda>m.
     Option.bind (strlen m tmp) (\<lambda>n. Some (p + n, m)))))"

text \<open>A conversion from the character behind the percent sign on: the rest of the format, the next
  argument, the end of the output and the memory.\<close>

definition format_item :: "addr \<Rightarrow> addr \<Rightarrow> addr \<Rightarrow> addr \<Rightarrow> mem \<Rightarrow> stop + addr \<times> addr \<times> addr \<times> mem" where
  "format_item tmp p fmt arg m =
     (let (fill_ch, fmt) = (if m fmt = 48 then (48, fmt + 1) else (32, fmt)) in
      andThen (returns (read_align m fmt 0)) (\<lambda>(align, fmt).
      andThen (convert tmp (m fmt) arg m) (\<lambda>(arg, m).
      andThen (returns (append_padded tmp fill_ch align p m)) (\<lambda>(p, m).
        Inr (p, fmt, arg, m)))))"

text \<open>The outer loop. \<open>tmp\<close> is the address of the local array, cleared in every round.\<close>

partial_function (option) vsprintf_loop ::
  "addr \<Rightarrow> addr \<Rightarrow> addr \<Rightarrow> addr \<Rightarrow> mem \<Rightarrow> (stop + addr \<times> mem) option" where
  "vsprintf_loop tmp p fmt arg m =
     (if m fmt = 0 then Some (Inr (p, m))
      else
        (let m = memset tmp 0 256 m in
         if m fmt \<noteq> 37 then vsprintf_loop tmp (p + 1) (fmt + 1) arg (m(p := m fmt))
         else if m (fmt + 1) = 37 then vsprintf_loop tmp (p + 1) (fmt + 2) arg (m(p := 37))
         else (case format_item tmp p (fmt + 1) arg m of
                 Inl e \<Rightarrow> Some (Inl e)
               | Inr (p, fmt, arg, m) \<Rightarrow> vsprintf_loop tmp p (fmt + 1) arg m)))"

definition vsprintf :: "addr \<Rightarrow> addr \<Rightarrow> addr \<Rightarrow> addr \<Rightarrow> mem \<Rightarrow> stop + c_int \<times> mem" where
  "vsprintf tmp buf fmt args m =
     andThen (returns_or_stops (vsprintf_loop tmp buf fmt args m)) (\<lambda>(p, m).
       Inr (p - buf, m(p := 0)))"

section \<open>Waiting\<close>

text \<open>
  \<open>delay\<close>: the argument list holds the values \<open>get_ticks\<close> will give; what is left of it is
  returned, and a wait beyond its end does not return.
\<close>

fun delay_loop :: "c_int \<Rightarrow> c_int \<Rightarrow> c_int list \<Rightarrow> c_int list option" where
  "delay_loop milli t [] = None"
| "delay_loop milli t (now # ts) =
     (if c_div ((now - t) * 1000) 100 <s milli then delay_loop milli t ts else Some ts)"

fun delay :: "c_int \<Rightarrow> c_int list \<Rightarrow> c_int list option" where
  "delay milli [] = None"
| "delay milli (t # ts) = delay_loop milli t ts"

section \<open>Small numbers\<close>

lemma sint_of_nat: "n < 2147483648 \<Longrightarrow> sint (of_nat n :: c_int) = int n"
  using sint_small [of "of_nat n"] by simp

lemma of_nat_sless: "i < 2147483648 \<Longrightarrow> j < 2147483648 \<Longrightarrow> (of_nat i :: c_int) <s of_nat j \<longleftrightarrow> i < j"
  by (simp add: word_sless_alt sint_of_nat)

lemma of_nat_diff_1: "0 < j \<Longrightarrow> (of_nat j :: c_int) - 1 = of_nat (j - 1)"
  by (cases j) simp_all

section \<open>Bytes written one after the other\<close>

definition put_bytes :: "addr \<Rightarrow> nat \<Rightarrow> u8 list \<Rightarrow> mem \<Rightarrow> mem" where
  "put_bytes d i xs m =
     (\<lambda>x. if i \<le> unat (x - d) \<and> unat (x - d) < i + length xs then xs ! (unat (x - d) - i) else m x)"

lemma put_bytes_Nil [simp]: "put_bytes d i [] m = m"
  by (auto simp: put_bytes_def fun_eq_iff)

lemma put_bytes_Cons:
  assumes "i < 4294967296"
  shows "put_bytes d (Suc i) xs (m(d + of_nat i := x)) = put_bytes d i (x # xs) m"
proof
  fix a
  have "a = d + of_nat i \<longleftrightarrow> unat (a - d) = i" using unat_diff_eq_iff [OF assms, of a d] by simp
  then show "put_bytes d (Suc i) xs (m(d + of_nat i := x)) a = put_bytes d i (x # xs) m a"
    by (auto simp: put_bytes_def nth_Cons' not_less_eq_eq)
qed

lemma put_bytes_append:
  assumes "i + length xs < 4294967296"
  shows "put_bytes d i (xs @ [y]) m = (put_bytes d i xs m)(d + of_nat (i + length xs) := y)"
proof
  fix a
  have "a = d + of_nat (i + length xs) \<longleftrightarrow> unat (a - d) = i + length xs"
    using unat_diff_eq_iff [OF assms, of a d] by simp
  then show "put_bytes d i (xs @ [y]) m a = ((put_bytes d i xs m)(d + of_nat (i + length xs) := y)) a"
    by (auto simp: put_bytes_def nth_append)
qed

lemma put_bytes_frame: "\<not> in_block x d (i + length xs) \<Longrightarrow> put_bytes d i xs m x = m x"
  by (simp add: put_bytes_def in_block_def)

lemma cstring_put_bytes:
  assumes "length xs < 4294967295" and "0 \<notin> set xs"
  shows "cstring (put_bytes d 0 (xs @ [0]) m) d xs"
  using assms by (auto simp: cstring_nth put_bytes_def nth_append)

text \<open>Two runs of bytes in a row.\<close>

lemma put_bytes_put_bytes:
  assumes "length xs + length ys \<le> 4294967296" and "length xs < 4294967296"
  shows "put_bytes (p + of_nat (length xs)) 0 ys (put_bytes p 0 xs m) = put_bytes p 0 (xs @ ys) m"
proof
  fix x
  have d: "x - (p + of_nat (length xs)) = (x - p) - of_nat (length xs)" by (simp add: algebra_simps)
  have "unat (x - (p + of_nat (length xs))) < length ys \<longleftrightarrow>
      length xs \<le> unat (x - p) \<and> unat (x - p) < length xs + length ys"
    unfolding d by (rule unat_diff_less_iff [OF assms])
  moreover have "unat (x - (p + of_nat (length xs))) = unat (x - p) - length xs" if "length xs \<le> unat (x - p)"
    unfolding d using that assms(2) by (simp add: unat_sub word_le_nat_alt)
  ultimately show "put_bytes (p + of_nat (length xs)) 0 ys (put_bytes p 0 xs m) x = put_bytes p 0 (xs @ ys) m x"
    by (auto simp: put_bytes_def nth_append)
qed

lemma put_bytes_at: "i < length xs \<Longrightarrow> i < 4294967296 \<Longrightarrow> put_bytes p 0 xs m (p + of_nat i) = xs ! i"
  by (simp add: put_bytes_def)

section \<open>Text on the boot screen\<close>

text \<open>A string shown with a colour, and the bytes it puts on the screen when it has no newline.\<close>

definition show_text :: "u8 list \<Rightarrow> u16 \<Rightarrow> screen \<Rightarrow> screen" where
  "show_text xs color s = fold (\<lambda>c. show_char c color) xs s"

definition text_cells :: "u16 \<Rightarrow> u8 list \<Rightarrow> u8 list" where
  "text_cells color xs = concat (map (\<lambda>x. [x, if color \<noteq> 0 then ucast color else 0x0f]) xs)"

lemma show_msg_ext_cstring: "cstring m c xs \<Longrightarrow> show_msg_ext m c color s = Some (show_text xs color s)"
proof (induction xs arbitrary: c s)
  case Nil
  then show ?case by (subst show_msg_ext.simps) (simp add: show_text_def)
next
  case (Cons x xs)
  then show ?case using Cons.IH [of "c + 1" "show_char x color s"]
    by (subst show_msg_ext.simps) (simp add: show_text_def)
qed

lemma show_text_append: "show_text (xs @ ys) color s = show_text ys color (show_text xs color s)"
  by (simp add: show_text_def)

lemma show_text_newline: "show_text [10] color s = s\<lparr>position := (position s div 160 + 1) * 160\<rparr>"
  by (simp add: show_text_def show_char_def)

lemma text_cells_simps:
  "text_cells color [] = []"
  "text_cells color (x # xs) = x # (if color \<noteq> 0 then ucast color else 0x0f) # text_cells color xs"
  by (simp_all add: text_cells_def)

lemma length_text_cells [simp]: "length (text_cells color xs) = 2 * length xs"
  by (induction xs) (simp_all add: text_cells_simps)

text \<open>The characters the code's own messages and numbers consist of.\<close>

definition plain :: "u8 list \<Rightarrow> bool" where
  "plain xs \<longleftrightarrow> (\<forall>x\<in>set xs. x \<noteq> 10 \<and> \<not> bit x 7)"

lemma show_char_plain:
  assumes "x \<noteq> 10" and "\<not> bit x 7"
  shows "show_char x color s = s\<lparr>position := position s + 2,
    video := put_bytes (position s) 0 (text_cells color [x]) (video s)\<rparr>"
proof -
  have sx: "scast x = (ucast x :: c_int)"
  proof (rule bit_word_eqI)
    fix n assume n: "n < LENGTH(32)"
    show "bit (scast x :: c_int) n = bit (ucast x :: c_int) n"
    proof (cases "n < 7")
      case False
      then have "\<not> bit x n" using assms(2) bit_imp_le_length [of x n] by (cases "n = 7") auto
      then show ?thesis using False n assms(2) by (auto simp: bit_simps min_def)
    qed (use n in \<open>simp add: bit_simps\<close>)
  qed
  have lo: "ucast (ucast (c OR ucast x :: c_int) :: u16) = x" if "\<And>n. n < 8 \<Longrightarrow> \<not> bit c n" for c
    using that by (intro bit_word_eqI) (auto simp: bit_simps)
  have hi: "ucast (drop_bit 8 (ucast (c OR ucast x :: c_int) :: u16)) = (ucast (drop_bit 8 c) :: u8)" for c
    by (intro bit_word_eqI) (auto simp: bit_simps dest: bit_imp_le_length)
  have p: "m(p := a, p + 1 := b) = put_bytes p 0 [a, b] m" for p m and a b :: u8
    using put_bytes_Cons [of 0 p "[b]" m a] put_bytes_Cons [of 1 p "[]" "m(p := a)" b] by simp
  have "ucast (drop_bit 8 (push_bit 8 (ucast color :: c_int))) = (ucast color :: u8)"
    by (intro bit_word_eqI) (auto simp: bit_simps)
  moreover have "\<not> bit (push_bit 8 (ucast color) :: c_int) n" if "n < 8" for n
    using that by (simp add: bit_push_bit_iff)
  moreover have "\<not> bit (0xf00 :: c_int) n" if "n < 8" for n
    using that by (auto simp: eval_nat_numeral less_Suc_eq)
  ultimately have "ucast (ucast (push_bit 8 (ucast color) OR ucast x :: c_int) :: u16) = x"
    "ucast (ucast (0xf00 OR ucast x :: c_int) :: u16) = x"
    "ucast (drop_bit 8 (ucast (push_bit 8 (ucast color) OR ucast x :: c_int) :: u16)) = (ucast color :: u8)"
    "ucast (drop_bit 8 (ucast (0xf00 OR ucast x :: c_int) :: u16)) = (0x0f :: u8)"
    using lo [of "push_bit 8 (ucast color)"] lo [of "0xf00"] by (simp_all add: hi)
  then show ?thesis
    using assms(1) by (simp add: show_char_def sx p text_cells_simps Let_def)
qed

lemma show_text_plain:
  assumes "plain xs" and "2 * length xs < 4294967296"
  shows "show_text xs color s = s\<lparr>position := position s + of_nat (2 * length xs),
    video := put_bytes (position s) 0 (text_cells color xs) (video s)\<rparr>"
  using assms
proof (induction xs arbitrary: s)
  case Nil
  then show ?case by (simp add: show_text_def text_cells_simps)
next
  case (Cons x xs)
  have x: "show_char x color s = s\<lparr>position := position s + 2,
      video := put_bytes (position s) 0 (text_cells color [x]) (video s)\<rparr>"
    using Cons.prems(1) by (intro show_char_plain) (simp_all add: plain_def)
  have "text_cells color (x # xs) = text_cells color [x] @ text_cells color xs" by (simp add: text_cells_simps)
  then have "put_bytes (position s + 2) 0 (text_cells color xs) (put_bytes (position s) 0 (text_cells color [x]) (video s))
      = put_bytes (position s) 0 (text_cells color (x # xs)) (video s)"
    using put_bytes_put_bytes [of "text_cells color [x]" "text_cells color xs" "position s" "video s"] Cons.prems(2)
    by simp
  moreover have "show_text (x # xs) color s = show_text xs color (show_char x color s)" by (simp add: show_text_def)
  ultimately show ?case
    using Cons.IH [of "show_char x color s"] Cons.prems by (simp add: x plain_def algebra_simps)
qed

text \<open>Texts without a newline one after the other, for instance in two colours.\<close>

definition at_text :: "u32 \<Rightarrow> u8 list \<Rightarrow> screen \<Rightarrow> screen" where
  "at_text p bs s = s\<lparr>position := p + of_nat (length bs), video := put_bytes p 0 bs (video s)\<rparr>"

lemma at_text_show:
  assumes "plain xs" and "length bs + 2 * length xs < 4294967296"
  shows "show_text xs color (at_text p bs s) = at_text p (bs @ text_cells color xs) s"
  using show_text_plain [OF assms(1), of color "at_text p bs s"]
    put_bytes_put_bytes [of bs "text_cells color xs" p "video s"] assms(2)
  by (simp add: at_text_def add.assoc)

lemma at_text_start: "s = at_text (position s) [] s"
  by (simp add: at_text_def)

section \<open>Turning a string round\<close>

lemma reverse_loop_eq:
  assumes "i \<le> Suc j" and "j < 2147483647"
  shows "reverse_loop s (of_nat i) (of_nat j) m =
    Some (\<lambda>x. if i \<le> unat (x - s) \<and> unat (x - s) \<le> j then m (s + of_nat (i + j - unat (x - s))) else m x)"
  using assms
proof (induction "j - i" arbitrary: i j m rule: less_induct)
  case less
  have at: "x = s + of_nat k \<longleftrightarrow> unat (x - s) = k" if "k < 4294967296" for x k
    using unat_diff_eq_iff [OF that, of x s] by simp
  show ?case
  proof (cases "i < j")
    case False
    then have "\<not> (of_nat i :: c_int) <s of_nat j" using less.prems by (subst of_nat_sless) simp_all
    moreover have "m (s + of_nat (i + j - unat (x - s))) = m x" if "i \<le> unat (x - s)" "unat (x - s) \<le> j" for x
    proof -
      have "unat (x - s) = i" "j = i" using that False by simp_all
      then show ?thesis using at [of i x] less.prems by simp
    qed
    ultimately show ?thesis by (auto simp: reverse_loop.simps [of s _ _ m])
  next
    case True
    let ?m = "m(s + of_nat i := m (s + of_nat j), s + of_nat j := m (s + of_nat i))"
    have step: "reverse_loop s (of_nat i) (of_nat j) m = reverse_loop s (of_nat (Suc i)) (of_nat (j - 1)) ?m"
      using True less.prems of_nat_sless [of i j] of_nat_diff_1 [of j]
      by (subst reverse_loop.simps) (simp add: add.commute)
    have IH: "reverse_loop s (of_nat (Suc i)) (of_nat (j - 1)) ?m = Some (\<lambda>x. if Suc i \<le> unat (x - s) \<and> unat (x - s) \<le> j - 1
        then ?m (s + of_nat (Suc i + (j - 1) - unat (x - s))) else ?m x)"
      using True less.prems by (intro less.hyps) simp_all
    have "(if Suc i \<le> unat (x - s) \<and> unat (x - s) \<le> j - 1 then ?m (s + of_nat (Suc i + (j - 1) - unat (x - s))) else ?m x) =
        (if i \<le> unat (x - s) \<and> unat (x - s) \<le> j then m (s + of_nat (i + j - unat (x - s))) else m x)" for x
    proof -
      have x: "x = s + of_nat i \<longleftrightarrow> unat (x - s) = i" "x = s + of_nat j \<longleftrightarrow> unat (x - s) = j"
        using at less.prems True by simp_all
      show ?thesis
      proof (cases "Suc i \<le> unat (x - s) \<and> unat (x - s) \<le> j - 1")
        case inner: True
        define k where "k = i + j - unat (x - s)"
        have k: "i < k" "k < j" "Suc i + (j - 1) - unat (x - s) = k" using inner True unfolding k_def by linarith+
        then have "(of_nat k :: u32) \<noteq> of_nat i" "(of_nat k :: u32) \<noteq> of_nat j"
          using less.prems by (simp_all add: of_nat_u32_eq_iff)
        then have "?m (s + of_nat k) = m (s + of_nat k)" by simp
        moreover have "i \<le> unat (x - s)" "unat (x - s) \<le> j" using inner True by linarith+
        ultimately show ?thesis using inner unfolding k(3) by (simp add: k_def)
      next
        case False
        then consider "unat (x - s) = i" | "unat (x - s) = j" | "unat (x - s) < i \<or> j < unat (x - s)" by linarith
        then show ?thesis by cases (use True False x in auto)
      qed
    qed
    then show ?thesis unfolding step IH by simp
  qed
qed

lemma reverse_cstring:
  assumes "cstring m s xs" and "length xs < 2147483648"
  shows "\<exists>m'. reverse s m = Some m' \<and> cstring m' s (rev xs) \<and> (\<forall>x. \<not> in_block x s (length xs) \<longrightarrow> m' x = m x)"
proof (cases "xs = []")
  case True
  then have "reverse s m = Some m"
    using assms(1) strlen_cstring [OF assms(1)] by (simp add: reverse_def reverse_loop.simps word_sless_alt)
  then show ?thesis using assms(1) True by simp
next
  case False
  define n where "n = length xs - 1"
  have n: "length xs = Suc n" "n < 2147483647" using False assms(2) by (simp_all add: n_def)
  let ?m = "\<lambda>x. if unat (x - s) \<le> n then m (s + of_nat (n - unat (x - s))) else m x"
  have "reverse s m = reverse_loop s (of_nat 0) (of_nat n) m"
    using strlen_cstring [OF assms(1)] n(1) by (simp add: reverse_def)
  also have "\<dots> = Some ?m" using reverse_loop_eq [of 0 n s m] n(2) by (simp cong: if_cong)
  finally have r: "reverse s m = Some ?m" .
  obtain m' where m': "m' = ?m" by simp
  have "m' (s + of_nat i) = rev xs ! i" if "i < Suc n" for i
  proof -
    have "n - i < length xs" using n by simp
    then have "m (s + of_nat (n - i)) = xs ! (n - i)" using assms(1) unfolding cstring_nth by blast
    then show ?thesis using that n by (simp add: m' rev_nth)
  qed
  moreover have "m' (s + of_nat (Suc n)) = 0" using assms(1) n unfolding cstring_nth m' by (simp del: of_nat_Suc)
  moreover have "0 \<notin> set xs" using assms(1) unfolding cstring_nth by blast
  ultimately have "cstring m' s (rev xs)" unfolding cstring_nth length_rev n(1) set_rev by blast
  moreover have "\<forall>x. \<not> in_block x s (length xs) \<longrightarrow> m' x = m x" using n by (simp add: m' in_block_def)
  ultimately show ?thesis using r m' by blast
qed

section \<open>Number texts\<close>

text \<open>The reference: the digits of a number, the last one first, and the text of an integer.\<close>

definition digit :: "nat \<Rightarrow> u8" where
  "digit k = of_nat (if k < 10 then k + 48 else k + 87)"

fun digits :: "nat \<Rightarrow> nat \<Rightarrow> u8 list" where
  "digits b n = (if n = 0 \<or> b < 2 then [] else digit (n mod b) # digits b (n div b))"

declare digits.simps [simp del]

definition number_text :: "nat \<Rightarrow> int \<Rightarrow> u8 list" where
  "number_text b v =
     (if v = 0 then [48] else (if v < 0 then [45] else []) @ rev (digits b (nat \<bar>v\<bar>)))"

lemma digit_nonzero: "k < 36 \<Longrightarrow> digit k \<noteq> 0"
proof -
  assume "k < 36"
  then have "unat (digit k) \<noteq> 0" by (simp add: digit_def unat_of_nat)
  then show ?thesis by auto
qed

lemma digit_char_of_nat:
  assumes "k < 36"
  shows "digit_char (of_nat k) = digit k"
proof -
  have "(of_nat k :: c_int) <s 10 \<longleftrightarrow> k < 10" using of_nat_sless [of k 10] assms by simp
  moreover have "(of_nat k :: c_int) + 48 = of_nat (k + 48)" "(of_nat k :: c_int) + 97 - 10 = of_nat (k + 87)" by simp_all
  moreover have "(ucast (of_nat i :: c_int) :: u8) = of_nat i" if "i < 256" for i
    using that by (simp add: unsigned_of_nat take_bit_nat_eq_self)
  ultimately show ?thesis using assms by (simp add: digit_char_def digit_def del: of_nat_add)
qed

lemma digits_nonzero: "b \<le> 36 \<Longrightarrow> 0 \<notin> set (digits b n)"
proof (induction b n rule: digits.induct)
  case (1 b n)
  show ?case
  proof (cases "n = 0 \<or> b < 2")
    case False
    then have "n mod b < 36" using 1(2) mod_less_divisor [of b n] by linarith
    then show ?thesis using 1 False digit_nonzero [of "n mod b"] by (auto simp: digits.simps [of b n])
  qed (simp add: digits.simps)
qed

lemma digits_length: "n < 2 ^ k \<Longrightarrow> length (digits b n) \<le> k"
proof (induction k arbitrary: n)
  case 0
  then show ?case by (simp add: digits.simps)
next
  case (Suc k)
  show ?case
  proof (cases "n = 0 \<or> b < 2")
    case False
    then have "n div b \<le> n div 2" by (intro div_le_mono2) simp_all
    then have "n div b < 2 ^ k" using Suc.prems by simp
    then show ?thesis using Suc.IH False by (simp add: digits.simps [of b n])
  qed (simp add: digits.simps)
qed

lemma digits_Nil_iff: "2 \<le> b \<Longrightarrow> digits b n = [] \<longleftrightarrow> n = 0"
  by (auto simp: digits.simps)

lemma itoa_loop_digits:
  assumes "2 \<le> b" and "b \<le> 36" and "n < 2147483648" and "i + length (digits b n) < 4294967296"
  shows "itoa_loop d (of_nat b) (of_nat i) (of_nat n) m =
    Some (Inr (of_nat (i + length (digits b n)), put_bytes d i (digits b n) m))"
  using assms(3,4)
proof (induction n arbitrary: i m rule: less_induct)
  case (less n)
  show ?case
  proof (cases "n = 0")
    case True
    then show ?thesis by (simp add: itoa_loop.simps digits.simps)
  next
    case False
    have b: "sint (of_nat n :: c_int) = int n" "sint (of_nat b :: c_int) = int b"
      using assms(2) less.prems(1) by (simp_all add: sint_of_nat)
    have u: "unat (of_nat n :: c_int) = n" "unat (of_nat b :: c_int) = b" using assms(2) less.prems(1) by simp_all
    have "(of_nat n :: c_int) \<noteq> 0" using False less.prems(1) of_nat_u32_eq_iff [of n 0] by simp
    moreover have "\<not> idiv_faults (of_nat n) (of_nat b)"
    proof -
      have "sint (- 1 :: c_int) \<noteq> sint (of_nat b :: c_int)" "sint (0 :: c_int) \<noteq> sint (of_nat b :: c_int)"
        using b(2) assms(1) by simp_all
      then show ?thesis by (auto simp: idiv_faults_def)
    qed
    moreover have "c_div (of_nat n) (of_nat b) = of_nat (n div b)" "c_mod (of_nat n) (of_nat b) = of_nat (n mod b)"
      using c_div_nonneg [of "of_nat n" "of_nat b"] b u assms(1) by simp_all
    moreover have "digit_char (of_nat (n mod b)) = digit (n mod b)"
      using assms mod_less_divisor [of b n] by (intro digit_char_of_nat) linarith
    moreover have d: "digits b n = digit (n mod b) # digits b (n div b)" using False assms(1) by (simp add: digits.simps [of b n])
    moreover have "n div b < n" using False assms(1) by simp
    moreover have "itoa_loop d (of_nat b) (of_nat (Suc i)) (of_nat (n div b)) m' =
        Some (Inr (of_nat (Suc i + length (digits b (n div b))), put_bytes d (Suc i) (digits b (n div b)) m'))" for m'
      using \<open>n div b < n\<close> less.prems d by (intro less.IH) simp_all
    moreover have "i < 4294967296" using less.prems(2) by simp
    ultimately show ?thesis
      by (subst itoa_loop.simps) (simp add: put_bytes_Cons add.commute [of _ 1])
  qed
qed

lemma magnitude:
  fixes v :: c_int
  assumes "v \<noteq> 0x80000000"
  shows "(if v <s 0 then - v else v) = of_nat (nat \<bar>sint v\<bar>)" and "nat \<bar>sint v\<bar> < 2147483648"
    and "v <s 0 \<longleftrightarrow> sint v < 0"
proof -
  have v: "of_int (sint v) = v" by simp
  show "v <s 0 \<longleftrightarrow> sint v < 0" by (simp add: word_sless_alt)
  have "- 2147483648 \<le> sint v" "sint v < 2147483648" using sint_ge [of v] sint_lt [of v] by simp_all
  moreover have "sint v \<noteq> - 2147483648"
  proof
    assume "sint v = - 2147483648"
    then have "v = of_int (- 2147483648)" using v by simp
    then show False using assms by simp
  qed
  ultimately show "nat \<bar>sint v\<bar> < 2147483648" by simp
  show "(if v <s 0 then - v else v) = of_nat (nat \<bar>sint v\<bar>)"
    by (simp add: word_sless_alt)
qed

lemma number_text_rev:
  "rev (number_text b v) = (if v = 0 then [48] else digits b (nat \<bar>v\<bar>) @ (if v < 0 then [45] else []))"
  by (simp add: number_text_def)

lemma number_text_facts:
  assumes "2 \<le> b" and "b \<le> 36" and "\<bar>v\<bar> < 2147483648"
  shows "0 \<notin> set (number_text b v)" and "length (number_text b v) \<le> 32" and "number_text b v \<noteq> []"
proof -
  have "nat \<bar>v\<bar> < 2 ^ 31" using assms(3) by simp
  from digits_length [OF this, of b] show "length (number_text b v) \<le> 32"
    by (cases "v < 0") (simp_all add: number_text_def)
  show "0 \<notin> set (number_text b v)" using digits_nonzero [OF assms(2), of "nat \<bar>v\<bar>"] by (simp add: number_text_def)
  show "number_text b v \<noteq> []" using digits_Nil_iff [OF assms(1), of "nat \<bar>v\<bar>"] by (simp add: number_text_def)
qed

lemma itoa_base_text:
  assumes "2 \<le> b" and "b \<le> 36" and "v \<noteq> 0x80000000"
  shows "\<exists>m'. itoa_base v d (of_nat b) m = Inr m' \<and> cstring m' d (number_text b (sint v)) \<and>
    (\<forall>x. \<not> in_block x d (length (number_text b (sint v)) + 1) \<longrightarrow> m' x = m x)"
proof -
  define n where "n = nat \<bar>sint v\<bar>"
  define xs where "xs = rev (number_text b (sint v))"
  note mag = magnitude [OF assms(3), folded n_def]
  have "\<bar>sint v\<bar> < 2147483648" using mag(2) by (simp add: n_def)
  note nt = number_text_facts [OF assms(1,2) this]
  have len: "length (digits b n) \<le> 31" using digits_length [of n 31 b] mag(2) by simp
  let ?m = "put_bytes d 0 (xs @ [0]) m"
  have "itoa_loop d (of_nat b) 0 (of_nat n) m = Some (Inr (of_nat (length (digits b n)), put_bytes d 0 (digits b n) m))"
    using itoa_loop_digits [OF assms(1,2) mag(2), of 0 d m] len by simp
  then have l: "itoa_loop d (of_nat b) 0 (if v <s 0 then - v else v) m =
      Some (Inr (of_nat (length (digits b n)), put_bytes d 0 (digits b n) m))" unfolding mag(1) .
  have base: "itoa_base v d (of_nat b) m = returns (reverse d ?m)"
  proof (cases "n = 0")
    case True
    then have "sint v = 0" "digits b n = []" by (simp_all add: n_def digits.simps)
    then have "\<not> v <s 0" "xs @ [0] = ([] @ [48]) @ [0]" using mag(3) by (simp_all add: xs_def number_text_def)
    moreover have "put_bytes d 0 (([] @ [48]) @ [0]) m = m(d := 48, d + 1 := 0)"
      using put_bytes_Cons [of 0 d "[0]" m 48] put_bytes_Cons [of 1 d "[]" "m(d := 48)" 0] by simp
    ultimately show ?thesis using l \<open>digits b n = []\<close> by (simp add: itoa_base_def Let_def)
  next
    case False
    have ne: "(of_nat (length (digits b n)) :: c_int) \<noteq> 0" "(of_nat (length (digits b n)) :: c_int) + 1 \<noteq> 0"
      using False digits_Nil_iff [OF assms(1), of n] len of_nat_u32_eq_iff [of "length (digits b n)" 0]
        of_nat_u32_eq_iff [of "length (digits b n) + 1" 0] by (auto simp: add.commute)
    have xs: "xs = digits b n @ (if v <s 0 then [45] else [])"
      using False unfolding xs_def number_text_rev mag(3) by (auto simp: n_def)
    show ?thesis
    proof (cases "v <s 0")
      case True
      then have "?m = (put_bytes d 0 (digits b n) m)
          (d + of_nat (length (digits b n)) := 45, d + (of_nat (length (digits b n)) + 1) := 0)"
        using len put_bytes_append [of 0 "digits b n" d 45 m] put_bytes_append [of 0 "digits b n @ [45]" d 0 m]
        by (simp add: xs add.commute [of 1])
      then show ?thesis using l True ne by (simp add: itoa_base_def Let_def)
    next
      case pos: False
      then have "?m = (put_bytes d 0 (digits b n) m)(d + of_nat (length (digits b n)) := 0)"
        using len put_bytes_append [of 0 "digits b n" d 0 m] by (simp add: xs)
      then show ?thesis using l pos ne by (simp add: itoa_base_def Let_def)
    qed
  qed
  have "cstring ?m d xs" using nt by (intro cstring_put_bytes) (simp_all add: xs_def)
  then obtain m' where m': "reverse d ?m = Some m'" "cstring m' d (rev xs)"
    "\<forall>x. \<not> in_block x d (length xs) \<longrightarrow> m' x = ?m x"
    using reverse_cstring [of ?m d xs] nt(2) by (auto simp: xs_def)
  have "m' x = m x" if "\<not> in_block x d (length xs + 1)" for x
    using m'(3) put_bytes_frame [of x d 0 "xs @ [0]" m] that by (simp add: in_block_def)
  then show ?thesis using base m'(1,2) by (simp add: xs_def)
qed

section \<open>Reading a number back\<close>

lemma digits_0 [simp]: "digits b 0 = []"
  by (simp add: digits.simps)

lemma atoi_loop_cstring:
  "cstring m s xs \<Longrightarrow> atoi_loop m s num = Some (foldl (\<lambda>num c. num * 10 + (scast c - 48)) num xs)"
  by (induction xs arbitrary: s num) (auto simp: atoi_loop.simps)

lemma digit_decimal:
  assumes "k < 10"
  shows "scast (digit k) - 48 = (of_nat k :: c_int)" and "digit k \<noteq> 45" and "digit k \<noteq> 43"
proof -
  have "k = 0 \<or> k = 1 \<or> k = 2 \<or> k = 3 \<or> k = 4 \<or> k = 5 \<or> k = 6 \<or> k = 7 \<or> k = 8 \<or> k = 9"
    using assms by presburger
  then show "scast (digit k) - 48 = (of_nat k :: c_int)" "digit k \<noteq> 45" "digit k \<noteq> 43"
    by (auto simp: digit_def)
qed

lemma digits_not_signs: "45 \<notin> set (digits 10 n) \<and> 43 \<notin> set (digits 10 n)"
proof (induction n rule: less_induct)
  case (less n)
  then show ?case
    using digit_decimal(2,3) [of "n mod 10"] by (cases "n = 0") (auto simp: digits.simps [of 10 n])
qed

lemma foldl_digits:
  "foldl (\<lambda>num c. num * 10 + (scast c - 48)) (0 :: c_int) (rev (digits 10 n)) = of_nat n"
proof (induction n rule: less_induct)
  case (less n)
  show ?case
  proof (cases "n = 0")
    case False
    have "(of_nat (n div 10) :: c_int) * 10 + of_nat (n mod 10) = of_nat (n div 10 * 10 + n mod 10)"
      by (simp only: of_nat_add of_nat_mult of_nat_numeral)
    then have "(of_nat (n div 10) :: c_int) * 10 + of_nat (n mod 10) = of_nat n" by (simp only: div_mult_mod_eq)
    then show ?thesis
      using False less.IH [of "n div 10"] digit_decimal(1) [of "n mod 10"] by (simp add: digits.simps [of 10 n])
  qed (simp add: digits.simps)
qed

lemma atoi_number_text:
  assumes "cstring m s (number_text 10 v)"
  shows "atoi m s = Some (if v < 0 then of_nat (nat \<bar>v\<bar>) OR 0x80000000 else of_int v)"
proof (cases "v < 0")
  case True
  then have "m s = 45" "cstring m (s + 1) (rev (digits 10 (nat \<bar>v\<bar>)))"
    using assms by (simp_all add: number_text_def)
  then show ?thesis using True atoi_loop_cstring foldl_digits by (simp add: atoi_def)
next
  case False
  define xs where "xs = number_text 10 v"
  have "foldl (\<lambda>num c. num * 10 + (scast c - 48)) (0 :: c_int) xs = of_int v"
    using False foldl_digits [of "nat \<bar>v\<bar>"] by (auto simp: xs_def number_text_def)
  moreover have "45 \<notin> set xs" "43 \<notin> set xs"
    using False digits_not_signs [of "nat \<bar>v\<bar>"] by (auto simp: xs_def number_text_def)
  moreover have "xs \<noteq> []" using False digits_Nil_iff [of 10 "nat \<bar>v\<bar>"] by (auto simp: xs_def number_text_def)
  then have "m s \<in> set xs" using assms by (cases xs) (auto simp: xs_def)
  ultimately show ?thesis
    using False atoi_loop_cstring [OF assms, of 0] by (auto simp: atoi_def xs_def)
qed

text \<open>
  The smallest \<open>int\<close> is its own negation, so the loop divides a negative number and its remainders
  are negative too: the characters come out at or below \<open>0\<close>. \<open>atoi\<close> takes them for digits of
  that value.
\<close>

fun loop_chars :: "c_int \<Rightarrow> u8 list \<Rightarrow> bool" where
  "loop_chars v [] \<longleftrightarrow> v = 0"
| "loop_chars v (x # xs) \<longleftrightarrow> v \<noteq> 0 \<and> digit_char (c_mod v 10) = x \<and> loop_chars (c_div v 10) xs"

lemma itoa_loop_chars:
  assumes "loop_chars v xs" and "i + length xs < 4294967296"
  shows "itoa_loop d 10 (of_nat i) v m = Some (Inr (of_nat (i + length xs), put_bytes d i xs m))"
  using assms
proof (induction xs arbitrary: v i m)
  case Nil
  then show ?case by (simp add: itoa_loop.simps)
next
  case (Cons x xs)
  have "itoa_loop d 10 (of_nat (Suc i)) (c_div v 10) (m(d + of_nat i := x)) =
      Some (Inr (of_nat (Suc i + length xs), put_bytes d (Suc i) xs (m(d + of_nat i := x))))"
    using Cons.prems by (intro Cons.IH) simp_all
  then show ?case
    using Cons.prems by (subst itoa_loop.simps) (simp add: idiv_faults_def put_bytes_Cons add.commute [of _ 1])
qed

definition smallest_text :: "u8 list" where
  "smallest_text = [45, 46, 47, 44, 41, 44, 40, 45, 42, 44, 40]"

lemma smallest_chars: "loop_chars 0x80000000 (rev (tl smallest_text))"
  by (simp add: smallest_text_def c_div_def c_mod_def digit_char_def word_sless_alt signed_divide_int_def signed_modulo_int_def)

lemma itoa_smallest:
  "\<exists>m'. itoa 0x80000000 d m = Inr m' \<and> cstring m' d smallest_text"
proof -
  let ?m = "put_bytes d 0 (rev smallest_text @ [0]) m"
  have l: "itoa_loop d 10 0 0x80000000 m = Some (Inr (10, put_bytes d 0 (rev (tl smallest_text)) m))"
    using itoa_loop_chars [OF smallest_chars, of 0 d m] by (simp add: smallest_text_def)
  have "?m = (put_bytes d 0 (rev (tl smallest_text)) m)(d + 10 := 45, d + 11 := 0)"
    using put_bytes_append [of 0 "rev smallest_text" d 0 m] put_bytes_append [of 0 "rev (tl smallest_text)" d 45 m]
    by (simp add: smallest_text_def)
  then have "itoa v d m = returns (reverse d ?m)"
    if "v <s 0" "itoa_loop d 10 0 (- v) m = Some (Inr (10, put_bytes d 0 (rev (tl smallest_text)) m))" for v
    using that by (simp add: itoa_def itoa_base_def returns_or_stops_def Let_def)
  moreover have "(- 0x80000000 :: c_int) = 0x80000000" "(0x80000000 :: c_int) <s 0" by (simp_all add: word_sless_alt)
  ultimately have "itoa 0x80000000 d m = returns (reverse d ?m)" using l by metis
  moreover have "cstring ?m d (rev smallest_text)" by (rule cstring_put_bytes) (simp_all add: smallest_text_def)
  ultimately show ?thesis
    using reverse_cstring [of ?m d "rev smallest_text"] by (auto simp: smallest_text_def)
qed

lemma atoi_smallest:
  assumes "cstring m s smallest_text"
  shows "atoi m s = Some 0x80000000"
proof -
  have "m s = 45" "cstring m (s + 1) (tl smallest_text)" using assms by (simp_all add: smallest_text_def)
  then show ?thesis using atoi_loop_cstring [of m "s + 1" "tl smallest_text" 0] by (simp add: atoi_def smallest_text_def)
qed

lemma or_sign_bit:
  assumes "unat (x :: c_int) < 2147483648"
  shows "unat (x OR 0x80000000) = unat x + 2147483648"
proof -
  have "unat (drop_bit 31 x) = 0" using assms by (simp add: unat_drop_bit_eq drop_bit_eq_div unat_div)
  then have "\<not> bit x 31" by (simp add: bit_iff_odd_drop_bit unat_eq_0)
  moreover have "(0x80000000 :: c_int) = 2 ^ 31" by simp
  ultimately have "x AND 0x80000000 = 0" by (simp only: and_exp_eq_0_iff_not_bit) simp
  then have "x OR 0x80000000 = x + 0x80000000" using word_plus_and_or [of x "0x80000000"] by simp
  then show ?thesis using assms by (simp add: unat_word_ariths)
qed

section \<open>Properties of the numbers\<close>

text \<open>
  \<open>itoa_base\<close> writes the sign and the digits of the number in the given base (2 to 36),
  most significant first, as a string at the destination, and changes no byte outside it. This
  holds for every \<open>int\<close> but the smallest, whose negation overflows.
\<close>

theorem itoa_base_writes_number:
  assumes "2 \<le> b" and "b \<le> 36" and "v \<noteq> 0x80000000"
  shows "\<exists>m'. itoa_base v d (of_nat b) m = Inr m' \<and> cstring m' d (number_text b (sint v)) \<and>
    (\<forall>x. \<not> in_block x d (length (number_text b (sint v)) + 1) \<longrightarrow> m' x = m x)"
  using itoa_base_text [OF assms] .

theorem itoa_base_writes_number_witness:
  "\<exists>m'. itoa_base (- 300) 0x1000 16 (\<lambda>_. 7) = Inr m' \<and> cstring m' 0x1000 [45, 49, 50, 99]"
proof -
  have "number_text 16 (- 300) = [45, 49, 50, 99]"
    by (simp add: number_text_def digits.simps digit_def)
  then show ?thesis using itoa_base_writes_number [of 16 "- 300" "0x1000" "\<lambda>_. 7"] by auto
qed

text \<open>
  \<open>atoi\<close> of what \<open>itoa\<close> writes for a number that is not the smallest: the number back when it is not
  negative, else its magnitude with the sign bit set.
\<close>

lemma atoi_itoa_number:
  assumes "v \<noteq> 0x80000000"
  shows "\<exists>m' r. itoa v d m = Inr m' \<and> atoi m' d = Some r \<and> (r = v \<longleftrightarrow> 0 \<le> sint v \<or> v = - 0x40000000)"
proof -
  obtain m' where m': "itoa v d m = Inr m'" "cstring m' d (number_text 10 (sint v))"
    using itoa_base_text [of 10 v d m] assms by (auto simp: itoa_def)
  note a = atoi_number_text [OF m'(2)]
  show ?thesis
  proof (cases "sint v < 0")
    case False
    then show ?thesis using m'(1) a by auto
  next
    case True
    define n where "n = nat \<bar>sint v\<bar>"
    have n: "n < 2147483648" "v = - of_nat n" "0 < n"
      using magnitude [OF assms] True by (auto simp: n_def word_sless_alt)
    then have r: "unat (of_nat n OR 0x80000000 :: c_int) = n + 2147483648" by (simp add: or_sign_bit)
    have "unat v = 4294967296 - n" 
    proof -
      have "v = of_nat (4294967296 - n)" using n by simp
      then show ?thesis using n(3) by (simp only:) simp
    qed
    then have "(of_nat n OR 0x80000000 :: c_int) = v \<longleftrightarrow> n = 0x40000000"
      using r n(1) by (auto simp: word_unat_eq_iff)
    moreover have "v = - 0x40000000 \<longleftrightarrow> n = 0x40000000"
      using n of_nat_u32_eq_iff [of n "0x40000000"] by auto
    ultimately show ?thesis using m'(1) a True by (auto simp: n_def)
  qed
qed

text \<open>
  C32. \<open>atoi\<close> reads back what \<open>itoa\<close> wrote for every number that is not negative, but of the
  negative ones only for \<open>- 0x40000000\<close> and the smallest \<open>int\<close>: it sets the sign bit of the
  magnitude instead of negating it. (The text of the smallest \<open>int\<close> is not decimal: its negation
  overflows, as in the compiled code, and the characters are those below the digits.)
\<close>

theorem atoi_itoa_iff:
  "\<exists>m' r. itoa v d m = Inr m' \<and> atoi m' d = Some r \<and>
     (r = v \<longleftrightarrow> 0 \<le> sint v \<or> v = - 0x40000000 \<or> v = 0x80000000)"
proof (cases "v = 0x80000000")
  case True
  then show ?thesis using itoa_smallest [of d m] atoi_smallest by blast
next
  case False
  then show ?thesis using atoi_itoa_number [OF False, of d m] by blast
qed

section \<open>How long \<open>delay\<close> waits\<close>

text \<open>
  A wait longer than 21474836 milliseconds never ends, whatever the clock says: the milliseconds
  that have passed are computed in an \<open>int\<close>. A shorter one ends with the first tick that completes it.
\<close>

lemma c_div_hundred: "sint (c_div a 100) = sint a sdiv 100"
proof -
  have "\<bar>sint a sdiv 100\<bar> \<le> 21474836"
    using sint_range_size [of a] by (simp add: signed_divide_int_def word_size abs_mult) (auto simp: abs_if sgn_if)
  then show ?thesis
    by (simp add: c_div_def sint_sbintrunc' signed_take_bit_int_eq_self abs_le_iff)
qed

lemma c_div_hundred_bound: "sint (c_div a 100) \<le> 21474836"
  using sint_range_size [of a] by (simp add: c_div_hundred signed_divide_int_def word_size) (auto simp: sgn_if abs_if)

lemma delay_too_long:
  assumes "21474836 < sint milli"
  shows "delay milli ts = None"
proof -
  have "c_div a 100 <s milli" for a
    using assms c_div_hundred_bound [of a] by (simp add: word_sless_alt)
  then have "delay_loop milli t xs = None" for t xs by (induction xs) simp_all
  then show ?thesis by (cases ts) simp_all
qed

lemma delay_time:
  assumes "n \<le> 2147483"
  shows "sint (c_div (of_nat n * 1000) 100) = int n * 10"
proof -
  have "sint (of_nat (n * 1000) :: c_int) = int (n * 1000)" using assms by (intro sint_of_nat) simp
  then show ?thesis by (cases n) (simp_all add: c_div_hundred signed_divide_int_def)
qed

lemma delay_waits:
  assumes "m = nat (sint milli + 9) div 10" and "m \<le> 2147483"
  shows "delay milli (t # map (\<lambda>j. t + of_nat j) [0..<Suc m] @ ts) = Some ts"
proof -
  have "delay_loop milli t (map (\<lambda>j. t + of_nat j) [n..<Suc m] @ ts) = Some ts" if "n \<le> m" for n
    using that
  proof (induction rule: inc_induct)
    case base
    have "\<not> c_div (of_nat m * 1000) 100 <s milli" using assms by (simp add: word_sless_alt delay_time)
    then show ?case by simp
  next
    case (step n)
    have "c_div (of_nat n * 1000) 100 <s milli" using step.hyps assms by (simp add: word_sless_alt delay_time)
    then show ?case using step by (simp add: upt_conv_Cons [of n] del: upt_Suc)
  qed
  from this [of 0] show ?thesis by simp
qed

end
