(* ===== verification/Formatting.thy ===== *)
theory Formatting
  imports Lib_Common
begin

text \<open>
  What \<open>vsprintf\<close> does with a well-formed format: it is read as a list of items (plain
  characters, percent signs, conversions with a fill character and a width), and the output is
  the text of the items, each conversion padded on the left to its width. The local array
  \<open>tmp\<close>, the output, the format and the arguments are blocks of one memory.
\<close>

section \<open>Formats and their output\<close>

datatype argument =
    Hex c_int          \<comment> \<open>\<open>%x\<close>\<close>
  | Dec c_int          \<comment> \<open>\<open>%d\<close>\<close>
  | Chr u8             \<comment> \<open>\<open>%c\<close>\<close>
  | Str "u8 list"      \<comment> \<open>\<open>%s\<close>\<close>

datatype item =
    Plain u8
  | Percent
  | Conv bool nat argument

primrec arg_char :: "argument \<Rightarrow> u8" where
  "arg_char (Hex v) = 120"
| "arg_char (Dec v) = 100"
| "arg_char (Chr c) = 99"
| "arg_char (Str xs) = 115"

primrec item_text :: "item \<Rightarrow> u8 list" where
  "item_text (Plain c) = [c]"
| "item_text Percent = [37, 37]"
| "item_text (Conv zero width a) =
     37 # (if zero then [48] else []) @ rev (digits 10 width) @ [arg_char a]"

primrec arg_text :: "argument \<Rightarrow> u8 list" where
  "arg_text (Hex v) = number_text 16 (sint v)"
| "arg_text (Dec v) = number_text 10 (sint v)"
| "arg_text (Chr c) = (if c = 0 then [] else [c])"
| "arg_text (Str xs) = xs"

definition pad :: "u8 \<Rightarrow> nat \<Rightarrow> u8 list \<Rightarrow> u8 list" where
  "pad c width xs = replicate (width - length xs) c @ xs"

primrec item_output :: "item \<Rightarrow> u8 list" where
  "item_output (Plain c) = [c]"
| "item_output Percent = [37]"
| "item_output (Conv zero width a) = pad (if zero then 48 else 32) width (arg_text a)"

primrec arg_ok :: "argument \<Rightarrow> bool" where
  "arg_ok (Hex v) \<longleftrightarrow> v \<noteq> 0x80000000"
| "arg_ok (Dec v) \<longleftrightarrow> v \<noteq> 0x80000000"
| "arg_ok (Chr c) \<longleftrightarrow> True"
| "arg_ok (Str xs) \<longleftrightarrow> length xs < 256 \<and> 0 \<notin> set xs"

primrec item_ok :: "item \<Rightarrow> bool" where
  "item_ok (Plain c) \<longleftrightarrow> c \<noteq> 0 \<and> c \<noteq> 37"
| "item_ok Percent \<longleftrightarrow> True"
| "item_ok (Conv zero width a) \<longleftrightarrow> arg_ok a"

section \<open>Text in memory that is not written\<close>

fun keeps :: "(addr \<Rightarrow> bool) \<Rightarrow> mem \<Rightarrow> addr \<Rightarrow> u8 list \<Rightarrow> bool" where
  "keeps W m a [] \<longleftrightarrow> True"
| "keeps W m a (x # xs) \<longleftrightarrow> m a = x \<and> \<not> W a \<and> keeps W m (a + 1) xs"

lemma keeps_append:
  "keeps W m a (xs @ ys) \<longleftrightarrow> keeps W m a xs \<and> keeps W m (a + of_nat (length xs)) ys"
  by (induction xs arbitrary: a) (auto simp: add.assoc)

lemma keeps_same: "keeps W m a xs \<Longrightarrow> (\<And>x. \<not> W x \<Longrightarrow> m' x = m x) \<Longrightarrow> keeps W m' a xs"
  by (induction xs arbitrary: a) auto

lemma keeps_cstring: "keeps W m a (xs @ [0]) \<Longrightarrow> 0 \<notin> set xs \<Longrightarrow> cstring m a xs"
  by (induction xs arbitrary: a) auto

lemma keeps_unwritten: "keeps W m a xs \<Longrightarrow> i < length xs \<Longrightarrow> \<not> W (a + of_nat i)"
proof (induction xs arbitrary: a i)
  case (Cons x xs)
  then show ?case using Cons.IH [of "a + 1" "i - 1"] by (cases i) (auto simp: add.assoc)
qed simp

primrec arg_at :: "(addr \<Rightarrow> bool) \<Rightarrow> mem \<Rightarrow> addr \<Rightarrow> argument \<Rightarrow> bool" where
  "arg_at W m p (Hex v) \<longleftrightarrow> load32 m p = v"
| "arg_at W m p (Dec v) \<longleftrightarrow> load32 m p = v"
| "arg_at W m p (Chr c) \<longleftrightarrow> m p = c"
| "arg_at W m p (Str xs) \<longleftrightarrow> keeps W m (load32 m p) (xs @ [0])"

text \<open>The arguments of the conversions, one after the other, in words that are not written.\<close>

fun args_at :: "(addr \<Rightarrow> bool) \<Rightarrow> mem \<Rightarrow> addr \<Rightarrow> item list \<Rightarrow> bool" where
  "args_at W m p [] \<longleftrightarrow> True"
| "args_at W m p (Conv zero width a # its) \<longleftrightarrow>
     arg_at W m p a \<and> (\<forall>i<4. \<not> W (p + of_nat i)) \<and> args_at W m (p + 4) its"
| "args_at W m p (it # its) \<longleftrightarrow> args_at W m p its"

lemma arg_at_same:
  assumes "arg_at W m p a" and "\<forall>i<4. \<not> W (p + of_nat i)" and "\<And>x. \<not> W x \<Longrightarrow> m' x = m x"
  shows "arg_at W m' p a"
proof -
  have "load32 m' p = load32 m p" using assms(2,3) by (intro load32_cong) simp
  moreover have "m' p = m p" using assms(2) [rule_format, of 0] assms(3) by simp
  ultimately show ?thesis using assms(1) keeps_same [OF _ assms(3)] by (cases a) auto
qed

lemma args_at_same: "args_at W m p its \<Longrightarrow> (\<And>x. \<not> W x \<Longrightarrow> m' x = m x) \<Longrightarrow> args_at W m' p its"
  by (induction W m p its rule: args_at.induct) (auto intro: arg_at_same)

section \<open>The parts of a conversion\<close>

lemma put_bytes_shift:
  assumes "length xs < 4294967295"
  shows "put_bytes (p + 1) 0 xs (m(p := x)) = put_bytes p 0 (x # xs) m"
proof
  fix a
  show "put_bytes (p + 1) 0 xs (m(p := x)) a = put_bytes p 0 (x # xs) m a"
  proof (cases "a = p")
    case True
    have "unat (p - (p + 1)) = 4294967295" by (simp add: unsigned_minus_1_eq_mask mask_eq_exp_minus_1)
    then show ?thesis using True assms by (simp add: put_bytes_def)
  next
    case False
    then have "unat (a - p) \<noteq> 0" by (simp add: unat_eq_0)
    moreover have "a - (p + 1) = (a - p) - 1" by simp
    moreover have "unat ((a - p) - 1) = unat (a - p) - 1" using False by (intro unat_minus_one) simp
    ultimately have "unat (a - p) = Suc (unat (a - (p + 1)))" by (simp only:)
    then show ?thesis using False by (simp add: put_bytes_def)
  qed
qed

lemma put_bytes_cstring:
  assumes "cstring m t xs" and "\<And>i. i \<le> length xs \<Longrightarrow> \<not> in_block (t + of_nat i) p (length ys)"
  shows "cstring (put_bytes p 0 ys m) t xs"
proof -
  have "put_bytes p 0 ys m (t + of_nat i) = m (t + of_nat i)" if "i \<le> length xs" for i
    using put_bytes_frame [of "t + of_nat i" p 0 ys m] assms(2) [OF that] by simp
  then show ?thesis using assms(1) by (simp add: cstring_nth)
qed

text \<open>The width.\<close>

lemma digits_are_digits: "x \<in> set (digits 10 n) \<Longrightarrow> 48 \<le> x \<and> x \<le> 57"
proof (induction n rule: less_induct)
  case (less n)
  have "48 \<le> digit k \<and> digit k \<le> 57" if "k < 10" for k
    
  proof -
    have "unat (digit k) = k + 48" using that by (simp add: digit_def unat_of_nat del: of_nat_add)
    then show ?thesis using that by (simp add: word_le_nat_alt)
  qed
  then show ?case
    using less.IH [of "n div 10"] less.prems by (cases "n = 0") (auto simp: digits.simps [of 10 n])
qed

lemma read_align_digits:
  assumes "keeps W m fmt (xs @ [c])" and "\<forall>x\<in>set xs. 48 \<le> x \<and> x \<le> 57" and "\<not> (48 \<le> c \<and> c \<le> 57)"
  shows "read_align m fmt align =
    Some (foldl (\<lambda>num c. num * 10 + (scast c - 48)) align xs, fmt + of_nat (length xs))"
  using assms(1,2)
proof (induction xs arbitrary: fmt align)
  case Nil
  then show ?case using assms(3) by (subst read_align.simps) auto
next
  case (Cons x xs)
  then show ?case by (subst read_align.simps) (auto simp: add.assoc)
qed

text \<open>The text of the argument in the cleared array.\<close>

lemma arg_text_facts:
  assumes "arg_ok a"
  shows "length (arg_text a) < 256" and "0 \<notin> set (arg_text a)"
proof -
  have n: "length (number_text b (sint v)) < 256 \<and> 0 \<notin> set (number_text b (sint v))"
    if "v \<noteq> 0x80000000" "b = 10 \<or> b = 16" for v :: c_int and b

  proof -
    have "\<bar>sint v\<bar> < 2147483648" using magnitude(2) [OF that(1)] by linarith
    then show ?thesis using number_text_facts(1,2) [of b "sint v"] that(2) by auto
  qed
  then show "length (arg_text a) < 256" "0 \<notin> set (arg_text a)" using assms by (cases a; simp)+
qed

lemma number_in_array:
  assumes "v \<noteq> 0x80000000" and "2 \<le> b" and "b \<le> 36"
  shows "\<exists>m'. itoa_base v tmp (of_nat b) m = Inr m' \<and> cstring m' tmp (number_text b (sint v)) \<and>
    (\<forall>x. \<not> in_block x tmp 256 \<longrightarrow> m' x = m x)"
proof -
  obtain m' where m': "itoa_base v tmp (of_nat b) m = Inr m'" "cstring m' tmp (number_text b (sint v))"
    "\<forall>x. \<not> in_block x tmp (length (number_text b (sint v)) + 1) \<longrightarrow> m' x = m x"
    using itoa_base_text [OF assms(2,3,1)] by blast
  have "\<bar>sint v\<bar> < 2147483648" using magnitude(2) [OF assms(1)] by linarith
  then have "length (number_text b (sint v)) + 1 \<le> 256"
    using number_text_facts(2) [OF assms(2,3), of "sint v"] by simp
  then show ?thesis using m' in_block_less by blast
qed

lemma convert_text:
  assumes "arg_ok a" and "arg_at W m p a" and "\<And>x. in_block x tmp 256 \<Longrightarrow> W x \<and> m x = 0"
  shows "\<exists>m'. convert tmp (arg_char a) p m = Inr (p + 4, m') \<and> cstring m' tmp (arg_text a) \<and>
    (\<forall>x. \<not> in_block x tmp 256 \<longrightarrow> m' x = m x)"
proof (cases a)
  case (Hex v)
  then show ?thesis using number_in_array [of v 16 tmp m] assms(1,2) by (auto simp: convert_def)
next
  case (Dec v)
  then show ?thesis using number_in_array [of v 10 tmp m] assms(1,2) by (auto simp: convert_def itoa_def)
next
  case (Chr c)
  have "m (tmp + 1) = 0" using assms(3) in_block_offset [of 1 256 tmp] by simp
  then show ?thesis using assms(2) Chr in_block_start [of 256 tmp] by (auto simp: convert_def)
next
  case (Str xs)
  let ?s = "load32 m p"
  have k: "keeps W m ?s (xs @ [0])" and xs: "length xs < 256" "0 \<notin> set xs" using assms(1,2) Str by simp_all
  have "of_nat (length xs) \<le> tmp - ?s"
  proof (rule ccontr)
    assume "\<not> of_nat (length xs) \<le> tmp - ?s"
    then have "unat (tmp - ?s) < length xs" using xs(1) by (simp add: word_le_nat_alt)
    then have "\<not> W (?s + of_nat (unat (tmp - ?s)))" using keeps_unwritten [OF k, of "unat (tmp - ?s)"] by simp
    then show False using assms(3) in_block_start [of 256 tmp] by simp
  qed
  then have c: "strcpy tmp ?s m = Some (\<lambda>x. if in_block x tmp (length xs) then m (?s + (x - tmp)) else m x)"
    using strcpy_cstring [OF keeps_cstring [OF k xs(2)], of tmp] by simp
  obtain m' where m': "m' = (\<lambda>x. if in_block x tmp (length xs) then m (?s + (x - tmp)) else m x)" by simp
  have "m' (tmp + of_nat i) = xs ! i" if "i < length xs" for i
    using that xs(1) keeps_cstring [OF k xs(2)] by (simp add: m' in_block_def cstring_nth)
  moreover have "m' (tmp + of_nat (length xs)) = 0"
    using xs(1) assms(3) in_block_offset [of "length xs" 256 tmp] by (simp add: m' in_block_def)
  ultimately have "cstring m' tmp xs" using xs(2) by (simp add: cstring_nth)
  moreover have "\<forall>x. \<not> in_block x tmp 256 \<longrightarrow> m' x = m x" using xs(1) by (auto simp: m' in_block_def)
  ultimately show ?thesis using c Str by (auto simp: convert_def m' returns_def)
qed

text \<open>The padding, and the text behind it.\<close>

lemma fill_loop_fills:
  assumes "cstring m tmp xs" and "length xs < 256" and "length xs + j + n < 2147483648"
    and "\<And>x. in_block x p n \<Longrightarrow> \<not> in_block x tmp 256"
  shows "fill_loop tmp c (of_nat (length xs + j + n)) (of_nat j) p m = Some (p + of_nat n, put_bytes p 0 (replicate n c) m)"
  using assms
proof (induction n arbitrary: j p m)
  case 0
  have "(of_nat (length xs + j) :: c_int) - of_nat (length xs) = of_nat j" by simp
  then have "\<not> (of_nat j :: c_int) <s of_nat (length xs + j) - of_nat (length xs)" by (simp only: word_sless_alt)
  then show ?case using strlen_cstring [OF 0(1)] by (subst fill_loop.simps) (simp del: of_nat_add)
next
  case (Suc n)
  have "(of_nat (length xs + j + Suc n) :: c_int) - of_nat (length xs) = of_nat (j + Suc n)" by simp
  moreover have "(of_nat j :: c_int) <s of_nat (j + Suc n)" using Suc.prems(3) by (subst of_nat_sless) simp_all
  ultimately have less: "(of_nat j :: c_int) <s of_nat (length xs + j + Suc n) - of_nat (length xs)" by (simp only:)
  have sub: "in_block x p (Suc n)" if x: "in_block x (p + 1) n" for x
  proof -
    obtain i where "i < n" "x = p + 1 + of_nat i"
      using x Suc.prems(3) in_block_iff_offset [of n x "p + 1"] by auto
    then show ?thesis using in_block_offset [of "Suc i" "Suc n" p] Suc.prems(3) by (simp add: add.assoc)
  qed
  have "cstring (put_bytes p 0 [c] m) tmp xs"
  proof (rule put_bytes_cstring [OF Suc.prems(1)])
    fix i assume "i \<le> length xs"
    then have "in_block (tmp + of_nat i) tmp 256" using Suc.prems(2) by (intro in_block_offset) simp_all
    then show "\<not> in_block (tmp + of_nat i) p (length [c])" using Suc.prems(4) in_block_less [of _ p 1 "Suc n"] by auto
  qed
  then have "cstring (m(p := c)) tmp xs" using put_bytes_Cons [of 0 p "[]" m c] by simp
  from Suc.IH [OF this Suc.prems(2), of "Suc j" "p + 1"]
  have "fill_loop tmp c (of_nat (length xs + j + Suc n)) (of_nat j + 1) (p + 1) (m(p := c)) =
      Some (p + 1 + of_nat n, put_bytes (p + 1) 0 (replicate n c) (m(p := c)))"
    using Suc.prems(3,4) sub by (simp add: ac_simps del: fun_upd_apply)
  moreover have "put_bytes (p + 1) 0 (replicate n c) (m(p := c)) = put_bytes p 0 (replicate (Suc n) c) m"
    using Suc.prems(3) put_bytes_shift [of "replicate n c" p m c] by simp
  moreover have "(1 :: u32) + of_nat n = of_nat (Suc n)" by simp
  ultimately show ?case
    using strlen_cstring [OF Suc.prems(1)] less by (subst fill_loop.simps) (simp add: add.assoc del: of_nat_add of_nat_Suc)
qed

lemma append_padded_pads:
  assumes "cstring m tmp xs" and "length xs < 256" and "width < 2147483648"
    and "\<And>x. in_block x p (length (pad c width xs)) \<Longrightarrow> \<not> in_block x tmp 256"
  shows "append_padded tmp c (of_nat width) p m =
    Some (p + of_nat (length (pad c width xs)), put_bytes p 0 (pad c width xs) m)"
proof -
  define n where "n = width - length xs"
  let ?m1 = "put_bytes p 0 (replicate n c) m" and ?p1 = "p + of_nat n"
  have len: "length (pad c width xs) = n + length xs" by (simp add: pad_def n_def)
  have small: "n + length xs < 2147483904" using assms(2,3) by (simp add: n_def)
  have fill: "(if of_nat (length xs) <s (of_nat width :: c_int) then fill_loop tmp c (of_nat width) 0 p m else Some (p, m)) =
      Some (?p1, ?m1)"
  proof (cases "length xs < width")
    case True
    then have w: "length xs + 0 + n = width" by (simp add: n_def)
    have "fill_loop tmp c (of_nat width) (of_nat 0) p m = Some (?p1, ?m1)"
      using fill_loop_fills [OF assms(1,2), of 0 n p c, unfolded w] assms(3,4) in_block_less [of _ p n] len by auto
    moreover have "(of_nat (length xs) :: c_int) <s of_nat width"
      using True assms(2,3) by (subst of_nat_sless) simp_all
    ultimately show ?thesis by simp
  next
    case False
    then show ?thesis using assms(2,3) by (simp add: of_nat_sless n_def)
  qed
  have apart: "\<not> in_block (tmp + of_nat i) p (length (pad c width xs))" if "i \<le> length xs" for i
  proof
    assume "in_block (tmp + of_nat i) p (length (pad c width xs))"
    then have "\<not> in_block (tmp + of_nat i) tmp 256" by (rule assms(4))
    then show False using that assms(2) in_block_offset [of i 256 tmp] by simp
  qed
  have c1: "cstring ?m1 tmp xs"
  proof (rule put_bytes_cstring [OF assms(1)])
    fix i assume "i \<le> length xs"
    from apart [OF this] show "\<not> in_block (tmp + of_nat i) p (length (replicate n c))"
      using in_block_less [of "tmp + of_nat i" p n "n + length xs"] len by auto
  qed
  have far: "of_nat (length xs) \<le> ?p1 - tmp"
  proof (cases "xs = []")
    case False
    then have "in_block ?p1 p (length (pad c width xs))" using len small by (intro in_block_offset) simp_all
    then have "\<not> in_block ?p1 tmp 256" by (rule assms(4))
    then show ?thesis using assms(2) by (simp add: in_block_def word_le_nat_alt)
  qed simp
  let ?m2 = "put_bytes p 0 (pad c width xs) m"
  have "strcpy ?p1 tmp ?m1 = Some (put_bytes ?p1 0 xs ?m1)"
  proof -
    have "(\<lambda>a. if in_block a ?p1 (length xs) then ?m1 (tmp + (a - ?p1)) else ?m1 a) = put_bytes ?p1 0 xs ?m1"
    proof
      fix a
      show "(if in_block a ?p1 (length xs) then ?m1 (tmp + (a - ?p1)) else ?m1 a) = put_bytes ?p1 0 xs ?m1 a"
      proof (cases "in_block a ?p1 (length xs)")
        case True
        then have "unat (a - ?p1) < length xs" by (simp add: in_block_def)
        then have "?m1 (tmp + of_nat (unat (a - ?p1))) = xs ! unat (a - ?p1)" using c1 unfolding cstring_nth by blast
        then show ?thesis using True by (simp add: put_bytes_def in_block_def)
      next
        case False
        then show ?thesis by (simp add: put_bytes_def in_block_def)
      qed
    qed
    then show ?thesis using strcpy_cstring [OF c1, of ?p1] far by simp
  qed
  also have "put_bytes ?p1 0 xs ?m1 = ?m2"
    using put_bytes_put_bytes [of "replicate n c" xs p m] small by (simp add: pad_def n_def)
  finally have copy: "strcpy ?p1 tmp ?m1 = Some ?m2" .
  have "cstring ?m2 tmp xs" using apart by (intro put_bytes_cstring [OF assms(1)])
  then show ?thesis
    unfolding append_padded_def strlen_cstring [OF assms(1)] Option.bind.bind_lunit fill
    using copy strlen_cstring [of ?m2 tmp xs] by (simp add: len)
qed

section \<open>One conversion\<close>

lemma digits_first: "0 < n \<Longrightarrow> digits 10 n \<noteq> [] \<and> last (digits 10 n) \<noteq> 48"
proof (induction n rule: less_induct)
  case (less n)
  have d: "digits 10 n = digit (n mod 10) # digits 10 (n div 10)" using less.prems by (simp add: digits.simps [of 10 n])
  show ?case
  proof (cases "n < 10")
    case True
    have "unat (digit n) = n + 48" using True by (simp add: digit_def unat_of_nat del: of_nat_add)
    then have "digit n \<noteq> 48" using less.prems by auto
    then show ?thesis using True d by simp
  next
    case False
    then show ?thesis using d less.IH [of "n div 10"] by simp
  qed
qed

lemma arg_char_not_digit: "\<not> (48 \<le> arg_char a \<and> arg_char a \<le> 57)" "arg_char a \<noteq> 37"
  by (cases a; simp)+

text \<open>The flag, the width and the conversion character.\<close>

lemma conversion_head:
  assumes "keeps W m fmt ((if zero then [48] else []) @ rev (digits 10 width) @ [arg_char a])"
  defines "fmt1 \<equiv> (if zero then fmt + 1 else fmt)"
  shows "m fmt = 48 \<longleftrightarrow> zero"
    and "read_align m fmt1 0 = Some (of_nat width, fmt1 + of_nat (length (digits 10 width)))"
    and "m (fmt1 + of_nat (length (digits 10 width))) = arg_char a"
proof -
  have k: "keeps W m fmt1 (rev (digits 10 width) @ [arg_char a])"
    using assms(1) unfolding fmt1_def by (cases zero) simp_all
  show "m (fmt1 + of_nat (length (digits 10 width))) = arg_char a" using k by (simp add: keeps_append)
  show "read_align m fmt1 0 = Some (of_nat width, fmt1 + of_nat (length (digits 10 width)))"
    using read_align_digits [OF k, of 0] digits_are_digits arg_char_not_digit(1) foldl_digits by simp
  show "m fmt = 48 \<longleftrightarrow> zero"
  proof (cases zero)
    case True
    then show ?thesis using assms(1) by simp
  next
    case False
    then have k': "keeps W m fmt (rev (digits 10 width) @ [arg_char a])" using k by (simp add: fmt1_def)
    have "m fmt = hd (rev (digits 10 width) @ [arg_char a])"
      using k' by (cases "rev (digits 10 width)") simp_all
    also have "\<dots> \<noteq> 48"
    proof (cases "width = 0")
      case True
      then show ?thesis by (cases a) simp_all
    next
      case pos: False
      then show ?thesis using digits_first [of width] by (simp add: hd_append hd_rev)
    qed
    finally show ?thesis using False by simp
  qed
qed

lemma length_pad: "length (pad c width xs) = max width (length xs)"
  by (simp add: pad_def)

lemma format_item_output:
  assumes "arg_ok a" and "width < 2147483648" and "arg_at W m arg a"
    and "\<And>x. in_block x tmp 256 \<Longrightarrow> W x \<and> m x = 0"
    and "keeps W m fmt ((if zero then [48] else []) @ rev (digits 10 width) @ [arg_char a])"
    and "\<And>x. in_block x p (length (item_output (Conv zero width a))) \<Longrightarrow> \<not> in_block x tmp 256"
  shows "\<exists>m'. format_item tmp p fmt arg m =
      Inr (p + of_nat (length (item_output (Conv zero width a))),
        fmt + of_nat ((if zero then 1 else 0) + length (digits 10 width)), arg + 4, m') \<and>
    (\<forall>i<length (item_output (Conv zero width a)). m' (p + of_nat i) = item_output (Conv zero width a) ! i) \<and>
    (\<forall>x. \<not> in_block x tmp 256 \<longrightarrow> \<not> in_block x p (length (item_output (Conv zero width a))) \<longrightarrow> m' x = m x)"
proof -
  note head = conversion_head [OF assms(5)]
  note t = arg_text_facts [OF assms(1)]
  obtain m1 where m1: "convert tmp (arg_char a) arg m = Inr (arg + 4, m1)" "cstring m1 tmp (arg_text a)"
    "\<forall>x. \<not> in_block x tmp 256 \<longrightarrow> m1 x = m x"
    using convert_text [OF assms(1,3,4)] by blast
  define out where "out = pad (if zero then 48 else 32) width (arg_text a)"
  have out: "item_output (Conv zero width a) = out" by (simp add: out_def)
  let ?m' = "put_bytes p 0 out m1"
  have ap: "append_padded tmp (if zero then 48 else 32) (of_nat width) p m1 = Some (p + of_nat (length out), ?m')"
    using append_padded_pads [OF m1(2) t(1) assms(2)] assms(6) unfolding out_def out [unfolded out_def] by simp
  have "length out < 4294967296" using t(1) assms(2) by (simp add: out_def length_pad)
  then have "\<forall>i<length out. ?m' (p + of_nat i) = out ! i" by (simp add: put_bytes_def)
  moreover have "\<forall>x. \<not> in_block x tmp 256 \<longrightarrow> \<not> in_block x p (length out) \<longrightarrow> ?m' x = m x"
    using m1(3) put_bytes_frame [of _ p 0 out m1] by simp
  moreover have "format_item tmp p fmt arg m =
      Inr (p + of_nat (length out), fmt + of_nat ((if zero then 1 else 0) + length (digits 10 width)), arg + 4, ?m')"
    using head m1(1) ap by (cases zero) (simp_all add: format_item_def Let_def add.assoc)
  ultimately show ?thesis unfolding out by blast
qed

section \<open>The whole format\<close>

primrec narrow :: "item \<Rightarrow> bool" where
  "narrow (Plain c) \<longleftrightarrow> True"
| "narrow Percent \<longleftrightarrow> True"
| "narrow (Conv zero width a) \<longleftrightarrow> width < 2147483648"

definition formatted :: "item list \<Rightarrow> u8 list" where
  "formatted its = concat (map item_output its)"

lemma formatted_simps [simp]: "formatted [] = []" "formatted (it # its) = item_output it @ formatted its"
  by (simp_all add: formatted_def)

text \<open>A round of the loop puts the output of its item at \<open>p\<close>.\<close>

lemma vsprintf_round:
  assumes "item_ok it" and "narrow it" and "keeps W m fmt (item_text it)" and "args_at W m arg (it # its)"
    and "\<And>x. in_block x tmp 256 \<Longrightarrow> W x"
    and "\<And>x. in_block x p (length (item_output it)) \<Longrightarrow> \<not> in_block x tmp 256"
  shows "\<exists>m' arg'. vsprintf_loop tmp p fmt arg m =
      vsprintf_loop tmp (p + of_nat (length (item_output it))) (fmt + of_nat (length (item_text it))) arg' m' \<and>
    args_at W m arg' its \<and>
    (\<forall>i<length (item_output it). m' (p + of_nat i) = item_output it ! i) \<and>
    (\<forall>x. \<not> in_block x tmp 256 \<longrightarrow> \<not> in_block x p (length (item_output it)) \<longrightarrow> m' x = m x)"
proof -
  define m0 where "m0 = memset tmp 0 256 m"
  have m0: "m0 = (\<lambda>a. if in_block a tmp 256 then 0 else m a)" by (simp add: m0_def memset_eq)
  have keep0: "keeps W m0 a xs" if "keeps W m a xs" for a xs
    by (rule keeps_same [OF that]) (use assms(5) in \<open>auto simp: m0\<close>)
  have k: "keeps W m0 fmt (item_text it)" by (rule keep0 [OF assms(3)])
  show ?thesis
  proof (cases it)
    case (Plain c)
    have "m fmt = c" "m0 fmt = c" "c \<noteq> 0" "c \<noteq> 37" using assms(1,3) k Plain by simp_all
    then have "vsprintf_loop tmp p fmt arg m = vsprintf_loop tmp (p + 1) (fmt + 1) arg (m0(p := c))"
      by (subst vsprintf_loop.simps) (simp add: Let_def m0_def [symmetric])
    then show ?thesis
      using assms(4) Plain by (intro exI [of _ "m0(p := c)"] exI [of _ arg]) (auto simp: m0)
  next
    case Percent
    have "m fmt = 37" "m0 fmt = 37" "m0 (fmt + 1) = 37" using assms(3) k Percent by simp_all
    then have "vsprintf_loop tmp p fmt arg m = vsprintf_loop tmp (p + 1) (fmt + 2) arg (m0(p := 37))"
      by (subst vsprintf_loop.simps) (simp add: Let_def m0_def [symmetric])
    then show ?thesis
      using assms(4) Percent by (intro exI [of _ "m0(p := 37)"] exI [of _ arg]) (auto simp: m0)
  next
    case (Conv zero width a)
    have "\<not> W x \<Longrightarrow> m0 x = m x" for x using assms(5) by (auto simp: m0)
    then have a: "arg_at W m0 arg a" "args_at W m (arg + 4) its"
      using arg_at_same [of W m arg a m0] assms(4) unfolding Conv by simp_all
    have f: "m fmt = 37" "m0 fmt = 37"
      "keeps W m0 (fmt + 1) ((if zero then [48] else []) @ rev (digits 10 width) @ [arg_char a])"
      using assms(3) k Conv by simp_all
    obtain fmt' where fmt': "fmt' = fmt + 1 + of_nat ((if zero then 1 else 0) + length (digits 10 width))" by simp
    have "m0 (fmt + 1) \<noteq> 37"
    proof -
      have "m0 (fmt + 1) \<in> set ((if zero then [48] else []) @ rev (digits 10 width) @ [arg_char a])"
        using f(3) by (cases "(if zero then [48] else []) @ rev (digits 10 width) @ [arg_char a]") auto
      moreover have "37 \<notin> set (digits 10 width)" using digits_are_digits [of 37 width] by auto
      ultimately show ?thesis using arg_char_not_digit(2) [of a] by (auto split: if_splits)
    qed
    moreover obtain m' where m': "format_item tmp p (fmt + 1) arg m0 =
        Inr (p + of_nat (length (item_output it)), fmt', arg + 4, m')"
      "\<forall>i<length (item_output it). m' (p + of_nat i) = item_output it ! i"
      "\<forall>x. \<not> in_block x tmp 256 \<longrightarrow> \<not> in_block x p (length (item_output it)) \<longrightarrow> m' x = m0 x"
      using format_item_output [of a width W m0 arg tmp "fmt + 1" zero p] assms(1,2,5,6) a(1) f(3) unfolding Conv fmt'
      by (auto simp: m0)
    moreover have "fmt' + 1 = fmt + of_nat (length (item_text it))"
      using Conv by (cases zero) (simp_all add: fmt')
    moreover have "m fmt \<noteq> 0" using f(1) by simp
    ultimately have "vsprintf_loop tmp p fmt arg m =
        vsprintf_loop tmp (p + of_nat (length (item_output it))) (fmt + of_nat (length (item_text it))) (arg + 4) m'"
      using f(2) by (subst vsprintf_loop.simps) (simp add: Let_def m0_def [symmetric] del: of_nat_add)
    then show ?thesis using a(2) m'(2,3) by (intro exI [of _ m'] exI [of _ "arg + 4"]) (simp add: m0)
  qed
qed

lemma in_block_shift:
  assumes "in_block x (p + of_nat n) k" and "n + k < 4294967296"
  shows "in_block x p (n + k) \<and> \<not> in_block x p n"
proof -
  obtain i where i: "i < k" "x = p + of_nat n + of_nat i"
    using assms in_block_iff_offset [of k x "p + of_nat n"] by auto
  then have "x - p = of_nat (n + i)" by simp
  then have "unat (x - p) = n + i" using i(1) assms(2) unat_of_nat_u32 [of "n + i"] by (simp only:)
  then show ?thesis using i(1) by (simp add: in_block_def)
qed

lemma vsprintf_loop_items:
  assumes "\<forall>it\<in>set its. item_ok it \<and> narrow it"
    and "keeps W m fmt (concat (map item_text its) @ [0])" and "args_at W m arg its"
    and "\<And>x. in_block x tmp 256 \<Longrightarrow> W x"
    and "\<And>x. in_block x p (length (formatted its)) \<Longrightarrow> W x \<and> \<not> in_block x tmp 256"
    and "length (formatted its) < 4294967296"
  shows "\<exists>m'. vsprintf_loop tmp p fmt arg m = Some (Inr (p + of_nat (length (formatted its)), m')) \<and>
    (\<forall>i<length (formatted its). m' (p + of_nat i) = formatted its ! i) \<and>
    (\<forall>x. \<not> in_block x tmp 256 \<longrightarrow> \<not> in_block x p (length (formatted its)) \<longrightarrow> m' x = m x)"
  using assms
proof (induction its arbitrary: p fmt arg m)
  case Nil
  then show ?case by (simp add: vsprintf_loop.simps)
next
  case (Cons it its)
  define n where "n = length (item_output it)"
  define k where "k = length (formatted its)"
  have nk: "length (formatted (it # its)) = n + k" by (simp add: n_def k_def)
  have fmt: "keeps W m fmt (item_text it)"
    "keeps W m (fmt + of_nat (length (item_text it))) (concat (map item_text its) @ [0])"
    using Cons.prems(2) by (simp_all add: keeps_append)
  have own: "\<not> in_block x tmp 256" if "in_block x p n" for x
    using Cons.prems(5) in_block_less [OF that, of "n + k"] nk by simp
  obtain m1 arg' where r: "vsprintf_loop tmp p fmt arg m =
      vsprintf_loop tmp (p + of_nat n) (fmt + of_nat (length (item_text it))) arg' m1"
    "args_at W m arg' its" "\<forall>i<n. m1 (p + of_nat i) = item_output it ! i"
    "\<forall>x. \<not> in_block x tmp 256 \<longrightarrow> \<not> in_block x p n \<longrightarrow> m1 x = m x"
    using vsprintf_round [of it W m fmt arg its tmp p] Cons.prems(1,3,4) fmt(1) own unfolding n_def by auto
  have same: "m1 x = m x" if "\<not> W x" for x
    using that r(4) Cons.prems(4,5) nk in_block_less [of x p n "n + k"] by auto
  have later: "in_block x p (n + k) \<and> \<not> in_block x p n" if "in_block x (p + of_nat n) k" for x
    using in_block_shift [OF that] Cons.prems(6) nk by simp
  have "\<exists>m'. vsprintf_loop tmp (p + of_nat n) (fmt + of_nat (length (item_text it))) arg' m1 =
        Some (Inr (p + of_nat n + of_nat k, m')) \<and>
      (\<forall>i<k. m' (p + of_nat n + of_nat i) = formatted its ! i) \<and>
      (\<forall>x. \<not> in_block x tmp 256 \<longrightarrow> \<not> in_block x (p + of_nat n) k \<longrightarrow> m' x = m1 x)"
    unfolding k_def
  proof (rule Cons.IH)
    show "keeps W m1 (fmt + of_nat (length (item_text it))) (concat (map item_text its) @ [0])"
      using keeps_same [OF fmt(2) same] .
    show "args_at W m1 arg' its" using args_at_same [OF r(2) same] .
    show "W x \<and> \<not> in_block x tmp 256" if "in_block x (p + of_nat n) (length (formatted its))" for x
      using later [of x] that Cons.prems(5) nk by (simp add: k_def)
  qed (use Cons.prems in auto)
  then obtain m' where m': "vsprintf_loop tmp (p + of_nat n) (fmt + of_nat (length (item_text it))) arg' m1 =
        Some (Inr (p + of_nat n + of_nat k, m'))"
      "\<forall>i<k. m' (p + of_nat n + of_nat i) = formatted its ! i"
      "\<forall>x. \<not> in_block x tmp 256 \<longrightarrow> \<not> in_block x (p + of_nat n) k \<longrightarrow> m' x = m1 x" by blast
  have "m' (p + of_nat i) = formatted (it # its) ! i" if "i < n + k" for i
  proof (cases "i < n")
    case True
    then have "in_block (p + of_nat i) p n" using Cons.prems(6) nk by (intro in_block_offset) simp_all
    then have "m' (p + of_nat i) = m1 (p + of_nat i)" using m'(3) later own by blast
    then show ?thesis using r(3) True by (simp add: nth_append n_def)
  next
    case False
    then have "m' (p + of_nat n + of_nat (i - n)) = formatted its ! (i - n)"
      using that False by (intro m'(2) [rule_format]) linarith
    moreover have "p + of_nat n + of_nat (i - n) = p + of_nat i"
    proof -
      have "(of_nat n + of_nat (i - n) :: u32) = of_nat (n + (i - n))" by (simp only: of_nat_add)
      then show ?thesis using False by (simp add: add.assoc)
    qed
    ultimately show ?thesis using False by (simp add: nth_append n_def)
  qed
  moreover have "m' x = m x" if "\<not> in_block x tmp 256" "\<not> in_block x p (n + k)" for x
  proof -
    have "m' x = m1 x" using m'(3) later that by blast
    also have "\<dots> = m x" using r(4) that in_block_less [of x p n "n + k"] by auto
    finally show ?thesis .
  qed
  moreover have "p + of_nat n + of_nat k = p + of_nat (n + k)" by simp
  ultimately show ?case using r(1) m'(1) unfolding nk by metis
qed

lemma formatted_nonzero:
  assumes "\<forall>it\<in>set its. item_ok it"
  shows "0 \<notin> set (formatted its)"
proof -
  have "0 \<notin> set (item_output it)" if "item_ok it" for it
    using that arg_text_facts(2) by (cases it) (auto simp: pad_def)
  then show ?thesis using assms by (auto simp: formatted_def)
qed

lemma vsprintf_text:
  assumes "\<forall>it\<in>set its. item_ok it \<and> narrow it"
    and "W = (\<lambda>x. in_block x tmp 256 \<or> in_block x buf (length (formatted its) + 1))"
    and "\<forall>x. in_block x buf (length (formatted its) + 1) \<longrightarrow> \<not> in_block x tmp 256"
    and "keeps W m fmt (concat (map item_text its) @ [0])" and "args_at W m args its"
    and "length (formatted its) < 4294967295"
  shows "\<exists>m'. vsprintf tmp buf fmt args m = Inr (of_nat (length (formatted its)), m') \<and>
    cstring m' buf (formatted its) \<and> (\<forall>x. \<not> W x \<longrightarrow> m' x = m x)"
proof -
  define n where "n = length (formatted its)"
  have "\<exists>m'. vsprintf_loop tmp buf fmt args m = Some (Inr (buf + of_nat (length (formatted its)), m')) \<and>
    (\<forall>i<length (formatted its). m' (buf + of_nat i) = formatted its ! i) \<and>
    (\<forall>x. \<not> in_block x tmp 256 \<longrightarrow> \<not> in_block x buf (length (formatted its)) \<longrightarrow> m' x = m x)"
    using assms in_block_less [of _ buf "length (formatted its)" "length (formatted its) + 1"]
    by (intro vsprintf_loop_items [of its W]) auto
  then obtain m' where m': "vsprintf_loop tmp buf fmt args m = Some (Inr (buf + of_nat n, m'))"
    "\<forall>i<n. m' (buf + of_nat i) = formatted its ! i"
    "\<forall>x. \<not> in_block x tmp 256 \<longrightarrow> \<not> in_block x buf n \<longrightarrow> m' x = m x" by (auto simp: n_def)
  let ?m = "m'(buf + of_nat n := 0)"
  have "?m (buf + of_nat i) = formatted its ! i" if "i < n" for i
    using that m'(2) assms(6) of_nat_u32_eq_iff [of i n] by (simp add: n_def)
  then have "cstring ?m buf (formatted its)"
    using formatted_nonzero assms(1) unfolding cstring_nth by (simp add: n_def)
  moreover have "?m x = m x" if "\<not> W x" for x
    using that m'(3) in_block_less [of x buf n "n + 1"] in_block_offset [of n "n + 1" buf] assms(6)
    unfolding assms(2) n_def [symmetric] by (auto simp: n_def)
  moreover have "vsprintf tmp buf fmt args m = Inr (of_nat n, ?m)" using m'(1) by (simp add: vsprintf_def)
  ultimately show ?thesis by (auto simp: n_def)
qed

section \<open>Properties\<close>

text \<open>
  C29. For every well-formed format \<open>vsprintf\<close> leaves at the buffer, as a string, the text of
  its items in order (plain characters, percent signs, and the arguments in hexadecimal,
  decimal, as character or string, padded to the width with blanks or zeros), returns its
  length, and writes only the buffer and the local array. The format, the arguments and the
  strings must lie outside what is written, strings must be shorter than the local array, and
  numbers must not be the smallest \<open>int\<close>.
\<close>

theorem vsprintf_formats:
  assumes "\<forall>it\<in>set its. item_ok it \<and> narrow it"
    and "W = (\<lambda>x. in_block x tmp 256 \<or> in_block x buf (length (formatted its) + 1))"
    and "\<forall>x. in_block x buf (length (formatted its) + 1) \<longrightarrow> \<not> in_block x tmp 256"
    and "keeps W m fmt (concat (map item_text its) @ [0])" and "args_at W m args its"
    and "length (formatted its) < 4294967295"
  shows "\<exists>m'. vsprintf tmp buf fmt args m = Inr (of_nat (length (formatted its)), m') \<and>
    cstring m' buf (formatted its) \<and> (\<forall>x. \<not> W x \<longrightarrow> m' x = m x)"
  using vsprintf_text [OF assms] .

text \<open>The format \<open>v=%03d%%\<close> with the argument 42.\<close>

definition sample_format :: mem where
  "sample_format = (\<lambda>_. 0)(0x100 := 118, 0x101 := 61, 0x102 := 37, 0x103 := 48, 0x104 := 51, 0x105 := 100,
     0x106 := 37, 0x107 := 37, 0x200 := 42)"

definition sample_items :: "item list" where
  "sample_items = [Plain 118, Plain 61, Conv True 3 (Dec 42), Percent]"

lemma sample_items_formatted: "formatted sample_items = [118, 61, 48, 52, 50, 37]"
  by (simp add: sample_items_def pad_def number_text_def digits.simps digit_def)

text \<open>Low addresses are outside a buffer at 0x2000 and an array at 0x1000.\<close>

definition sample_written :: "nat \<Rightarrow> addr \<Rightarrow> bool" where
  "sample_written n = (\<lambda>x. in_block x 0x1000 256 \<or> in_block x 0x2000 n)"

lemma sample_written_low: "n \<le> 0x1000 \<Longrightarrow> unat x < 0x1000 \<Longrightarrow> \<not> sample_written n x"
  using unat_diff_less_iff [of "0x1000" 256 x] unat_diff_less_iff [of "0x2000" n x]
  by (simp add: sample_written_def in_block_def)

lemma sample_written_apart: "n \<le> 0x1000 \<Longrightarrow> \<forall>x. in_block x 0x2000 n \<longrightarrow> \<not> in_block x 0x1000 256"
  using unat_diff_less_iff [of "0x1000" 256] unat_diff_less_iff [of "0x2000" n] by (simp add: in_block_def)

lemma sample_word_low:
  "n \<le> 0x1000 \<Longrightarrow> \<not> sample_written n 512 \<and> \<not> sample_written n 513 \<and> \<not> sample_written n 514 \<and> \<not> sample_written n 515"
  by (simp add: sample_written_low)

lemma sample_format_facts:
  "\<forall>it\<in>set sample_items. item_ok it \<and> narrow it"
  "keeps (sample_written 7) sample_format 0x100 (concat (map item_text sample_items) @ [0])"
  "args_at (sample_written 7) sample_format 0x200 sample_items"
proof -
  show "\<forall>it\<in>set sample_items. item_ok it \<and> narrow it" by (simp add: sample_items_def)
  show "keeps (sample_written 7) sample_format 0x100 (concat (map item_text sample_items) @ [0])"
    by (simp add: sample_items_def sample_format_def digits.simps digit_def sample_written_low)
  have "load32 sample_format 0x200 = 42" by (simp add: load32_def sample_format_def)
  then show "args_at (sample_written 7) sample_format 0x200 sample_items"
    using sample_word_low [of 7] by (simp add: sample_items_def All_less_Suc numeral_eq_Suc)
qed

theorem vsprintf_formats_witness:
  "\<exists>m'. vsprintf 0x1000 0x2000 0x100 0x200 sample_format = Inr (6, m') \<and>
     cstring m' 0x2000 [118, 61, 48, 52, 50, 37]"
proof -
  have seven: "length (formatted sample_items) + 1 = 7" by (simp add: sample_items_formatted)
  show ?thesis
    using vsprintf_formats [OF sample_format_facts(1), unfolded seven, OF sample_written_def sample_written_apart
        sample_format_facts(2,3)] by (auto simp: sample_items_formatted)
qed
end
