(* ===== verification/Ring_Buffer.thy ===== *)
theory Ring_Buffer
  imports Prelude
begin

text \<open>
  The circular buffers of the kernel: the scan codes between the keyboard interrupt and the
  console task (\<open>KB_INPUT\<close>) and the characters typed into each console (\<open>in_buf\<close>). Both
  are an array with a head pointer (next free place), a tail pointer (oldest element) and a
  count; a pointer is its index in the array.

  The interface is a bounded first-in first-out queue (locale \<open>bounded_queue\<close>); the lemmas
  of its clients are proved from the interface, and the two buffers interpret it where they
  are defined.
\<close>

section \<open>The interface\<close>

locale bounded_queue =
  fixes empty :: "'q \<Rightarrow> bool"
    and put :: "'a \<Rightarrow> 'q \<Rightarrow> 'q"
    and get :: "'q \<Rightarrow> 'a \<times> 'q"
    and contents :: "'q \<Rightarrow> 'a list"
    and inv :: "'q \<Rightarrow> bool"
    and capacity :: nat
  assumes empty_contents: "inv q \<Longrightarrow> empty q \<longleftrightarrow> contents q = []"
    and put_inv: "inv q \<Longrightarrow> inv (put x q)"
    and put_contents: "inv q \<Longrightarrow>
      contents (put x q) = (if length (contents q) < capacity then contents q @ [x] else contents q)"
    and get_inv: "inv q \<Longrightarrow> contents q \<noteq> [] \<Longrightarrow> inv (snd (get q))"
    and get_contents: "inv q \<Longrightarrow> contents q \<noteq> [] \<Longrightarrow>
      contents q = fst (get q) # contents (snd (get q))"
    and bounded: "inv q \<Longrightarrow> length (contents q) \<le> capacity"
begin

text \<open>Several elements put in, one after the other: what fits is kept, in order.\<close>

lemma put_all_inv: "inv q \<Longrightarrow> inv (fold put xs q)"
  by (induction xs arbitrary: q) (simp_all add: put_inv)

lemma put_all_contents:
  "inv q \<Longrightarrow> contents (fold put xs q) = contents q @ take (capacity - length (contents q)) xs"
proof (induction xs arbitrary: q)
  case (Cons x xs)
  have IH: "contents (fold put xs (put x q)) =
      contents (put x q) @ take (capacity - length (contents (put x q))) xs"
    using Cons.IH put_inv [OF Cons.prems] by blast
  show ?case
  proof (cases "length (contents q) < capacity")
    case True
    then have "capacity - length (contents q) = Suc (capacity - length (contents (put x q)))"
      using Cons.prems by (simp add: put_contents)
    then show ?thesis using IH True Cons.prems by (simp add: put_contents)
  next
    case False
    then show ?thesis using IH Cons.prems by (simp add: put_contents)
  qed
qed simp

lemma put_all_fit:
  "inv q \<Longrightarrow> length (contents q) + length xs \<le> capacity \<Longrightarrow>
   contents (fold put xs q) = contents q @ xs"
  by (simp add: put_all_contents)

text \<open>Taking out again what was put in.\<close>

lemma get_oldest:
  "inv q \<Longrightarrow> contents q = x # xs \<Longrightarrow> fst (get q) = x \<and> contents (snd (get q)) = xs"
  using get_contents [of q] by simp

lemma get_after_put:
  "inv q \<Longrightarrow> contents q \<noteq> [] \<Longrightarrow> fst (get (put x q)) = fst (get q)"
  using get_contents [of q] get_contents [of "put x q"] put_inv [of q x] put_contents [of q x]
  by (cases "length (contents q) < capacity") (auto simp: append_eq_Cons_conv)

lemma get_put_empty:
  "inv q \<Longrightarrow> contents q = [] \<Longrightarrow> 0 < capacity \<Longrightarrow>
   fst (get (put x q)) = x \<and> contents (snd (get (put x q))) = []"
  using get_contents [of "put x q"] put_inv [of q x] put_contents [of q x] by simp

end

section \<open>The array, two pointers and a count\<close>

record 'a ring =
  ring_buf :: "'a list"
  ring_head :: nat
  ring_tail :: nat
  ring_count :: nat

text \<open>\<open>*(head++) = x\<close>, back to the start at the end of the array, \<open>count++\<close>.\<close>

definition ring_push :: "nat \<Rightarrow> 'a \<Rightarrow> 'a ring \<Rightarrow> 'a ring" where
  "ring_push n x r =
     r\<lparr>ring_buf := (ring_buf r)[ring_head r := x],
       ring_head := (if ring_head r + 1 = n then 0 else ring_head r + 1),
       ring_count := ring_count r + 1\<rparr>"

text \<open>\<open>*(tail++)\<close>, back to the start at the end of the array, \<open>count--\<close>.\<close>

definition ring_pop :: "nat \<Rightarrow> 'a ring \<Rightarrow> 'a \<times> 'a ring" where
  "ring_pop n r =
     (ring_buf r ! ring_tail r,
      r\<lparr>ring_tail := (if ring_tail r + 1 = n then 0 else ring_tail r + 1),
        ring_count := ring_count r - 1\<rparr>)"

definition ring_contents :: "nat \<Rightarrow> 'a ring \<Rightarrow> 'a list" where
  "ring_contents n r = map (\<lambda>i. ring_buf r ! ((ring_tail r + i) mod n)) [0..<ring_count r]"

definition ring_inv :: "nat \<Rightarrow> 'a ring \<Rightarrow> bool" where
  "ring_inv n r \<longleftrightarrow> length (ring_buf r) = n \<and> ring_tail r < n \<and> ring_count r \<le> n \<and>
     ring_head r = (ring_tail r + ring_count r) mod n"

lemma length_ring_contents [simp]: "length (ring_contents n r) = ring_count r"
  by (simp add: ring_contents_def)

lemma wrap_mod: "(i :: nat) < n \<Longrightarrow> (if i + 1 = n then 0 else i + 1) = (i + 1) mod n"
  by (cases "i + 1 = n") simp_all

lemma ring_index_inj:
  assumes "i < n" and "j < n" and "(t + i) mod n = (t + j) mod (n :: nat)"
  shows "i = j"
proof -
  obtain p q where "t + i + n * p = t + j + n * q" using assms(3) nat_mod_eq_iff by blast
  then have "(i + n * p) mod n = (j + n * q) mod n" by simp
  then show ?thesis using assms(1,2) by simp
qed

lemma ring_push_contents:
  assumes "ring_inv n r" and "ring_count r < n"
  shows "ring_inv n (ring_push n x r)"
    and "ring_contents n (ring_push n x r) = ring_contents n r @ [x]"
proof -
  let ?h = "(ring_tail r + ring_count r) mod n"
  have h: "ring_head r = ?h" "?h < n" using assms by (auto simp: ring_inv_def)
  have "(if ring_head r + 1 = n then 0 else ring_head r + 1) = (?h + 1) mod n"
    by (simp only: h(1) wrap_mod [OF h(2)])
  also have "\<dots> = (ring_tail r + (ring_count r + 1)) mod n" by (simp add: mod_simps)
  finally have "(if ring_head r + 1 = n then 0 else ring_head r + 1) =
      (ring_tail r + (ring_count r + 1)) mod n" .
  then show "ring_inv n (ring_push n x r)"
    using assms by (auto simp: ring_inv_def ring_push_def)
  have "(ring_buf r)[?h := x] ! ((ring_tail r + i) mod n) = ring_buf r ! ((ring_tail r + i) mod n)"
    if "i < ring_count r" for i
    using ring_index_inj [of i n "ring_count r" "ring_tail r"] that assms(2) by (metis nth_list_update_neq order_less_trans less_irrefl)
  moreover have "(ring_buf r)[?h := x] ! ?h = x" using h(2) assms(1) by (simp add: ring_inv_def)
  ultimately show "ring_contents n (ring_push n x r) = ring_contents n r @ [x]"
    by (simp add: ring_contents_def ring_push_def h(1))
qed

lemma ring_pop_contents:
  assumes "ring_inv n r" and "0 < ring_count r"
  shows "ring_inv n (snd (ring_pop n r))"
    and "ring_contents n r = fst (ring_pop n r) # ring_contents n (snd (ring_pop n r))"
proof -
  have t: "ring_tail r < n" using assms by (simp add: ring_inv_def)
  have step: "((ring_tail r + 1) mod n + i) mod n = (ring_tail r + Suc i) mod n" for i
    by (simp add: mod_simps)
  obtain c where c: "ring_count r = Suc c" using assms(2) by (cases "ring_count r") auto
  have "length (ring_buf r) = n" "Suc c \<le> n" "ring_head r = (ring_tail r + Suc c) mod n"
    using assms by (simp_all add: ring_inv_def c)
  then show "ring_inv n (snd (ring_pop n r))"
    unfolding ring_pop_def wrap_mod [OF t] c
    using t step [of c] by (simp add: ring_inv_def del: add_Suc_right)
  have "[0..<Suc c] = 0 # map Suc [0..<c]" by (simp add: map_Suc_upt upt_conv_Cons)
  then show "ring_contents n r = fst (ring_pop n r) # ring_contents n (snd (ring_pop n r))"
    using t unfolding ring_contents_def ring_pop_def wrap_mod [OF t] c
    by (simp add: c mod_simps del: upt_Suc)
qed

end
