(* ===== verification/Console.thy ===== *)
theory Console
  imports Ring_Buffer Lib_String
begin

text \<open>
  The three consoles of \<open>kernel/console.c\<close>. Each console owns a third of the text video
  memory, shows a window of 25 lines of it, and has a buffer of typed characters. A cell of
  video memory is named by its number (its address is \<open>VGA_MEM_BASE\<close> plus twice that).
  The controller registers the code programs byte by byte are two 16-bit values: where the
  hardware cursor stands and which cell is at the top left of the screen.
\<close>

section \<open>State\<close>

abbreviation (input) CONSOLE_CNT :: nat where "CONSOLE_CNT \<equiv> 3"
abbreviation (input) CONSOLE_BUF_LENGTH :: nat where "CONSOLE_BUF_LENGTH \<equiv> 128"
abbreviation (input) VGA_MEM_SIZE :: u32 where "VGA_MEM_SIZE \<equiv> 0x8000"
abbreviation (input) TEXT_MODE_WIDTH :: u32 where "TEXT_MODE_WIDTH \<equiv> 80"
abbreviation (input) TEXT_MODE_SIZE :: u32 where "TEXT_MODE_SIZE \<equiv> 2000"

record console =
  con_in :: "u8 ring"
  cursor_pos :: u32
  vga_start_addr :: u32
  vga_mem_start :: u32
  vga_mem_end :: u32

record display =
  consoles :: "console list"
  current_console :: nat
  cells :: "u32 \<Rightarrow> u16"
  crt_cursor :: u16
  crt_start :: u16
  position :: u32

definition con :: "display \<Rightarrow> nat \<Rightarrow> console" where
  "con d i = consoles d ! i"

definition upd_con :: "nat \<Rightarrow> (console \<Rightarrow> console) \<Rightarrow> display \<Rightarrow> display" where
  "upd_con i f d = d\<lparr>consoles := (consoles d)[i := f (con d i)]\<rparr>"

section \<open>The controller\<close>

text \<open>A high byte and a low byte, each written to its own register.\<close>

definition two_bytes :: "u32 \<Rightarrow> u16" where
  "two_bytes x = push_bit 8 (ucast (drop_bit 8 x AND 0xff)) OR ucast (x AND 0xff)"

definition set_cursor :: "u32 \<Rightarrow> display \<Rightarrow> display" where
  "set_cursor pos d = d\<lparr>crt_cursor := two_bytes pos\<rparr>"

definition set_start_address :: "u32 \<Rightarrow> display \<Rightarrow> display" where
  "set_start_address address d = d\<lparr>crt_start := two_bytes address\<rparr>"

text \<open>
  The same through the two ports: the index register selects the register the data port writes.
  A register pair holds what \<open>crt_cursor\<close> and \<open>crt_start\<close> hold.
\<close>

abbreviation (input) CRTCR_AR :: u16 where "CRTCR_AR \<equiv> 0x3d4"
abbreviation (input) CRTCR_DR :: u16 where "CRTCR_DR \<equiv> 0x3d5"
abbreviation (input) SAHR_INDEX :: u8 where "SAHR_INDEX \<equiv> 0xc"
abbreviation (input) SALR_INDEX :: u8 where "SALR_INDEX \<equiv> 0xd"
abbreviation (input) CLHR_INDEX :: u8 where "CLHR_INDEX \<equiv> 0xe"
abbreviation (input) CLLR_INDEX :: u8 where "CLLR_INDEX \<equiv> 0xf"

type_synonym crt_ports = "u8 \<times> (u8 \<Rightarrow> u8)"

definition crt_outb :: "u8 \<Rightarrow> u16 \<Rightarrow> crt_ports \<Rightarrow> crt_ports" where
  "crt_outb v port = (\<lambda>(i, r). if port = CRTCR_AR then (v, r) else if port = CRTCR_DR then (i, r(i := v)) else (i, r))"

definition set_cursor_ports :: "u32 \<Rightarrow> crt_ports \<Rightarrow> crt_ports" where
  "set_cursor_ports pos c =
     crt_outb (ucast (pos AND 0xff)) CRTCR_DR (crt_outb CLLR_INDEX CRTCR_AR
      (crt_outb (ucast (drop_bit 8 pos AND 0xff)) CRTCR_DR (crt_outb CLHR_INDEX CRTCR_AR c)))"

definition set_start_address_ports :: "u32 \<Rightarrow> crt_ports \<Rightarrow> crt_ports" where
  "set_start_address_ports addr c =
     crt_outb (ucast (addr AND 0xff)) CRTCR_DR (crt_outb SALR_INDEX CRTCR_AR
      (crt_outb (ucast (drop_bit 8 addr AND 0xff)) CRTCR_DR (crt_outb SAHR_INDEX CRTCR_AR c)))"

definition crt_pair :: "u8 \<Rightarrow> u8 \<Rightarrow> crt_ports \<Rightarrow> u16" where
  "crt_pair hi lo c = push_bit 8 (ucast (snd c hi)) OR ucast (snd c lo)"

definition crt_shows :: "display \<Rightarrow> crt_ports \<Rightarrow> bool" where
  "crt_shows d c \<longleftrightarrow> crt_pair CLHR_INDEX CLLR_INDEX c = crt_cursor d \<and> crt_pair SAHR_INDEX SALR_INDEX c = crt_start d"

lemma crt_bytes:
  "push_bit 8 (ucast (ucast (drop_bit 8 x AND 0xff) :: u8)) OR ucast (ucast (x AND 0xff) :: u8) = two_bytes x"
proof -
  have "ucast (ucast (y AND 0xff) :: u8) = (ucast (y AND 0xff) :: u16)" for y :: u32
  proof -
    have "y AND 0xff = take_bit 8 y" by (simp add: take_bit_eq_mask mask_eq_exp_minus_1)
    then show ?thesis by (auto intro!: bit_word_eqI simp: bit_simps)
  qed
  then show ?thesis by (simp add: two_bytes_def)
qed

lemma crt_shows_set:
  "crt_shows d c \<Longrightarrow> crt_shows (set_cursor pos d) (set_cursor_ports pos c)"
  "crt_shows d c \<Longrightarrow> crt_shows (set_start_address pos d) (set_start_address_ports pos c)"
  by (cases c; simp add: crt_shows_def crt_pair_def set_cursor_def set_start_address_def set_cursor_ports_def
      set_start_address_ports_def crt_outb_def crt_bytes)+

section \<open>Scrolling and printing\<close>

definition scroll_console :: "nat \<Rightarrow> c_int \<Rightarrow> display \<Rightarrow> display" where
  "scroll_console i direction d =
     (let c = con d i;
          d1 = (if 0 <s direction then
                  (if vga_mem_start c < vga_start_addr c
                   then upd_con i (\<lambda>c. c\<lparr>vga_start_addr := vga_start_addr c - direction * TEXT_MODE_WIDTH\<rparr>) d
                   else d)
                else if direction <s 0 then
                  (if vga_start_addr c + TEXT_MODE_SIZE < vga_mem_end c
                   then upd_con i (\<lambda>c. c\<lparr>vga_start_addr := vga_start_addr c - direction * TEXT_MODE_WIDTH\<rparr>) d
                   else d)
                else d)
      in if current_console d1 = i
         then set_cursor (cursor_pos (con d1 i)) (set_start_address (vga_start_addr (con d1 i)) d1)
         else d1)"

text \<open>The \<open>while\<close> loop at the end of \<open>print_character\<close>.\<close>

partial_function (option) scroll_to_cursor :: "nat \<Rightarrow> display \<Rightarrow> display option" where
  "scroll_to_cursor i d =
     (if vga_start_addr (con d i) + TEXT_MODE_SIZE \<le> cursor_pos (con d i)
      then scroll_to_cursor i (scroll_console i (- 1) d)
      else Some d)"

text \<open>The \<open>switch\<close>: \<open>c\<close> is a signed \<open>char\<close>, so it is widened with its sign.\<close>

definition put_character :: "nat \<Rightarrow> u8 \<Rightarrow> display \<Rightarrow> display" where
  "put_character i c d =
     (let k = con d i in
      if c = 10 then
        (if cursor_pos k < vga_mem_end k - TEXT_MODE_WIDTH
         then upd_con i (\<lambda>k. k\<lparr>cursor_pos := vga_mem_start k + TEXT_MODE_WIDTH *
                ((cursor_pos k - vga_mem_start k) div TEXT_MODE_WIDTH + 1)\<rparr>) d
         else d)
      else if c = 8 then
        (if vga_mem_start k < cursor_pos k
         then upd_con i (\<lambda>k. k\<lparr>cursor_pos := cursor_pos k - 1\<rparr>)
                (d\<lparr>cells := (cells d)(cursor_pos k - 1 := 0x20 OR push_bit 8 0x0f)\<rparr>)
         else d)
      else
        (if cursor_pos k < vga_mem_end k - 1
         then upd_con i (\<lambda>k. k\<lparr>cursor_pos := cursor_pos k + 1\<rparr>)
                (d\<lparr>cells := (cells d)(cursor_pos k := scast c OR push_bit 8 0x0f)\<rparr>)
         else d))"

definition print_character :: "nat \<Rightarrow> u8 \<Rightarrow> display \<Rightarrow> display option" where
  "print_character i c d =
     map_option (\<lambda>d'. if current_console d' = i
                      then set_start_address (vga_start_addr (con d' i))
                             (set_cursor (cursor_pos (con d' i)) d')
                      else d')
       (scroll_to_cursor i (put_character i c d))"

fun print_characters :: "nat \<Rightarrow> u8 list \<Rightarrow> display \<Rightarrow> display option" where
  "print_characters i [] d = Some d"
| "print_characters i (c # cs) d = Option.bind (print_character i c d) (print_characters i cs)"

text \<open>\<open>console_write(con_id, buf, len)\<close>: the \<open>len\<close> bytes from \<open>buf\<close>.\<close>

definition console_write :: "nat \<Rightarrow> addr \<Rightarrow> c_int \<Rightarrow> mem \<Rightarrow> display \<Rightarrow> display option" where
  "console_write con_id buf len m d =
     print_characters con_id (map (\<lambda>j. m (buf + of_nat j)) [0..<unat len]) d"

section \<open>Start\<close>

definition init_console :: "nat \<Rightarrow> display \<Rightarrow> display option" where
  "init_console i d =
     (let vmem_size = drop_bit 1 VGA_MEM_SIZE;
          offset = vmem_size div of_nat CONSOLE_CNT;
          d1 = upd_con i (\<lambda>c. c\<lparr>con_in := (con_in c)\<lparr>ring_count := 0, ring_head := 0, ring_tail := 0\<rparr>,
                 vga_mem_start := of_nat i * offset,
                 vga_mem_end := of_nat i * offset + offset,
                 vga_start_addr := of_nat i * offset,
                 cursor_pos := of_nat i * offset\<rparr>) d
      in if i = 0
         then Some ((upd_con i (\<lambda>c. c\<lparr>cursor_pos := position d div 2\<rparr>) d1)\<lparr>position := 0\<rparr>)
         else print_characters i [of_nat i + 48, 35, 32] d1)"

definition init_consoles :: "display \<Rightarrow> display option" where
  "init_consoles d =
     Option.bind (init_console 0 d) (\<lambda>d0. Option.bind (init_console 1 d0) (init_console 2))"

definition change_current_console :: "nat \<Rightarrow> display \<Rightarrow> display" where
  "change_current_console i d =
     (if CONSOLE_CNT \<le> i then d
      else set_start_address (vga_start_addr (con d i))
             (set_cursor (cursor_pos (con d i)) (d\<lparr>current_console := i\<rparr>)))"

section \<open>Typed characters\<close>

definition take_key :: "console \<Rightarrow> u8 \<times> console" where
  "take_key k = (let (c, r) = ring_pop CONSOLE_BUF_LENGTH (con_in k) in (c, k\<lparr>con_in := r\<rparr>))"

definition console_write_key :: "nat \<Rightarrow> display \<Rightarrow> display option" where
  "console_write_key i d =
     (if ring_count (con_in (con d i)) \<noteq> 0
      then print_character i (fst (take_key (con d i))) (upd_con i (\<lambda>k. snd (take_key k)) d)
      else Some d)"

definition store_key :: "u32 \<Rightarrow> console \<Rightarrow> console \<times> bool" where
  "store_key key c =
     (if ring_count (con_in c) < CONSOLE_BUF_LENGTH
      then (c\<lparr>con_in := ring_push CONSOLE_BUF_LENGTH (ucast key) (con_in c)\<rparr>, True)
      else (c, False))"

abbreviation (input) FLAG_BREAK :: u8 where "FLAG_BREAK \<equiv> 0x80"
abbreviation (input) FLAG_EXT :: u32 where "FLAG_EXT \<equiv> 0x0100"
abbreviation (input) FLAG_SHIFT_L :: u32 where "FLAG_SHIFT_L \<equiv> 0x0200"
abbreviation (input) FLAG_SHIFT_R :: u32 where "FLAG_SHIFT_R \<equiv> 0x0400"
abbreviation (input) FLAG_CTRL_L :: u32 where "FLAG_CTRL_L \<equiv> 0x0800"
abbreviation (input) FLAG_CTRL_R :: u32 where "FLAG_CTRL_R \<equiv> 0x1000"
abbreviation (input) MASK_RAW :: u32 where "MASK_RAW \<equiv> 0x01FF"
abbreviation (input) ENTER :: u32 where "ENTER \<equiv> 0x103"
abbreviation (input) BACKSPACE :: u32 where "BACKSPACE \<equiv> 0x104"
abbreviation (input) F1 :: u32 where "F1 \<equiv> 0x111"
abbreviation (input) UP :: u32 where "UP \<equiv> 0x125"
abbreviation (input) DOWN :: u32 where "DOWN \<equiv> 0x126"

definition store_key_into_console :: "nat \<Rightarrow> u32 \<Rightarrow> display \<Rightarrow> display" where
  "store_key_into_console i key d =
     (if key AND FLAG_EXT = 0 then upd_con i (\<lambda>c. fst (store_key key c)) d
      else
        (let raw_code = key AND MASK_RAW in
         if raw_code = ENTER then upd_con i (\<lambda>c. fst (store_key 10 c)) d
         else if raw_code = BACKSPACE then upd_con i (\<lambda>c. fst (store_key 8 c)) d
         else if raw_code = UP then
           (if key AND FLAG_SHIFT_L \<noteq> 0 \<or> key AND FLAG_SHIFT_R \<noteq> 0 then scroll_console i 1 d else d)
         else if raw_code = DOWN then
           (if key AND FLAG_SHIFT_L \<noteq> 0 \<or> key AND FLAG_SHIFT_R \<noteq> 0 then scroll_console i (- 1) d else d)
         else if raw_code = F1 \<or> raw_code = F1 + 1 \<or> raw_code = F1 + 2 then
           (if key AND FLAG_CTRL_L \<noteq> 0 \<or> key AND FLAG_CTRL_R \<noteq> 0
            then change_current_console (unat (raw_code - F1)) d else d)
         else d))"

section \<open>The invariant\<close>

text \<open>
  Console \<open>i\<close> owns 5461 cells, shows whole lines of them from line \<open>l\<close> on, and its cursor
  stands on one of them.
\<close>

definition console_wf :: "nat \<Rightarrow> console \<Rightarrow> bool" where
  "console_wf i c \<longleftrightarrow> ring_inv CONSOLE_BUF_LENGTH (con_in c) \<and>
     vga_mem_start c = of_nat (5461 * i) \<and> vga_mem_end c = of_nat (5461 * i + 5461) \<and>
     (\<exists>l\<le>44. vga_start_addr c = of_nat (5461 * i + 80 * l)) \<and>
     (\<exists>p<5461. cursor_pos c = of_nat (5461 * i + p))"

definition display_wf :: "display \<Rightarrow> bool" where
  "display_wf d \<longleftrightarrow> length (consoles d) = CONSOLE_CNT \<and> current_console d < CONSOLE_CNT \<and>
     (\<forall>i<CONSOLE_CNT. console_wf i (con d i))"

text \<open>The controller shows the current console.\<close>

definition synced :: "display \<Rightarrow> bool" where
  "synced d \<longleftrightarrow> crt_cursor d = ucast (cursor_pos (con d (current_console d))) \<and>
     crt_start d = ucast (vga_start_addr (con d (current_console d)))"


section \<open>Lemmas\<close>

lemma con_upd_con:
  "i < length (consoles d) \<Longrightarrow> con (upd_con i f d) j = (if j = i then f (con d i) else con d j)"
  by (simp add: con_def upd_con_def)

lemma con_other [simp]: "j \<noteq> i \<Longrightarrow> con (upd_con i f d) j = con d j"
  by (simp add: con_def upd_con_def)

lemma upd_con_simps [simp]:
  "length (consoles (upd_con i f d)) = length (consoles d)"
  "current_console (upd_con i f d) = current_console d" "cells (upd_con i f d) = cells d"
  "crt_cursor (upd_con i f d) = crt_cursor d" "crt_start (upd_con i f d) = crt_start d"
  "position (upd_con i f d) = position d"
  by (simp_all add: upd_con_def)

lemma crt_simps [simp]:
  "consoles (set_cursor x d) = consoles d" "consoles (set_start_address x d) = consoles d"
  "current_console (set_cursor x d) = current_console d"
  "current_console (set_start_address x d) = current_console d"
  "cells (set_cursor x d) = cells d" "cells (set_start_address x d) = cells d"
  "position (set_cursor x d) = position d" "position (set_start_address x d) = position d"
  "con (set_cursor x d) j = con d j" "con (set_start_address x d) j = con d j"
  "con (d\<lparr>cells := f\<rparr>) j = con d j" "con (d\<lparr>position := y\<rparr>) j = con d j"
  "con (d\<lparr>current_console := n\<rparr>) j = con d j"
  by (simp_all add: set_cursor_def set_start_address_def con_def)

lemma two_bytes_eq: "two_bytes x = ucast x"
proof (rule bit_word_eqI)
  have ff: "(0xff :: u32) = mask 8" by (simp add: mask_eq_exp_minus_1)
  fix n assume "n < LENGTH(16)"
  then have "n < 8 \<or> 8 \<le> n \<and> n < 16" by auto
  then show "bit (two_bytes x) n = bit (ucast x :: u16) n"
    unfolding two_bytes_def ff by (auto simp: bit_simps)
qed


text \<open>Cells and lines of console \<open>i\<close>, as numbers.\<close>

lemma cell_nat:
  assumes "i < CONSOLE_CNT" and "p < 16384"
  shows "unat (of_nat (5461 * i + p) :: u32) = 5461 * i + p"
  using assms by (intro unat_of_nat_u32) simp

lemma cell_less_iff:
  "i < CONSOLE_CNT \<Longrightarrow> p < 16384 \<Longrightarrow> q < 16384 \<Longrightarrow>
   (of_nat (5461 * i + p) :: u32) < of_nat (5461 * i + q) \<longleftrightarrow> p < q"
  "i < CONSOLE_CNT \<Longrightarrow> p < 16384 \<Longrightarrow> q < 16384 \<Longrightarrow>
   (of_nat (5461 * i + p) :: u32) \<le> of_nat (5461 * i + q) \<longleftrightarrow> p \<le> q"
  by (simp_all only: word_less_nat_alt word_le_nat_alt cell_nat) simp_all

text \<open>A console that is well formed, with its line and its cell.\<close>

definition shows_at :: "nat \<Rightarrow> nat \<Rightarrow> nat \<Rightarrow> console \<Rightarrow> bool" where
  "shows_at i l p c \<longleftrightarrow> ring_inv CONSOLE_BUF_LENGTH (con_in c) \<and>
     vga_mem_start c = of_nat (5461 * i) \<and> vga_mem_end c = of_nat (5461 * i + 5461) \<and>
     vga_start_addr c = of_nat (5461 * i + 80 * l) \<and> l \<le> 44 \<and>
     cursor_pos c = of_nat (5461 * i + p) \<and> p < 5461"

lemma console_wf_shows_at: "console_wf i c \<longleftrightarrow> (\<exists>l p. shows_at i l p c)"
  by (auto simp: console_wf_def shows_at_def)

text \<open>What an operation on console \<open>i\<close> leaves alone.\<close>

definition own_cell :: "nat \<Rightarrow> u32 \<Rightarrow> bool" where
  "own_cell i a \<longleftrightarrow> (\<exists>p<5461. a = of_nat (5461 * i + p))"

definition own_change :: "nat \<Rightarrow> display \<Rightarrow> display \<Rightarrow> bool" where
  "own_change i d d' \<longleftrightarrow> length (consoles d') = length (consoles d) \<and>
     current_console d' = current_console d \<and> position d' = position d \<and>
     (\<forall>j. j \<noteq> i \<longrightarrow> con d' j = con d j) \<and>
     (\<forall>a. \<not> own_cell i a \<longrightarrow> cells d' a = cells d a) \<and>
     (current_console d \<noteq> i \<longrightarrow> crt_cursor d' = crt_cursor d \<and> crt_start d' = crt_start d)"

lemma own_change_refl [simp]: "own_change i d d"
  by (simp add: own_change_def)

lemma own_change_trans: "own_change i d d1 \<Longrightarrow> own_change i d1 d2 \<Longrightarrow> own_change i d d2"
  by (auto simp: own_change_def)

lemma own_change_upd_con [simp]: "own_change i d (upd_con i f d)"
  by (simp add: own_change_def)

lemma own_change_cell:
  "p < 5461 \<Longrightarrow> own_change i d (d\<lparr>cells := (cells d)(of_nat (5461 * i + p) := x)\<rparr>)"
  by (auto simp: own_change_def con_def own_cell_def)

lemma own_change_crt:
  "current_console d = i \<Longrightarrow> own_change i d (set_cursor x d)"
  "current_console d = i \<Longrightarrow> own_change i d (set_start_address x d)"
  by (simp_all add: own_change_def)

lemma own_change_wf:
  assumes "display_wf d" and "own_change i d d'" and "i < CONSOLE_CNT" and "console_wf i (con d' i)"
  shows "display_wf d'"
  using assms by (auto simp: display_wf_def own_change_def) metis

text \<open>The cells of one console are none of another's.\<close>

lemma own_cell_unique:
  assumes "i < CONSOLE_CNT" and "j < CONSOLE_CNT" and "own_cell i a" and "own_cell j a"
  shows "i = j"
proof -
  obtain p q where pq: "p < 5461" "a = of_nat (5461 * i + p)" "q < 5461" "a = of_nat (5461 * j + q)"
    using assms(3,4) by (auto simp: own_cell_def)
  then have "5461 * i + p = 5461 * j + q"
    using assms(1,2) of_nat_u32_eq_iff [of "5461 * i + p" "5461 * j + q"] by simp
  then have "(5461 * i + p) div 5461 = (5461 * j + q) div 5461" by simp
  then show ?thesis using pq(1,3) by simp
qed

text \<open>Scrolling.\<close>

lemma scroll_console_own: "own_change i d (scroll_console i dir d)"
  by (auto simp: scroll_console_def Let_def
      intro!: own_change_trans [OF _ own_change_crt(1)] own_change_trans [OF _ own_change_crt(2)])

lemma scroll_console_con:
  assumes "i < CONSOLE_CNT" and "length (consoles d) = CONSOLE_CNT" and s: "shows_at i l p (con d i)"
  shows "con (scroll_console i (- 1) d) i =
      (if 80 * l + 2000 < 5461 then (con d i)\<lparr>vga_start_addr := of_nat (5461 * i + 80 * (l + 1))\<rparr> else con d i)"
    "con (scroll_console i 1 d) i =
      (if 0 < l then (con d i)\<lparr>vga_start_addr := of_nat (5461 * i + 80 * (l - 1))\<rparr> else con d i)"
    "cells (scroll_console i dir d) = cells d"
proof -
  have test: "vga_start_addr (con d i) + TEXT_MODE_SIZE < vga_mem_end (con d i) \<longleftrightarrow> 80 * l + 2000 < 5461"
  proof -
    have "l \<le> 44" using s by (simp add: shows_at_def)
    then show ?thesis
      using cell_less_iff(1) [of i "80 * l + 2000" 5461] assms(1) s by (simp add: shows_at_def add.assoc)
  qed
  have neg: "(- 1 :: c_int) <s 0" "\<not> 0 <s (- 1 :: c_int)" by (simp_all add: word_sless_alt)
  show "con (scroll_console i (- 1) d) i =
      (if 80 * l + 2000 < 5461 then (con d i)\<lparr>vga_start_addr := of_nat (5461 * i + 80 * (l + 1))\<rparr> else con d i)"
    using assms test neg
    by (simp add: scroll_console_def Let_def con_upd_con shows_at_def algebra_simps)
  have test': "vga_mem_start (con d i) < vga_start_addr (con d i) \<longleftrightarrow> 0 < l"
    using cell_less_iff(1) [of i 0 "80 * l"] assms(1) s by (simp add: shows_at_def)
  have pos: "0 <s (1 :: c_int)" by (simp add: word_sless_alt)
  show "con (scroll_console i 1 d) i =
      (if 0 < l then (con d i)\<lparr>vga_start_addr := of_nat (5461 * i + 80 * (l - 1))\<rparr> else con d i)"
  proof (cases l)
    case (Suc m)
    then show ?thesis
      using assms test' pos
      by (simp add: scroll_console_def Let_def con_upd_con shows_at_def algebra_simps)
  qed (use assms test' pos in \<open>simp add: scroll_console_def Let_def\<close>)
  show "cells (scroll_console i dir d) = cells d"
    by (simp add: scroll_console_def Let_def)
qed


lemma scroll_to_cursor_stop:
  "\<not> vga_start_addr (con d i) + TEXT_MODE_SIZE \<le> cursor_pos (con d i) \<Longrightarrow> scroll_to_cursor i d = Some d"
  "vga_start_addr (con d i) + TEXT_MODE_SIZE \<le> cursor_pos (con d i) \<Longrightarrow>
     scroll_to_cursor i d = scroll_to_cursor i (scroll_console i (- 1) d)"
  by (simp_all add: scroll_to_cursor.simps [of i d])

lemma scroll_to_cursor_result:
  assumes "i < CONSOLE_CNT" and "length (consoles d) = CONSOLE_CNT" and "shows_at i l p (con d i)"
  shows "\<exists>d' l'. scroll_to_cursor i d = Some d' \<and> own_change i d d' \<and> cells d' = cells d \<and>
    con d' i = (con d i)\<lparr>vga_start_addr := of_nat (5461 * i + 80 * l')\<rparr> \<and>
    l \<le> l' \<and> l' \<le> 44 \<and> p < 80 * l' + 2000 \<and> (p < 80 * l + 2000 \<longrightarrow> l' = l)"
  using assms(2,3)
proof (induction "44 - l" arbitrary: l d rule: less_induct)
  case less
  have b: "l \<le> 44" "p < 5461" using less.prems(2) by (simp_all add: shows_at_def)
  have test: "vga_start_addr (con d i) + TEXT_MODE_SIZE \<le> cursor_pos (con d i) \<longleftrightarrow> 80 * l + 2000 \<le> p"
    using cell_less_iff(2) [of i "80 * l + 2000" p] assms(1) b less.prems(2)
    by (simp add: shows_at_def add.assoc)
  show ?case
  proof (cases "80 * l + 2000 \<le> p")
    case False
    then show ?thesis
      using scroll_to_cursor_stop(1) test less.prems(2) b
      by (intro exI [of _ d] exI [of _ l]) (simp add: shows_at_def)
  next
    case True
    let ?d = "scroll_console i (- 1) d"
    have room: "80 * l + 2000 < 5461" "l < 44" using True b by simp_all
    then have c: "con ?d i = (con d i)\<lparr>vga_start_addr := of_nat (5461 * i + 80 * (l + 1))\<rparr>"
      using scroll_console_con(1) [OF assms(1) less.prems] by simp
    have sh: "shows_at i (l + 1) p (con ?d i)"
      using less.prems(2) room by (simp add: c shows_at_def)
    have len: "length (consoles ?d) = CONSOLE_CNT"
      using scroll_console_own [of i d "- 1"] less.prems(1) by (simp add: own_change_def)
    have m: "44 - (l + 1) < 44 - l" using room(2) by arith
    obtain d' l' where "scroll_to_cursor i ?d = Some d'" "own_change i ?d d'" "cells d' = cells ?d"
        "con d' i = (con ?d i)\<lparr>vga_start_addr := of_nat (5461 * i + 80 * l')\<rparr>"
        "l + 1 \<le> l'" "l' \<le> 44" "p < 80 * l' + 2000"
      using less.hyps [OF m len sh] by auto
    then show ?thesis
      using scroll_to_cursor_stop(2) test True c scroll_console_con(3) [OF assms(1) less.prems]
        own_change_trans [OF scroll_console_own]
      by (intro exI [of _ d'] exI [of _ l']) simp
  qed
qed

text \<open>Where the cursor goes, and what is written, for each character.\<close>

definition next_cell :: "u8 \<Rightarrow> nat \<Rightarrow> nat" where
  "next_cell c p =
     (if c = 10 then (if p < 5381 then 80 * (p div 80 + 1) else p)
      else if c = 8 then p - 1
      else if p < 5460 then p + 1 else p)"

definition write_cell :: "u8 \<Rightarrow> nat \<Rightarrow> (nat \<Rightarrow> u16) \<Rightarrow> nat \<Rightarrow> u16" where
  "write_cell c p f =
     (if c = 10 then f
      else if c = 8 then (if 0 < p then f(p - 1 := 0x0f20) else f)
      else if p < 5460 then f(p := scast c OR 0x0f00) else f)"

definition own_cells :: "nat \<Rightarrow> display \<Rightarrow> nat \<Rightarrow> u16" where
  "own_cells i d p = cells d (of_nat (5461 * i + p))"

lemma own_cells_update:
  assumes "i < CONSOLE_CNT" and "p < 5461" and "q < 5461"
  shows "own_cells i (d\<lparr>cells := (cells d)(of_nat (5461 * i + p) := x)\<rparr>) q = ((own_cells i d)(p := x)) q"
proof -
  have "(of_nat (5461 * i + q) :: u32) = of_nat (5461 * i + p) \<longleftrightarrow> q = p"
    using assms by (subst of_nat_u32_eq_iff) simp_all
  then show ?thesis unfolding own_cells_def by (simp del: of_nat_add of_nat_mult)
qed

lemma own_cells_simps [simp]: "own_cells i (upd_con j f d) = own_cells i d"
  by (simp add: own_cells_def fun_eq_iff)

lemma own_cells_other:
  assumes "i < CONSOLE_CNT" and "j < CONSOLE_CNT" and "i \<noteq> j" and "q < 5461" and "own_change i d d'"
  shows "own_cells j d' q = own_cells j d q"
proof -
  have "own_cell j (of_nat (5461 * j + q))" unfolding own_cell_def using assms(4) by blast
  then have "\<not> own_cell i (of_nat (5461 * j + q))"
    using own_cell_unique [OF assms(1,2)] assms(3) by blast
  then show ?thesis using assms(5) by (simp add: own_cells_def own_change_def del: of_nat_add of_nat_mult)
qed

lemma next_cell_less: "p < 5461 \<Longrightarrow> next_cell c p < 5461"
proof -
  assume p: "p < 5461"
  have "80 * (p div 80 + 1) < 5461" if "p < 5381"
    using that div_times_less_eq_dividend [of p 80] by (simp add: distrib_left)
  then show ?thesis using p by (auto simp: next_cell_def)
qed

lemma put_character_result:
  assumes i: "i < CONSOLE_CNT" and len: "length (consoles d) = CONSOLE_CNT"
    and s: "shows_at i l p (con d i)"
  shows "shows_at i l (next_cell c p) (con (put_character i c d) i)"
    "own_change i d (put_character i c d)"
    "q < 5461 \<Longrightarrow> own_cells i (put_character i c d) q = write_cell c p (own_cells i d) q"
proof -
  let ?k = "con d i"
  have p: "p < 5461" and cur: "cursor_pos ?k = of_nat (5461 * i + p)"
    and ms: "vga_mem_start ?k = of_nat (5461 * i)" and me: "vga_mem_end ?k = of_nat (5461 * i + 5461)"
    using s by (simp_all add: shows_at_def)
  have t1: "cursor_pos ?k < vga_mem_end ?k - TEXT_MODE_WIDTH \<longleftrightarrow> p < 5381"
    using cell_less_iff(1) [of i p 5381] i p by (simp add: cur me ac_simps)
  have t2: "vga_mem_start ?k < cursor_pos ?k \<longleftrightarrow> 0 < p"
    using cell_less_iff(1) [of i 0 p] i p by (simp add: cur ms)
  have t3: "cursor_pos ?k < vga_mem_end ?k - 1 \<longleftrightarrow> p < 5460"
    using cell_less_iff(1) [of i p 5460] i p by (simp add: cur me ac_simps)
  have line: "vga_mem_start ?k + TEXT_MODE_WIDTH * ((cursor_pos ?k - vga_mem_start ?k) div TEXT_MODE_WIDTH + 1) =
      of_nat (5461 * i + 80 * (p div 80 + 1))"
  proof -
    have "unat (of_nat p :: u32) = p" using p by (intro unat_of_nat_u32) simp
    then have "(of_nat p :: u32) div 80 = of_nat (p div 80)"
      by (simp add: word_arith_nat_div)
    then show ?thesis by (simp add: cur ms algebra_simps)
  qed
  have dec: "cursor_pos ?k - 1 = of_nat (5461 * i + (p - 1))" if "0 < p"
    using that by (simp add: cur)
  have inc: "cursor_pos ?k + 1 = of_nat (5461 * i + (p + 1))" by (simp add: cur)
  have nc: "next_cell c p < 5461" using p by (rule next_cell_less)
  consider (nl) "c = 10" | (bs) "c = 8" | (ch) "c \<noteq> 10" "c \<noteq> 8" by blast
  then have "shows_at i l (next_cell c p) (con (put_character i c d) i) \<and>
    own_change i d (put_character i c d) \<and>
    (\<forall>q<5461. own_cells i (put_character i c d) q = write_cell c p (own_cells i d) q)"
  proof cases
    case nl
    show ?thesis
    proof (cases "p < 5381")
      case True
      have "put_character i c d = upd_con i (\<lambda>k. k\<lparr>cursor_pos := of_nat (5461 * i + 80 * (p div 80 + 1))\<rparr>) d"
        using nl True t1 line
        by (simp add: put_character_def Let_def upd_con_def del: distrib_left_numeral of_nat_add of_nat_mult)
      moreover have "next_cell c p = 80 * (p div 80 + 1)" using nl True by (simp add: next_cell_def)
      ultimately show ?thesis
        using s nc i len nl by (simp add: con_upd_con shows_at_def write_cell_def)
    next
      case False
      then have "put_character i c d = d" "next_cell c p = p"
        using nl t1 by (simp_all add: put_character_def Let_def next_cell_def)
      then show ?thesis using s nl by (simp add: write_cell_def)
    qed
  next
    case bs
    show ?thesis
    proof (cases "0 < p")
      case True
      have "put_character i c d = upd_con i (\<lambda>k. k\<lparr>cursor_pos := of_nat (5461 * i + (p - 1))\<rparr>)
          (d\<lparr>cells := (cells d)(of_nat (5461 * i + (p - 1)) := 0x0f20)\<rparr>)"
        using bs True t2 dec [OF True] by (simp add: put_character_def Let_def upd_con_def con_def)
      moreover have "own_change i d (d\<lparr>cells := (cells d)(of_nat (5461 * i + (p - 1)) := 0x0f20)\<rparr>)"
        using p by (intro own_change_cell) simp
      ultimately show ?thesis
        using s nc i len bs True own_cells_update [of i "p - 1" _ d "0x0f20"] p
          own_change_trans [OF _ own_change_upd_con]
        by (auto simp: con_upd_con shows_at_def write_cell_def next_cell_def simp del: of_nat_add of_nat_mult)
    next
      case False
      then have "put_character i c d = d" "next_cell c p = p"
        using bs t2 by (simp_all add: put_character_def Let_def next_cell_def)
      then show ?thesis using s bs False by (simp add: write_cell_def)
    qed
  next
    case ch
    show ?thesis
    proof (cases "p < 5460")
      case True
      have "put_character i c d = upd_con i (\<lambda>k. k\<lparr>cursor_pos := of_nat (5461 * i + (p + 1))\<rparr>)
          (d\<lparr>cells := (cells d)(of_nat (5461 * i + p) := scast c OR 0x0f00)\<rparr>)"
        using ch True t3 inc by (simp add: put_character_def Let_def upd_con_def con_def cur ac_simps)
      moreover have "own_change i d (d\<lparr>cells := (cells d)(of_nat (5461 * i + p) := scast c OR 0x0f00)\<rparr>)"
        using p by (intro own_change_cell) simp
      ultimately show ?thesis
        using s nc i len ch True own_cells_update [of i p _ d "scast c OR 0x0f00"] p
          own_change_trans [OF _ own_change_upd_con]
        by (auto simp: con_upd_con shows_at_def write_cell_def next_cell_def simp del: of_nat_add of_nat_mult)
    next
      case False
      then have "put_character i c d = d" "next_cell c p = p"
        using ch t3 by (simp_all add: put_character_def Let_def next_cell_def)
      then show ?thesis using s ch False by (simp add: write_cell_def)
    qed
  qed
  then show "shows_at i l (next_cell c p) (con (put_character i c d) i)"
    "own_change i d (put_character i c d)"
    "q < 5461 \<Longrightarrow> own_cells i (put_character i c d) q = write_cell c p (own_cells i d) q"
    by simp_all
qed


text \<open>Printing: it always returns, and the cursor is in the window afterwards.\<close>

lemma print_character_result:
  assumes i: "i < CONSOLE_CNT" and len: "length (consoles d) = CONSOLE_CNT"
    and s: "shows_at i l p (con d i)"
  shows "\<exists>d' l'. print_character i c d = Some d' \<and> own_change i d d' \<and>
    shows_at i l' (next_cell c p) (con d' i) \<and> next_cell c p < 80 * l' + 2000 \<and>
    con_in (con d' i) = con_in (con d i) \<and>
    (\<forall>q<5461. own_cells i d' q = write_cell c p (own_cells i d) q) \<and>
    (current_console d = i \<longrightarrow> synced d')"
proof -
  let ?d1 = "put_character i c d"
  note pc = put_character_result [OF i len s, where c = c]
  have len1: "length (consoles ?d1) = CONSOLE_CNT" using pc(2) len by (simp add: own_change_def)
  have in1: "con_in (con ?d1 i) = con_in (con d i)"
    using i len by (auto simp: put_character_def Let_def con_upd_con)
  obtain d2 l' where d2: "scroll_to_cursor i ?d1 = Some d2" "own_change i ?d1 d2" "cells d2 = cells ?d1"
      "con d2 i = (con ?d1 i)\<lparr>vga_start_addr := of_nat (5461 * i + 80 * l')\<rparr>"
      "l' \<le> 44" "next_cell c p < 80 * l' + 2000"
    using scroll_to_cursor_result [OF i len1 pc(1)] by auto
  define d' where "d' = (if current_console d2 = i then set_start_address (vga_start_addr (con d2 i))
      (set_cursor (cursor_pos (con d2 i)) d2) else d2)"
  have "print_character i c d = Some d'" by (simp add: print_character_def d2(1) d'_def)
  moreover have own: "own_change i d2 d'"
    by (auto simp: d'_def intro: own_change_trans [OF own_change_crt(1) own_change_crt(2)])
  moreover have c': "con d' j = con d2 j" for j by (simp add: d'_def)
  have "shows_at i l' (next_cell c p) (con d' i)"
    using pc(1) d2(4,5) by (simp add: c' shows_at_def)
  moreover have "own_cells i d' = own_cells i ?d1" by (simp add: own_cells_def d'_def d2(3) fun_eq_iff)
  moreover have "current_console d2 = current_console d"
    using pc(2) d2(2) by (simp add: own_change_def)
  then have "current_console d = i \<longrightarrow> synced d'"
    by (simp add: synced_def d'_def set_cursor_def set_start_address_def two_bytes_eq con_def)
  ultimately show ?thesis
    using own_change_trans [OF own_change_trans [OF pc(2) d2(2)] own] d2(4,6) in1 pc(3) c'
    by (intro exI [of _ d'] exI [of _ l']) simp
qed

lemma synced_own: "own_change i d d' \<Longrightarrow> current_console d \<noteq> i \<Longrightarrow> synced d \<Longrightarrow> synced d'"
  by (simp add: synced_def own_change_def)

lemma print_character_wf:
  assumes "display_wf d" and "i < CONSOLE_CNT"
  shows "\<exists>d'. print_character i c d = Some d' \<and> display_wf d' \<and> own_change i d d' \<and>
    (synced d \<longrightarrow> synced d') \<and> con_in (con d' i) = con_in (con d i)"
proof -
  have len: "length (consoles d) = CONSOLE_CNT" using assms by (simp add: display_wf_def)
  obtain l p where s: "shows_at i l p (con d i)"
    using assms by (auto simp: display_wf_def console_wf_shows_at)
  obtain d' l' where d': "print_character i c d = Some d'" "own_change i d d'"
      "shows_at i l' (next_cell c p) (con d' i)" "con_in (con d' i) = con_in (con d i)"
      "current_console d = i \<longrightarrow> synced d'"
    using print_character_result [OF assms(2) len s, of c] by blast
  have "display_wf d'"
    using own_change_wf [OF assms(1) d'(2) assms(2)] d'(3) by (auto simp: console_wf_shows_at)
  moreover have "synced d \<longrightarrow> synced d'" using d'(2,5) synced_own by (cases "current_console d = i") auto
  ultimately show ?thesis using d'(1,2,4) by blast
qed

lemma print_characters_wf:
  "display_wf d \<Longrightarrow> i < CONSOLE_CNT \<Longrightarrow>
   \<exists>d'. print_characters i cs d = Some d' \<and> display_wf d' \<and> own_change i d d' \<and>
     (synced d \<longrightarrow> synced d')"
proof (induction cs arbitrary: d)
  case (Cons c cs)
  obtain d1 where d1: "print_character i c d = Some d1" "display_wf d1" "own_change i d d1"
      "synced d \<longrightarrow> synced d1"
    using print_character_wf [OF Cons.prems] by blast
  obtain d' where "print_characters i cs d1 = Some d'" "display_wf d'" "own_change i d1 d'"
      "synced d1 \<longrightarrow> synced d'"
    using Cons.IH [OF d1(2) Cons.prems(2)] by blast
  then show ?case using d1 own_change_trans by auto
qed simp

text \<open>Text that needs no scrolling and no control: it stands in the cells, from the cursor on.\<close>

lemma print_characters_text:
  assumes "i < CONSOLE_CNT" and "length (consoles d) = CONSOLE_CNT" and "shows_at i l p (con d i)"
    and "\<forall>c\<in>set cs. c \<noteq> 10 \<and> c \<noteq> 8" and "p + length cs \<le> 5460"
  shows "\<exists>d' l'. print_characters i cs d = Some d' \<and> own_change i d d' \<and>
    shows_at i l' (p + length cs) (con d' i) \<and> con_in (con d' i) = con_in (con d i) \<and>
    (\<forall>j<length cs. own_cells i d' (p + j) = scast (cs ! j) OR 0x0f00) \<and>
    (\<forall>q<5461. q < p \<or> p + length cs \<le> q \<longrightarrow> own_cells i d' q = own_cells i d q)"
  using assms(2-)
proof (induction cs arbitrary: d l p)
  case Nil
  then show ?case by auto
next
  case (Cons c cs)
  have p: "p < 5460" and nc: "next_cell c p = p + 1"
    using Cons.prems(3,4) by (simp_all add: next_cell_def)
  obtain d1 l1 where d1: "print_character i c d = Some d1" "own_change i d d1"
      "shows_at i l1 (p + 1) (con d1 i)" "\<forall>q<5461. own_cells i d1 q = write_cell c p (own_cells i d) q"
      "con_in (con d1 i) = con_in (con d i)"
    using print_character_result [OF assms(1) Cons.prems(1,2), of c] unfolding nc by auto
  have len1: "length (consoles d1) = CONSOLE_CNT" using d1(2) Cons.prems(1) by (simp add: own_change_def)
  obtain d' l' where d': "print_characters i cs d1 = Some d'" "own_change i d1 d'"
      "shows_at i l' (p + 1 + length cs) (con d' i)"
      "\<forall>j<length cs. own_cells i d' (p + 1 + j) = scast (cs ! j) OR 0x0f00"
      "\<forall>q<5461. q < p + 1 \<or> p + 1 + length cs \<le> q \<longrightarrow> own_cells i d' q = own_cells i d1 q"
      "con_in (con d' i) = con_in (con d1 i)"
    using Cons.IH [OF len1 d1(3)] Cons.prems(3,4) by auto
  have w: "own_cells i d1 q = ((own_cells i d)(p := scast c OR 0x0f00)) q" if "q < 5461" for q
    using d1(4) that Cons.prems(3) p by (simp add: write_cell_def)
  have "own_cells i d' (p + j) = scast ((c # cs) ! j) OR 0x0f00" if "j < Suc (length cs)" for j
  proof (cases j)
    case 0
    then show ?thesis using d'(5) w [of p] p by simp
  next
    case (Suc m)
    then show ?thesis using d'(4) that by simp
  qed
  moreover have "own_cells i d' q = own_cells i d q"
    if "q < 5461" "q < p \<or> p + Suc (length cs) \<le> q" for q
    using d'(5) w [OF that(1)] that by auto
  ultimately show ?case
    using d1(1,2,5) d'(1-3,6) own_change_trans
    by (intro exI [of _ d'] exI [of _ l']) auto
qed


section \<open>The buffer of typed characters is a bounded queue\<close>

definition typed :: "console \<Rightarrow> u8 list" where
  "typed c = ring_contents CONSOLE_BUF_LENGTH (con_in c)"

definition type_key :: "u8 \<Rightarrow> console \<Rightarrow> console" where
  "type_key x c = fst (store_key (ucast x) c)"

interpretation typed_keys: bounded_queue "\<lambda>c. ring_count (con_in c) = 0" type_key take_key typed
  "\<lambda>c. ring_inv CONSOLE_BUF_LENGTH (con_in c)" CONSOLE_BUF_LENGTH
proof unfold_locales
  fix c :: console and x :: u8
  assume inv: "ring_inv CONSOLE_BUF_LENGTH (con_in c)"
  show "ring_count (con_in c) = 0 \<longleftrightarrow> typed c = []"
    using length_ring_contents [of CONSOLE_BUF_LENGTH "con_in c"] by (auto simp: typed_def simp flip: length_0_conv)
  show "ring_inv CONSOLE_BUF_LENGTH (con_in (type_key x c))"
    using inv ring_push_contents(1) [OF inv] by (simp add: type_key_def store_key_def)
  show "typed (type_key x c) = (if length (typed c) < CONSOLE_BUF_LENGTH then typed c @ [x] else typed c)"
    using ring_push_contents(2) [OF inv] by (simp add: type_key_def store_key_def typed_def)
  show "length (typed c) \<le> CONSOLE_BUF_LENGTH" using inv by (simp add: typed_def ring_inv_def)
  assume "typed c \<noteq> []"
  then have pos: "0 < ring_count (con_in c)" by (simp add: typed_def flip: length_greater_0_conv)
  show "ring_inv CONSOLE_BUF_LENGTH (con_in (snd (take_key c)))"
    using ring_pop_contents(1) [OF inv pos] by (simp add: take_key_def split_def Let_def)
  show "typed c = fst (take_key c) # typed (snd (take_key c))"
    using ring_pop_contents(2) [OF inv pos] by (simp add: take_key_def split_def Let_def typed_def)
qed

lemma type_key_shows_at: "shows_at i l p c \<Longrightarrow> shows_at i l p (type_key x c)"
  using typed_keys.put_inv [of c x] by (auto simp: shows_at_def type_key_def store_key_def)

lemma take_key_shows_at:
  "shows_at i l p c \<Longrightarrow> typed c \<noteq> [] \<Longrightarrow> shows_at i l p (snd (take_key c))"
  using typed_keys.get_inv [of c] by (auto simp: shows_at_def take_key_def split_def Let_def)

text \<open>The console task takes the typed characters out one by one and prints them.\<close>

lemma console_write_key_result:
  assumes i: "i < CONSOLE_CNT" and len: "length (consoles d) = CONSOLE_CNT"
    and s: "shows_at i l p (con d i)" and t: "typed (con d i) = c # cs"
  shows "\<exists>d' l'. console_write_key i d = Some d' \<and> own_change i d d' \<and>
    shows_at i l' (next_cell c p) (con d' i) \<and> typed (con d' i) = cs \<and>
    (\<forall>q<5461. own_cells i d' q = write_cell c p (own_cells i d) q)"
proof -
  let ?d = "upd_con i (\<lambda>k. snd (take_key k)) d"
  have inv: "ring_inv CONSOLE_BUF_LENGTH (con_in (con d i))" using s by (simp add: shows_at_def)
  have g: "fst (take_key (con d i)) = c" "typed (snd (take_key (con d i))) = cs"
    using typed_keys.get_oldest [OF inv t] by simp_all
  have "con ?d i = snd (take_key (con d i))" using i len by (simp add: con_upd_con)
  moreover have "shows_at i l p (snd (take_key (con d i)))" using take_key_shows_at [OF s] t by simp
  moreover have "length (consoles ?d) = CONSOLE_CNT" using len by simp
  moreover have "ring_count (con_in (con d i)) \<noteq> 0"
    using t length_ring_contents [of CONSOLE_BUF_LENGTH "con_in (con d i)"] by (auto simp: typed_def)
  ultimately obtain d' l' where "console_write_key i d = Some d'" "own_change i ?d d'"
      "shows_at i l' (next_cell c p) (con d' i)" "con_in (con d' i) = con_in (snd (take_key (con d i)))"
      "\<forall>q<5461. own_cells i d' q = write_cell c p (own_cells i ?d) q"
    using print_character_result [OF i, of ?d l p c] g(1) by (auto simp: console_write_key_def)
  then show ?thesis
    using g(2) own_change_trans [OF own_change_upd_con]
    by (intro exI [of _ d'] exI [of _ l']) (simp add: typed_def)
qed

section \<open>The start\<close>

text \<open>The static \<open>console\<close> array before: buffers of 128 characters, console 0 current.\<close>

definition display_raw :: "display \<Rightarrow> bool" where
  "display_raw d \<longleftrightarrow> length (consoles d) = CONSOLE_CNT \<and> current_console d = 0 \<and>
     (\<forall>i<CONSOLE_CNT. length (ring_buf (con_in (con d i))) = CONSOLE_BUF_LENGTH)"

lemma init_console_first:
  assumes "length (consoles d) = CONSOLE_CNT" and "length (ring_buf (con_in (con d 0))) = CONSOLE_BUF_LENGTH"
    and "position d < 10922"
  shows "\<exists>d'. init_console 0 d = Some d' \<and> console_wf 0 (con d' 0) \<and> typed (con d' 0) = [] \<and>
    cursor_pos (con d' 0) = position d div 2 \<and>
    length (consoles d') = CONSOLE_CNT \<and> current_console d' = current_console d \<and>
    (\<forall>j. j \<noteq> 0 \<longrightarrow> con d' j = con d j) \<and> position d' = 0"
proof -
  have "unat (position d) < 10922" using assms(3) by (simp add: word_less_nat_alt)
  then have "unat (position d div 2) < 5461" by (simp add: unat_div)
  then have "\<exists>p<5461. position d div 2 = of_nat p"
    by (intro exI [of _ "unat (position d div 2)"]) simp
  then show ?thesis
    using assms(1,2)
    by (simp add: init_console_def Let_def con_upd_con console_wf_def ring_inv_def typed_def
        ring_contents_def drop_bit_eq_div)
       (rule exI [of _ 0], simp)
qed

lemma init_console_other:
  assumes "i < CONSOLE_CNT" and "i \<noteq> 0" and "length (consoles d) = CONSOLE_CNT"
    and "length (ring_buf (con_in (con d i))) = CONSOLE_BUF_LENGTH"
  shows "\<exists>d' l. init_console i d = Some d' \<and> shows_at i l 3 (con d' i) \<and> own_change i d d' \<and>
    typed (con d' i) = [] \<and>
    own_cells i d' 0 = scast (of_nat i + 48 :: u8) OR 0x0f00 \<and>
    own_cells i d' 1 = 0x0f23 \<and> own_cells i d' 2 = 0x0f20"
proof -
  let ?f = "\<lambda>c. c\<lparr>con_in := (con_in c)\<lparr>ring_count := 0, ring_head := 0, ring_tail := 0\<rparr>,
      vga_mem_start := of_nat i * 5461, vga_mem_end := of_nat i * 5461 + 5461,
      vga_start_addr := of_nat i * 5461, cursor_pos := of_nat i * 5461\<rparr>"
  let ?cs = "[of_nat i + 48, 35, 32] :: u8 list"
  have init: "init_console i d = print_characters i ?cs (upd_con i ?f d)"
    using assms(2) by (simp add: init_console_def Let_def drop_bit_eq_div)
  have empty: "typed (con (upd_con i ?f d) i) = []"
    using assms by (simp add: con_upd_con typed_def ring_contents_def)
  have "shows_at i 0 0 (con (upd_con i ?f d) i)"
    using assms by (simp add: con_upd_con shows_at_def ring_inv_def ac_simps)
  moreover have "\<forall>c\<in>set ?cs. c \<noteq> 10 \<and> c \<noteq> 8"
  proof -
    have "i = 1 \<or> i = 2" using assms(1,2) by linarith
    then show ?thesis by auto
  qed
  moreover have "length (consoles (upd_con i ?f d)) = CONSOLE_CNT" using assms(3) by simp
  ultimately obtain d' l where d': "print_characters i ?cs (upd_con i ?f d) = Some d'"
      "own_change i (upd_con i ?f d) d'" "shows_at i l 3 (con d' i)"
      "\<forall>j<3. own_cells i d' (0 + j) = scast (?cs ! j) OR 0x0f00"
      "con_in (con d' i) = con_in (con (upd_con i ?f d) i)"
    using print_characters_text [OF assms(1), of "upd_con i ?f d" 0 0 ?cs]
    by (auto simp: numeral_eq_Suc)
  have "own_cells i d' 0 = scast (?cs ! 0) OR 0x0f00" "own_cells i d' 1 = scast (?cs ! 1) OR 0x0f00"
    "own_cells i d' 2 = scast (?cs ! 2) OR 0x0f00"
    using d'(4) [rule_format, of 0] d'(4) [rule_format, of 1] d'(4) [rule_format, of 2] by (simp_all add: numeral_2_eq_2)
  then show ?thesis
    using init d' own_change_trans [OF own_change_upd_con] empty by (intro exI [of _ d'] exI [of _ l]) (simp add: numeral_2_eq_2 typed_def)
qed

lemma init_consoles_result:
  assumes "display_raw d" and "position d < 10922"
  shows "\<exists>d'. init_consoles d = Some d' \<and> display_wf d' \<and> position d' = 0 \<and>
    display_wf (change_current_console 0 d') \<and> synced (change_current_console 0 d') \<and>
    cursor_pos (con d' 0) = position d div 2 \<and> (\<forall>j<CONSOLE_CNT. typed (con d' j) = []) \<and>
    (\<forall>i\<in>{1, 2}. cursor_pos (con d' i) = of_nat (5461 * i + 3) \<and>
       map (own_cells i d') [0..<3] = [0x0f30 + of_nat i, 0x0f23, 0x0f20])"
proof -
  have raw: "length (consoles d) = CONSOLE_CNT" "current_console d = 0"
      "\<And>i. i < CONSOLE_CNT \<Longrightarrow> length (ring_buf (con_in (con d i))) = CONSOLE_BUF_LENGTH"
    using assms(1) by (simp_all add: display_raw_def)
  obtain d0 where d0: "init_console 0 d = Some d0" "console_wf 0 (con d0 0)"
      "length (consoles d0) = CONSOLE_CNT" "current_console d0 = 0"
      "\<forall>j. j \<noteq> 0 \<longrightarrow> con d0 j = con d j" "position d0 = 0"
      "cursor_pos (con d0 0) = position d div 2" "typed (con d0 0) = []"
    using init_console_first [OF raw(1) raw(3) assms(2)] raw(2) by auto
  have b0: "length (ring_buf (con_in (con d0 j))) = CONSOLE_BUF_LENGTH" if "j \<noteq> 0" "j < CONSOLE_CNT" for j
    using d0(5) raw(3) that by simp
  obtain d1 l1 where d1: "init_console 1 d0 = Some d1" "shows_at 1 l1 3 (con d1 1)" "own_change 1 d0 d1"
      "own_cells 1 d1 0 = 0x0f31" "own_cells 1 d1 1 = 0x0f23" "own_cells 1 d1 2 = 0x0f20"
      "typed (con d1 1) = []"
    using init_console_other [of 1 d0] d0(3) b0 [of 1] by auto
  have len1: "length (consoles d1) = CONSOLE_CNT" using d1(3) d0(3) by (simp add: own_change_def)
  have "con d1 2 = con d0 2" using d1(3) by (simp add: own_change_def)
  then obtain d2 l2 where d2: "init_console 2 d1 = Some d2" "shows_at 2 l2 3 (con d2 2)" "own_change 2 d1 d2"
      "own_cells 2 d2 0 = 0x0f32" "own_cells 2 d2 1 = 0x0f23" "own_cells 2 d2 2 = 0x0f20"
      "typed (con d2 2) = []"
    using init_console_other [of 2 d1] len1 b0 [of 2] by auto
  have other: "con d2 0 = con d0 0" "con d2 1 = con d1 1" "length (consoles d2) = CONSOLE_CNT"
      "current_console d2 = 0" "position d2 = 0"
    using d1(3) d2(3) d0(3,4,6) by (simp_all add: own_change_def)
  have "console_wf j (con d2 j)" if "j < CONSOLE_CNT" for j
  proof -
    have "j = 0 \<or> j = 1 \<or> j = 2" using that by linarith
    moreover have "console_wf 1 (con d1 1)" "console_wf 2 (con d2 2)"
      using d1(2) d2(2) by (auto simp: console_wf_shows_at)
    ultimately show ?thesis using d0(2) other by auto
  qed
  then have wf: "display_wf d2" using other by (simp add: display_wf_def)
  moreover have "display_wf (change_current_console 0 d2)"
    using wf by (simp add: display_wf_def change_current_console_def)
  moreover have "synced (change_current_console 0 d2)"
    by (simp add: synced_def change_current_console_def set_cursor_def set_start_address_def
        two_bytes_eq con_def)
  moreover have "own_cells 1 d2 q = own_cells 1 d1 q" if "q < 5461" for q
    using own_cells_other [of 2 1 q d1 d2] that d2(3) by simp
  moreover have "cursor_pos (con d2 1) = of_nat (5461 * 1 + 3)" "cursor_pos (con d2 2) = of_nat (5461 * 2 + 3)"
    using d1(2) d2(2) other(2) by (simp_all add: shows_at_def)
  moreover have "typed (con d2 j) = []" if "j < CONSOLE_CNT" for j
  proof -
    have "j = 0 \<or> j = 1 \<or> j = 2" using that by linarith
    then show ?thesis using d0(8) d1(7) d2(7) other(1,2) by auto
  qed
  ultimately show ?thesis using d0(1) d1(1,4-6) d2(1,4-6) other(1,5) d0(7)
    by (simp add: init_consoles_def upt_rec numeral_2_eq_2)
qed


section \<open>Keys that move the screen\<close>

lemma scroll_console_shows_at:
  assumes "i < CONSOLE_CNT" and "length (consoles d) = CONSOLE_CNT" and s: "shows_at i l p (con d i)"
    and "dir = 1 \<or> dir = - 1"
  shows "\<exists>l'. shows_at i l' p (con (scroll_console i dir d) i)"
  using assms(4)
proof
  assume "dir = 1"
  then show ?thesis
    using scroll_console_con(2) [OF assms(1-3)] s
    by (cases "0 < l") (auto simp: shows_at_def intro: exI [of _ "l - 1"])
next
  assume "dir = - 1"
  then show ?thesis
    using scroll_console_con(1) [OF assms(1-3)] s
    by (cases "80 * l + 2000 < 5461") (auto simp: shows_at_def intro: exI [of _ "l + 1"])
qed

lemma scroll_console_synced: "synced d \<Longrightarrow> synced (scroll_console i dir d)"
  by (auto simp: scroll_console_def Let_def synced_def set_cursor_def set_start_address_def
      two_bytes_eq con_def upd_con_def)

lemma scroll_console_wf:
  assumes "display_wf d" and "i < CONSOLE_CNT" and "dir = 1 \<or> dir = - 1"
  shows "display_wf (scroll_console i dir d)"
proof -
  have len: "length (consoles d) = CONSOLE_CNT" using assms(1) by (simp add: display_wf_def)
  obtain l p where s: "shows_at i l p (con d i)"
    using assms(1,2) by (auto simp: display_wf_def console_wf_shows_at)
  show ?thesis
    using own_change_wf [OF assms(1) scroll_console_own assms(2)]
      scroll_console_shows_at [OF assms(2) len s assms(3)] by (auto simp: console_wf_shows_at)
qed

lemma type_key_wf:
  assumes "display_wf d" and "i < CONSOLE_CNT"
  shows "display_wf (upd_con i (type_key x) d)"
proof -
  have len: "length (consoles d) = CONSOLE_CNT" using assms(1) by (simp add: display_wf_def)
  obtain l p where "shows_at i l p (con d i)"
    using assms(1,2) by (auto simp: display_wf_def console_wf_shows_at)
  then have "shows_at i l p (con (upd_con i (type_key x) d) i)"
    using assms(2) len by (simp add: con_upd_con type_key_shows_at)
  then have "console_wf i (con (upd_con i (type_key x) d) i)"
    unfolding console_wf_shows_at by blast
  then show ?thesis using own_change_wf [OF assms(1) own_change_upd_con assms(2)] by blast
qed

lemma store_key_type_key: "fst (store_key k c) = type_key (ucast k) c"
  by (simp add: store_key_def type_key_def)

lemma type_key_synced: "i < length (consoles d) \<Longrightarrow> synced d \<Longrightarrow> synced (upd_con i (type_key x) d)"
  by (auto simp: synced_def con_upd_con type_key_def store_key_def)

lemma change_current_console_wf:
  "display_wf d \<Longrightarrow> display_wf (change_current_console i d) \<and>
     (synced d \<longrightarrow> synced (change_current_console i d))"
  by (auto simp: display_wf_def change_current_console_def synced_def set_cursor_def
      set_start_address_def two_bytes_eq con_def)

lemma store_key_into_console_wf:
  assumes "display_wf d" and "i < CONSOLE_CNT"
  shows "display_wf (store_key_into_console i key d) \<and>
    (synced d \<longrightarrow> synced (store_key_into_console i key d))"
proof -
  have len: "i < length (consoles d)" using assms by (simp add: display_wf_def)
  note r = type_key_wf [OF assms] type_key_synced [OF len] scroll_console_wf [OF assms]
    scroll_console_synced change_current_console_wf [OF assms(1)] assms(1)
  obtain ok where ok: "ok = (\<lambda>d'. display_wf d' \<and> (synced d \<longrightarrow> synced d'))" by blast
  have k: "ok d" "\<And>x. ok (upd_con i (type_key x) d)" "ok (scroll_console i 1 d)"
    "ok (scroll_console i (- 1) d)" "\<And>j. ok (change_current_console j d)"
    unfolding ok using r by blast+
  have "ok (store_key_into_console i key d)"
    unfolding store_key_into_console_def Let_def store_key_type_key
    by (simp only: k simp_thms split: if_split)
  then show ?thesis by (simp add: ok)
qed

section \<open>Properties\<close>

text \<open>A display as the kernel finds it, and the same after the console task's start.\<close>

definition sample_display :: display where
  "sample_display = \<lparr>
     consoles = replicate CONSOLE_CNT
       \<lparr>con_in = \<lparr>ring_buf = replicate CONSOLE_BUF_LENGTH 0, ring_head = 0, ring_tail = 0, ring_count = 0\<rparr>,
        cursor_pos = 0, vga_start_addr = 0, vga_mem_start = 0, vga_mem_end = 0\<rparr>,
     current_console = 0, cells = \<lambda>_. 0, crt_cursor = 0, crt_start = 0, position = 640\<rparr>"

lemma sample_display_raw: "display_raw sample_display" "position sample_display = 640"
  by (auto simp: display_raw_def sample_display_def con_def)

lemma sample_display_started:
  obtains d where "init_consoles sample_display = Some d" "display_wf (change_current_console 0 d)"
    "synced (change_current_console 0 d)"
    "cursor_pos (con (change_current_console 0 d) 0) = of_nat (5461 * 0 + 320)"
proof -
  obtain d where "init_consoles sample_display = Some d" "display_wf (change_current_console 0 d)"
    "synced (change_current_console 0 d)" "cursor_pos (con d 0) = position sample_display div 2"
    using init_consoles_result [OF sample_display_raw(1)] sample_display_raw(2) by auto
  then show thesis using that sample_display_raw(2) by (simp add: change_current_console_def)
qed

text \<open>
  C33. Printing any character on a console returns (the scrolling loop ends), keeps all
  windows well formed, the cursor inside the part of the window that is shown, and the
  controller in step with the current console; it writes no cell outside the console's own
  third of the video memory and changes no other console.
\<close>

theorem print_character_safe:
  assumes "display_wf d" and "i < CONSOLE_CNT"
  shows "\<exists>d'. print_character i c d = Some d' \<and> display_wf d' \<and>
    cursor_pos (con d' i) < vga_start_addr (con d' i) + TEXT_MODE_SIZE \<and>
    (synced d \<longrightarrow> synced d') \<and>
    (\<forall>a. \<not> own_cell i a \<longrightarrow> cells d' a = cells d a) \<and> (\<forall>j. j \<noteq> i \<longrightarrow> con d' j = con d j)"
proof -
  have len: "length (consoles d) = CONSOLE_CNT" using assms by (simp add: display_wf_def)
  obtain l p where s: "shows_at i l p (con d i)"
    using assms by (auto simp: display_wf_def console_wf_shows_at)
  obtain d' l' where d': "print_character i c d = Some d'" "shows_at i l' (next_cell c p) (con d' i)"
      "next_cell c p < 80 * l' + 2000"
    using print_character_result [OF assms(2) len s, of c] by blast
  have "next_cell c p < 5461" "l' \<le> 44" using d'(2) by (simp_all add: shows_at_def)
  then have "cursor_pos (con d' i) < vga_start_addr (con d' i) + TEXT_MODE_SIZE"
    using cell_less_iff(1) [OF assms(2), of "next_cell c p" "80 * l' + 2000"] d'(2,3)
    by (simp add: shows_at_def add.assoc)
  then show ?thesis
    using print_character_wf [OF assms, of c] d'(1) by (auto simp: own_change_def)
qed

theorem print_character_safe_witness:
  "\<exists>d d'. init_consoles sample_display = Some d \<and>
     print_character 2 65 (change_current_console 0 d) = Some d' \<and> display_wf d'"
proof -
  obtain d where d: "init_consoles sample_display = Some d" "display_wf (change_current_console 0 d)"
    using sample_display_started by metis
  show ?thesis using print_character_safe [OF d(2), of 2 65] d(1) by auto
qed

text \<open>
  \<open>console_write\<close> puts a text without line breaks and backspaces that fits into the
  window in the cells from the cursor on, each character with the white attribute (and with
  its sign bit spread over it), moves the cursor behind it and changes no other cell of the
  window.
\<close>

theorem console_write_text:
  assumes "display_wf d" and "i < CONSOLE_CNT"
    and "cursor_pos (con d i) = of_nat (5461 * i + p)" and "p + unat len \<le> 5460"
    and "\<forall>j<unat len. m (buf + of_nat j) \<noteq> 10 \<and> m (buf + of_nat j) \<noteq> 8"
  shows "\<exists>d'. console_write i buf len m d = Some d' \<and>
    cursor_pos (con d' i) = of_nat (5461 * i + p + unat len) \<and>
    (\<forall>j<unat len. own_cells i d' (p + j) = scast (m (buf + of_nat j)) OR 0x0f00) \<and>
    (\<forall>q<5461. q < p \<or> p + unat len \<le> q \<longrightarrow> own_cells i d' q = own_cells i d q)"
proof -
  let ?cs = "map (\<lambda>j. m (buf + of_nat j)) [0..<unat len]"
  have len: "length (consoles d) = CONSOLE_CNT" using assms by (simp add: display_wf_def)
  obtain l q where s: "shows_at i l q (con d i)"
    using assms by (auto simp: display_wf_def console_wf_shows_at)
  have "q < 5461" "of_nat (5461 * i + q) = (of_nat (5461 * i + p) :: u32)"
    using s assms(3) by (simp_all add: shows_at_def)
  then have "q = p" using assms(2,4) by (subst (asm) of_nat_u32_eq_iff) simp_all
  then obtain d' l' where "print_characters i ?cs d = Some d'" "shows_at i l' (p + unat len) (con d' i)"
      "\<forall>j<unat len. own_cells i d' (p + j) = scast (?cs ! j) OR 0x0f00"
      "\<forall>q<5461. q < p \<or> p + unat len \<le> q \<longrightarrow> own_cells i d' q = own_cells i d q"
    using print_characters_text [OF assms(2) len, of l p ?cs] s assms(4,5) by auto
  then show ?thesis by (auto simp: console_write_def shows_at_def add.assoc)
qed

theorem console_write_text_witness:
  "\<exists>d d'. init_consoles sample_display = Some d \<and>
     console_write 0 0x20000 3 (\<lambda>_. 65) (change_current_console 0 d) = Some d' \<and>
     cursor_pos (con d' 0) = 323 \<and> own_cells 0 d' 320 = 0x0f41"
proof -
  obtain d where d: "init_consoles sample_display = Some d" "display_wf (change_current_console 0 d)"
      "cursor_pos (con (change_current_console 0 d) 0) = of_nat (5461 * 0 + 320)"
    using sample_display_started by metis
  obtain d' where d': "console_write 0 0x20000 3 (\<lambda>_. 65) (change_current_console 0 d) = Some d'"
      "cursor_pos (con d' 0) = 323" "\<forall>j<3. own_cells 0 d' (320 + j) = 0x0f41"
    using console_write_text [OF d(2) _ d(3), of 3 "\<lambda>_. 65" "0x20000"] by auto
  have "own_cells 0 d' 320 = 0x0f41" using d'(3) [rule_format, of 0] by simp
  then show ?thesis using d(1) d'(1,2) by blast
qed

text \<open>
  What the keyboard driver does with a key on a console keeps the windows of all consoles
  well formed, whatever the key is: scrolling stops at both ends of the console's memory, a
  full buffer drops the character, and the controller goes on showing the current console,
  which stays one of the three.
\<close>

theorem store_key_into_console_safe:
  assumes "display_wf d" and "i < CONSOLE_CNT"
  shows "display_wf (store_key_into_console i key d) \<and>
    (synced d \<longrightarrow> synced (store_key_into_console i key d))"
  by (rule store_key_into_console_wf [OF assms])

theorem store_key_into_console_safe_witness:
  "\<exists>d. init_consoles sample_display = Some d \<and>
     display_wf (store_key_into_console 0 0x325 (change_current_console 0 d))"
proof -
  obtain d where d: "init_consoles sample_display = Some d" "display_wf (change_current_console 0 d)"
    using sample_display_started by metis
  show ?thesis using store_key_into_console_safe [OF d(2), of 0 "0x325"] d(1) by auto
qed

end
