(* ===== verification/Printing.thy ===== *)
theory Printing
  imports Formatting Console System
begin

text \<open>
  How text gets from a process to its console: \<open>printf\<close> formats into a buffer and traps with
  \<open>as_printx\<close>, and \<open>sys_printx\<close> of \<open>kernel/interrupt.c\<close> writes the buffer to the console of the
  process, unless its first character says that an assertion failed or a critical error
  happened; then the message is written to the start of the video memory and the machine stops.
  \<open>lib/debug.c\<close> sends such messages.
\<close>

section \<open>The system call\<close>

text \<open>The cells of the screen, and whether the processor still runs.\<close>

datatype printed =
    Printed display
  | Halted display

abbreviation (input) MAGIC_CH_CRITICAL :: u8 where "MAGIC_CH_CRITICAL \<equiv> 2"
abbreviation (input) MAGIC_CH_ASSERT :: u8 where "MAGIC_CH_ASSERT \<equiv> 3"

text \<open>The \<open>while\<close> loop over the video memory, with the cells left, the text and the next cell.\<close>

fun alarm_loop :: "nat \<Rightarrow> addr \<Rightarrow> u32 \<Rightarrow> mem \<Rightarrow> display \<Rightarrow> printed" where
  "alarm_loop 0 m vga mem d = Printed d"
| "alarm_loop (Suc left) m vga mem d =
     (if mem m = 0 then Halted d
      else alarm_loop left (m + 1) (vga + 1) mem (d\<lparr>cells := (cells d)(vga := 0x7400 OR ucast (mem m))\<rparr>))"

definition sys_printx :: "addr \<Rightarrow> nat \<Rightarrow> kernel \<Rightarrow> display \<Rightarrow> stop + printed" where
  "sys_printx msg p k d =
     andThen (if int_reenter k = 0 then vir_to_linear (of_nat p) msg k else Inr msg) (\<lambda>a.
     let m = memory k;
         r = (if m a = MAGIC_CH_CRITICAL \<or> m a = MAGIC_CH_ASSERT \<and> p < RING1_TASK_CNT
              then alarm_loop 0x4000 (a + 1) 0 m d else Printed d)
     in (case r of
           Halted d \<Rightarrow> Inr (Halted d)
         | Printed d \<Rightarrow>
             (let a = (if m a \<noteq> 0 \<and> (m a = MAGIC_CH_ASSERT \<or> m a = MAGIC_CH_CRITICAL) then a + 1 else a);
                  con_id = p_console_id (proc k p)
              in if m a = 0 then Inr (Printed d)
                 else if \<not> unat con_id < length (consoles d) then Inl (Out_of_table con_id)
                 else andThen (returns (strlen m a)) (\<lambda>n.
                      andThen (returns (console_write (unat con_id) a n m d)) (\<lambda>d. Inr (Printed d))))))"

text \<open>\<open>as_printx\<close> and \<open>sys_call\<close>: the result 0 goes to the \<open>eax\<close> of the caller.\<close>

definition sys_call_printx :: "addr \<Rightarrow> kernel \<Rightarrow> display \<Rightarrow> stop + kernel \<times> printed" where
  "sys_call_printx msg k d =
     (let caller = process_ready k in
      andThen (sys_printx msg caller (kernel_enter k) d) (\<lambda>r.
        case r of
          Halted d \<Rightarrow> Inr (kernel_enter k, Halted d)
        | Printed d \<Rightarrow>
            Inr (kernel_leave (upd_proc caller (\<lambda>p. p\<lparr>p_regs := (p_regs p)\<lparr>r_eax := 0\<rparr>\<rparr>) (kernel_enter k)),
                 Printed d)))"

text \<open>
  \<open>printf\<close>, with its buffer and the array of \<open>vsprintf\<close> on the stack of the running process;
  the length is what it returns when the processor still runs.
\<close>

definition printf :: "addr \<Rightarrow> addr \<Rightarrow> addr \<Rightarrow> addr \<Rightarrow> kernel \<Rightarrow> display \<Rightarrow> stop + c_int \<times> kernel \<times> printed" where
  "printf tmp buf fmt args k d =
     andThen (vsprintf tmp buf fmt args (memory k)) (\<lambda>(n, m).
     andThen (sys_call_printx buf (k\<lparr>memory := m\<rparr>) d) (\<lambda>(k, r). Inr (n, k, r)))"

text \<open>
  \<open>print_key\<close>, which the driver no longer calls: a character goes to the boot screen and takes the
  cursor along; shift and the up arrow move the visible part down by 15 rows.
\<close>

definition print_key :: "u32 \<Rightarrow> screen \<times> display \<Rightarrow> screen \<times> display" where
  "print_key k = (\<lambda>(s, d).
     if k AND 0x100 = 0 then
       (let s = show_text (takeWhile (\<lambda>c. c \<noteq> 0) [ucast (k AND 0xff)]) 0 s
        in (s, set_cursor (screen.position s div 2) d))
     else if k AND 0x1ff = 0x125 then
       (s, if k AND 0x200 \<noteq> 0 \<or> k AND 0x400 \<noteq> 0 then set_start_address (80 * 15) d else d)
     else (s, d))"

lemma print_key_plain:
  assumes "k AND 0x100 = 0" and "ucast (k AND 0xff) = c" and "c \<noteq> 0" and "plain [c]"
  shows "print_key k (s, d) =
    (at_text (screen.position s) (text_cells 0 [c]) s, set_cursor ((screen.position s + 2) div 2) d)"
proof -
  have "show_text [c] 0 s = at_text (screen.position s) (text_cells 0 [c]) s"
    using show_text_plain [OF assms(4), of 0 s] by (simp add: at_text_def)
  then show ?thesis using assms(1-3) by (simp add: print_key_def Let_def) (simp add: at_text_def)
qed

section \<open>The formats of \<open>lib/debug.c\<close>\<close>

text \<open>\<open>"%c assert(%s) %s %s %d"\<close> and \<open>"%c critical %s"\<close> with their arguments.\<close>

definition assert_items :: "u8 list \<Rightarrow> u8 list \<Rightarrow> u8 list \<Rightarrow> c_int \<Rightarrow> item list" where
  "assert_items exp file base_file line =
     Conv False 0 (Chr MAGIC_CH_ASSERT) # map Plain [32, 97, 115, 115, 101, 114, 116, 40] @
     [Conv False 0 (Str exp), Plain 41, Plain 32, Conv False 0 (Str file), Plain 32, Conv False 0 (Str base_file),
      Plain 32, Conv False 0 (Dec line)]"

definition critical_items :: "u8 list \<Rightarrow> item list" where
  "critical_items buf =
     Conv False 0 (Chr MAGIC_CH_CRITICAL) # map Plain [32, 99, 114, 105, 116, 105, 99, 97, 108, 32] @
     [Conv False 0 (Str buf)]"

section \<open>Lemmas\<close>

lemma alarm_loop_halts:
  assumes "cstring m a xs" and "length xs < n" and "v + length xs < 4294967296"
  shows "\<exists>d'. alarm_loop n a (of_nat v) m d = Halted d' \<and>
    (\<forall>j<length xs. cells d' (of_nat (v + j)) = 0x7400 OR ucast (xs ! j)) \<and>
    (\<forall>c. unat c < v \<or> v + length xs \<le> unat c \<longrightarrow> cells d' c = cells d c)"
  using assms
proof (induction xs arbitrary: n a v d)
  case Nil
  then show ?case by (cases n) auto
next
  case (Cons x xs)
  obtain n' where n: "n = Suc n'" using Cons.prems(2) by (cases n) auto
  let ?d = "d\<lparr>cells := (cells d)(of_nat v := 0x7400 OR ucast x)\<rparr>"
  have m: "m a = x" "x \<noteq> 0" "cstring m (a + 1) xs" using Cons.prems(1) by simp_all
  obtain d' where d': "alarm_loop n' (a + 1) (of_nat (Suc v)) m ?d = Halted d'"
    "\<forall>j<length xs. cells d' (of_nat (Suc v + j)) = 0x7400 OR ucast (xs ! j)"
    "\<forall>c. unat c < Suc v \<or> Suc v + length xs \<le> unat c \<longrightarrow> cells d' c = cells ?d c"
    using Cons.IH [OF m(3), of n' "Suc v" ?d] Cons.prems(2,3) n by auto
  have "cells d' (of_nat (v + j)) = 0x7400 OR ucast ((x # xs) ! j)" if "j < length (x # xs)" for j
  proof (cases j)
    case 0
    then show ?thesis using d'(3) [rule_format, of "of_nat v"] Cons.prems(3) by simp
  next
    case (Suc i)
    then show ?thesis using d'(2) [rule_format, of i] that by simp
  qed
  moreover have "cells d' c = cells d c" if "unat c < v \<or> v + length (x # xs) \<le> unat c" for c
  proof -
    have "c \<noteq> of_nat v" using that Cons.prems(3) by auto
    then show ?thesis using d'(3) that by auto
  qed
  ultimately show ?case using d'(1) m n by (auto simp: add.commute)
qed

lemma printf_text:
  assumes "kernel_inv k" and "\<forall>it\<in>set its. item_ok it \<and> narrow it"
    and "W = (\<lambda>x. in_block x tmp 256 \<or> in_block x buf (length (formatted its) + 1))"
    and "\<forall>x. in_block x buf (length (formatted its) + 1) \<longrightarrow> \<not> in_block x tmp 256"
    and "keeps W (memory k) fmt (concat (map item_text its) @ [0])" and "args_at W (memory k) args its"
    and "length (formatted its) < 4294967295"
  shows "\<exists>m. cstring m buf (formatted its) \<and> kernel_inv (k\<lparr>memory := m\<rparr>) \<and>
    printf tmp buf fmt args k d =
      andThen (sys_call_printx buf (k\<lparr>memory := m\<rparr>) d) (\<lambda>(k, r). Inr (of_nat (length (formatted its)), k, r))"
  using vsprintf_text [OF assms(2-7)] memory_inv [OF assms(1)] by (auto simp: printf_def)

lemma printx_address:
  assumes "kernel_inv k"
  shows "int_reenter (kernel_enter k) = 0"
    and "vir_to_linear (of_nat (process_ready k)) a (kernel_enter k) = Inr a"
proof -
  note inv = kernel_inv_parts [OF assms]
  show "int_reenter (kernel_enter k) = 0" using inv(4) by (simp add: kernel_enter_def)
  have "proc_wf (process_ready k) (proc k (process_ready k))" using inv(1,2) by (simp add: ipc_wf_def)
  then have "ldt_linear_addr (proc (kernel_enter k) (process_ready k)) INDEX_LDT_RW = 0"
    by (simp add: proc_wf_def kernel_enter_def proc_def)
  moreover have "unat (of_nat (process_ready k) :: c_int) = process_ready k" using inv(2) by simp
  ultimately show "vir_to_linear (of_nat (process_ready k)) a (kernel_enter k) = Inr a"
    using inv(2) by (simp add: vir_to_linear_def proc_index_def)
qed

lemma console_write_string:
  assumes "display_wf d" and "cstring m a xs" and "c < CONSOLE_CNT"
    and "cursor_pos (con d c) = of_nat (5461 * c + p)" and "p + length xs \<le> 5460"
    and "10 \<notin> set xs" and "8 \<notin> set xs"
  shows "\<exists>d'. console_write c a (of_nat (length xs)) m d = Some d' \<and>
    cursor_pos (con d' c) = of_nat (5461 * c + p + length xs) \<and>
    (\<forall>j<length xs. own_cells c d' (p + j) = scast (xs ! j) OR 0x0f00) \<and>
    (\<forall>q<5461. q < p \<or> p + length xs \<le> q \<longrightarrow> own_cells c d' q = own_cells c d q)"
proof -
  have at: "m (a + of_nat j) = xs ! j" if "j < length xs" for j using assms(2) that unfolding cstring_nth by blast
  have n: "unat (of_nat (length xs) :: c_int) = length xs" using assms(5) by simp
  have "\<forall>j<unat (of_nat (length xs) :: c_int). m (a + of_nat j) \<noteq> 10 \<and> m (a + of_nat j) \<noteq> 8"
    unfolding n using at assms(6,7) nth_mem [of _ xs] by metis
  then show ?thesis
    using console_write_text [OF assms(1,3,4), of "of_nat (length xs)" m a] assms(5) at unfolding n by fastforce
qed

lemma sys_call_printx_text:
  assumes "kernel_inv k" and "display_wf d" and "cstring (memory k) buf xs"
    and "c = unat (p_console_id (proc k (process_ready k)))" and "c < CONSOLE_CNT"
    and "cursor_pos (con d c) = of_nat (5461 * c + p)" and "p + length xs \<le> 5460"
    and "10 \<notin> set xs" and "8 \<notin> set xs" and "xs \<noteq> [] \<longrightarrow> hd xs \<noteq> MAGIC_CH_CRITICAL \<and> hd xs \<noteq> MAGIC_CH_ASSERT"
  shows "\<exists>k' d'. sys_call_printx buf k d = Inr (k', Printed d') \<and> int_reenter k' = - 1 \<and> memory k' = memory k \<and>
    cursor_pos (con d' c) = of_nat (5461 * c + p + length xs) \<and>
    (\<forall>j<length xs. own_cells c d' (p + j) = scast (xs ! j) OR 0x0f00) \<and>
    (\<forall>q<5461. q < p \<or> p + length xs \<le> q \<longrightarrow> own_cells c d' q = own_cells c d q)"
proof -
  let ?m = "memory k"
  have len: "length (consoles d) = CONSOLE_CNT" using assms(2) by (simp add: display_wf_def)
  have m: "memory (kernel_enter k) = ?m" "p_console_id (proc (kernel_enter k) i) = p_console_id (proc k i)" for i
    by (simp_all add: kernel_enter_def proc_def)
  have "\<exists>d'. sys_printx buf (process_ready k) (kernel_enter k) d = Inr (Printed d') \<and>
    cursor_pos (con d' c) = of_nat (5461 * c + p + length xs) \<and>
    (\<forall>j<length xs. own_cells c d' (p + j) = scast (xs ! j) OR 0x0f00) \<and>
    (\<forall>q<5461. q < p \<or> p + length xs \<le> q \<longrightarrow> own_cells c d' q = own_cells c d q)"
  proof (cases xs)
    case Nil
    then have "?m buf = 0" using assms(3) by simp
    then have "sys_printx buf (process_ready k) (kernel_enter k) d = Inr (Printed d)"
      using printx_address [OF assms(1)] by (simp add: sys_printx_def m Let_def)
    then show ?thesis using Nil assms(6) by simp
  next
    case (Cons x ys)
    have x: "?m buf = x" "x \<noteq> 0" "x \<noteq> 2" "x \<noteq> 3" using Cons assms(3,10) by simp_all
    obtain d' where d': "console_write c buf (of_nat (length xs)) ?m d = Some d'"
      "cursor_pos (con d' c) = of_nat (5461 * c + p + length xs)"
      "\<forall>j<length xs. own_cells c d' (p + j) = scast (xs ! j) OR 0x0f00"
      "\<forall>q<5461. q < p \<or> p + length xs \<le> q \<longrightarrow> own_cells c d' q = own_cells c d q"
      using console_write_string [OF assms(2,3,5-9)] by blast
    have "sys_printx buf (process_ready k) (kernel_enter k) d = Inr (Printed d')"
      using printx_address [OF assms(1)] x strlen_cstring [OF assms(3)] d'(1) assms(4,5) len
      by (simp add: sys_printx_def m Let_def returns_def)
    then show ?thesis using d' by auto
  qed
  then obtain d' where d': "sys_printx buf (process_ready k) (kernel_enter k) d = Inr (Printed d')"
    "cursor_pos (con d' c) = of_nat (5461 * c + p + length xs)"
    "\<forall>j<length xs. own_cells c d' (p + j) = scast (xs ! j) OR 0x0f00"
    "\<forall>q<5461. q < p \<or> p + length xs \<le> q \<longrightarrow> own_cells c d' q = own_cells c d q" by blast
  have "int_reenter k = - 1" using kernel_inv_parts(4) [OF assms(1)] .
  then show ?thesis
    using d' by (simp add: sys_call_printx_def Let_def kernel_leave_def kernel_enter_def upd_proc_def)
qed

lemma sys_call_printx_alarm:
  assumes "kernel_inv k" and "cstring (memory k) buf (c # xs)" and "length xs < 0x4000"
    and "c = MAGIC_CH_CRITICAL \<or> c = MAGIC_CH_ASSERT \<and> process_ready k < RING1_TASK_CNT"
  shows "\<exists>d'. sys_call_printx buf k d = Inr (kernel_enter k, Halted d') \<and>
    (\<forall>j<length xs. cells d' (of_nat j) = 0x7400 OR ucast (xs ! j)) \<and>
    (\<forall>a. length xs \<le> unat a \<longrightarrow> cells d' a = cells d a)"
proof -
  have m: "memory (kernel_enter k) = memory k" by (simp add: kernel_enter_def)
  have c: "memory k buf = c" "cstring (memory k) (buf + 1) xs" using assms(2) by simp_all
  obtain d' where d': "alarm_loop 0x4000 (buf + 1) 0 (memory k) d = Halted d'"
    "\<forall>j<length xs. cells d' (of_nat j) = 0x7400 OR ucast (xs ! j)"
    "\<forall>a. length xs \<le> unat a \<longrightarrow> cells d' a = cells d a"
    using alarm_loop_halts [OF c(2), of "0x4000" 0 d] assms(3) by auto
  have "sys_printx buf (process_ready k) (kernel_enter k) d = Inr (Halted d')"
    using printx_address [OF assms(1)] c(1) d'(1) assms(4) by (auto simp: sys_printx_def m Let_def)
  then show ?thesis using d'(2,3) by (simp add: sys_call_printx_def Let_def)
qed

lemma debug_formats:
  "formatted (assert_items exp file base_file line) =
     MAGIC_CH_ASSERT # [32, 97, 115, 115, 101, 114, 116, 40] @ exp @ [41, 32] @ file @ [32] @ base_file @ [32] @
       number_text 10 (sint line)"
  "formatted (critical_items buf) = MAGIC_CH_CRITICAL # [32, 99, 114, 105, 116, 105, 99, 97, 108, 32] @ buf"
  by (simp_all add: assert_items_def critical_items_def pad_def)

section \<open>Properties\<close>

text \<open>
  C28. What \<open>printf\<close> is given appears on the console: if the formatted text has no line breaks
  and backspaces and fits into the window, it stands in the cells from the cursor of the
  console of the running process on, the cursor is behind it, no other cell of the window has
  changed, \<open>printf\<close> returns its length, and the kernel is left again.
\<close>

theorem printf_appears:
  assumes "kernel_inv k" and "\<forall>it\<in>set its. item_ok it \<and> narrow it"
    and "W = (\<lambda>x. in_block x tmp 256 \<or> in_block x buf (length (formatted its) + 1))"
    and "\<forall>x. in_block x buf (length (formatted its) + 1) \<longrightarrow> \<not> in_block x tmp 256"
    and "keeps W (memory k) fmt (concat (map item_text its) @ [0])" and "args_at W (memory k) args its"
    and "display_wf d" and "c = unat (p_console_id (proc k (process_ready k)))" and "c < CONSOLE_CNT"
    and "cursor_pos (con d c) = of_nat (5461 * c + p)" and "p + length (formatted its) \<le> 5460"
    and "10 \<notin> set (formatted its)" and "8 \<notin> set (formatted its)"
    and "formatted its \<noteq> [] \<longrightarrow> hd (formatted its) \<noteq> MAGIC_CH_CRITICAL \<and> hd (formatted its) \<noteq> MAGIC_CH_ASSERT"
  shows "\<exists>k' d'. printf tmp buf fmt args k d = Inr (of_nat (length (formatted its)), k', Printed d') \<and>
    int_reenter k' = - 1 \<and> cursor_pos (con d' c) = of_nat (5461 * c + p + length (formatted its)) \<and>
    (\<forall>j<length (formatted its). own_cells c d' (p + j) = scast (formatted its ! j) OR 0x0f00) \<and>
    (\<forall>q<5461. q < p \<or> p + length (formatted its) \<le> q \<longrightarrow> own_cells c d' q = own_cells c d q)"
proof -
  have "length (formatted its) < 4294967295" using assms(11) by simp
  from printf_text [OF assms(1-6) this, of d] obtain m where m: "cstring m buf (formatted its)"
    "kernel_inv (k\<lparr>memory := m\<rparr>)"
    "printf tmp buf fmt args k d =
      andThen (sys_call_printx buf (k\<lparr>memory := m\<rparr>) d) (\<lambda>(k, r). Inr (of_nat (length (formatted its)), k, r))"
    by blast
  have "c = unat (p_console_id (proc (k\<lparr>memory := m\<rparr>) (process_ready (k\<lparr>memory := m\<rparr>))))"
    using assms(8) by (simp add: proc_def)
  moreover have "cstring (memory (k\<lparr>memory := m\<rparr>)) buf (formatted its)" using m(1) by simp
  ultimately show ?thesis
    using sys_call_printx_text [OF m(2) assms(7) _ _ assms(9-14), of buf] m(3) by fastforce
qed

theorem printf_appears_witness:
  "\<exists>d k' d'. init_consoles sample_display = Some d \<and>
     printf 0x1000 0x2000 0x100 0x200 (sample_run\<lparr>memory := sample_format\<rparr>) (change_current_console 0 d) =
       Inr (6, k', Printed d') \<and> own_cells 0 d' 322 = 0x0f30"
proof -
  let ?k = "sample_run\<lparr>memory := sample_format\<rparr>"
  obtain d where d: "init_consoles sample_display = Some d" "display_wf (change_current_console 0 d)"
      "cursor_pos (con (change_current_console 0 d) 0) = of_nat (5461 * 0 + 320)"
    using sample_display_started by metis
  have inv: "kernel_inv ?k" using memory_inv [OF sample_run_inv(1)] by simp
  have c: "0 = unat (p_console_id (proc ?k (process_ready ?k)))"
    using boot_process_fields(9) [of 1] by (simp add: sample_run_def kernel_leave_def sample_boot_def proc_def)
  note out = sample_items_formatted
  have seven: "length (formatted sample_items) + 1 = 7" by (simp add: out)
  have mem: "memory ?k = sample_format" by simp
  obtain k' d' where *: "printf 0x1000 0x2000 0x100 0x200 ?k (change_current_console 0 d) =
      Inr (of_nat (length (formatted sample_items)), k', Printed d')"
    "\<forall>j<length (formatted sample_items). own_cells 0 d' (320 + j) = scast (formatted sample_items ! j) OR 0x0f00"
    using printf_appears [OF inv sample_format_facts(1), unfolded seven mem, OF sample_written_def sample_written_apart
        sample_format_facts(2,3) d(2) c _ d(3)] by (auto simp: out)
  have "own_cells 0 d' (320 + 2) = 0x0f30" using *(2) [rule_format, of 2] by (simp add: out)
  then show ?thesis using d(1) *(1) by (auto simp: out)
qed

text \<open>
  The messages of \<open>lib/debug.c\<close>: a failed assertion of one of the kernel's own tasks, and a critical
  error of any process, stop the processor in the print call, with the message (the expression, the
  files and the line) in the first cells of the video memory and the other cells as they were.
\<close>

lemma alarm_text:
  assumes "kernel_inv k" and "\<forall>it\<in>set its. item_ok it \<and> narrow it"
    and "its = assert_items exp file base_file line \<and> process_ready k < RING1_TASK_CNT \<or> its = critical_items xs"
    and "W = (\<lambda>x. in_block x tmp 256 \<or> in_block x buf (length (formatted its) + 1))"
    and "\<forall>x. in_block x buf (length (formatted its) + 1) \<longrightarrow> \<not> in_block x tmp 256"
    and "keeps W (memory k) fmt (concat (map item_text its) @ [0])" and "args_at W (memory k) args its"
    and "length (formatted its) \<le> 0x4000"
  shows "\<exists>k' d'. printf tmp buf fmt args k d = Inr (of_nat (length (formatted its)), k', Halted d') \<and>
    (\<forall>j<length (formatted its) - 1. cells d' (of_nat j) = 0x7400 OR ucast (formatted its ! Suc j)) \<and>
    (\<forall>a. length (formatted its) - 1 \<le> unat a \<longrightarrow> cells d' a = cells d a)"
proof -
  have "length (formatted its) < 4294967295" using assms(8) by simp
  from printf_text [OF assms(1,2,4-7) this, of d] obtain m where m: "cstring m buf (formatted its)"
    "kernel_inv (k\<lparr>memory := m\<rparr>)"
    "printf tmp buf fmt args k d =
      andThen (sys_call_printx buf (k\<lparr>memory := m\<rparr>) d) (\<lambda>(k, r). Inr (of_nat (length (formatted its)), k, r))"
    by blast
  obtain ch ys where f: "formatted its = ch # ys"
    and ch: "ch = MAGIC_CH_CRITICAL \<or> ch = MAGIC_CH_ASSERT \<and> process_ready k < RING1_TASK_CNT"
    using assms(3) by (auto simp: debug_formats)
  have "cstring (memory (k\<lparr>memory := m\<rparr>)) buf (ch # ys)" "length ys < 0x4000"
    using m(1) assms(8) unfolding f by simp_all
  from sys_call_printx_alarm [OF m(2) this, of d] ch show ?thesis using m(3) by (auto simp: f)
qed

end
