(* ===== verification/Irq.thy ===== *)
theory Irq
  imports Core Lib_Common
begin

text \<open>
  The interrupt controller and the timer: \<open>init_8259a\<close>, \<open>init_8253_pit\<close>, \<open>init_clock\<close> and
  \<open>set_irq_handler\<close> of \<open>kernel/interrupt.c\<close>, \<open>enable_irq\<close>, \<open>disable_irq\<close> and the frame of the
  interrupt entries in \<open>kernel/gas/interrupt.s\<close>, and the places where the drivers install their
  handlers. The two 8259A chips are modelled as far as the code programs them: the sequence
  of initialisation words, the vector base and the mask.
\<close>

section \<open>The chips\<close>

text \<open>
  \<open>icw_next\<close> is the initialisation word the chip expects at its data port: 2 to 4, or 0 for
  the mask.
\<close>

record chip =
  icw1 :: u8
  icw_next :: nat
  vector_base :: u8
  irq_mask :: u8

text \<open>A byte with bit 4 at the control port starts the initialisation and clears the mask.\<close>

definition chip_control :: "u8 \<Rightarrow> chip \<Rightarrow> chip" where
  "chip_control v c = (if bit v 4 then c\<lparr>icw1 := v, icw_next := 2, irq_mask := 0\<rparr> else c)"

text \<open>Bit 1 of the first word says that there is no third, bit 0 that there is a fourth.\<close>

definition chip_data :: "u8 \<Rightarrow> chip \<Rightarrow> chip" where
  "chip_data v c =
     (let last = (if bit (icw1 c) 0 then 4 else 0) in
      if icw_next c = 2 then c\<lparr>vector_base := v AND 0xf8, icw_next := (if bit (icw1 c) 1 then last else 3)\<rparr>
      else if icw_next c = 3 then c\<lparr>icw_next := last\<rparr>
      else if icw_next c = 4 then c\<lparr>icw_next := 0\<rparr>
      else c\<lparr>irq_mask := v\<rparr>)"

type_synonym handler = string

text \<open>\<open>timer\<close> is what was written to the ports of the timer.\<close>

record irqs =
  master :: chip
  slave :: chip
  irq_table :: "handler list"
  timer :: "(u16 \<times> u8) list"

text \<open>Ports and lines (\<open>include/kernel/interrupt.h\<close>).\<close>

abbreviation (input) INT_M_CTRL :: u16 where "INT_M_CTRL \<equiv> 0x20"
abbreviation (input) INT_M_CTRL_MASK :: u16 where "INT_M_CTRL_MASK \<equiv> 0x21"
abbreviation (input) INT_S_CTRL :: u16 where "INT_S_CTRL \<equiv> 0xa0"
abbreviation (input) INT_S_CTRL_MASK :: u16 where "INT_S_CTRL_MASK \<equiv> 0xa1"
abbreviation (input) TIMER0 :: u16 where "TIMER0 \<equiv> 0x40"
abbreviation (input) TIMER_MODE :: u16 where "TIMER_MODE \<equiv> 0x43"
abbreviation (input) TIMER_RATE_GEN :: u8 where "TIMER_RATE_GEN \<equiv> 0x34"
abbreviation (input) IRQ_CLOCK :: c_int where "IRQ_CLOCK \<equiv> 0"
abbreviation (input) IRQ_KEYBOARD :: c_int where "IRQ_KEYBOARD \<equiv> 1"
abbreviation (input) IRQ_M_TO_S :: c_int where "IRQ_M_TO_S \<equiv> 2"
abbreviation (input) IRQ_AT :: c_int where "IRQ_AT \<equiv> 14"

definition irq_outb :: "u8 \<Rightarrow> u16 \<Rightarrow> irqs \<Rightarrow> irqs" where
  "irq_outb v p s =
     (if p = INT_M_CTRL then s\<lparr>master := chip_control v (master s)\<rparr>
      else if p = INT_M_CTRL_MASK then s\<lparr>master := chip_data v (master s)\<rparr>
      else if p = INT_S_CTRL then s\<lparr>slave := chip_control v (slave s)\<rparr>
      else if p = INT_S_CTRL_MASK then s\<lparr>slave := chip_data v (slave s)\<rparr>
      else s\<lparr>timer := timer s @ [(p, v)]\<rparr>)"

section \<open>Start\<close>

abbreviation (input) IRQ_CNT :: nat where "IRQ_CNT \<equiv> 16"

definition init_8259a :: "irqs \<Rightarrow> irqs" where
  "init_8259a s =
     (let s = fold (\<lambda>(v, p). irq_outb v p)
            [(0x11, INT_M_CTRL), (0x11, INT_S_CTRL), (INT_VECTOR_IRQ0, INT_M_CTRL_MASK),
             (INT_VECTOR_IRQ8, INT_S_CTRL_MASK), (0x4, INT_M_CTRL_MASK), (0x2, INT_S_CTRL_MASK),
             (0x1, INT_M_CTRL_MASK), (0x1, INT_S_CTRL_MASK), (0xff, INT_M_CTRL_MASK),
             (0xff, INT_S_CTRL_MASK)] s
      in s\<lparr>irq_table := replicate IRQ_CNT ''dummy_irq_handler''\<rparr>)"

abbreviation (input) TIMER_FREQ :: c_int where "TIMER_FREQ \<equiv> 1193182"
abbreviation (input) TIMER_HZ :: c_int where "TIMER_HZ \<equiv> 100"

definition init_8253_pit :: "irqs \<Rightarrow> irqs" where
  "init_8253_pit s =
     irq_outb (ucast (signed_drop_bit 8 (c_div TIMER_FREQ TIMER_HZ))) TIMER0
      (irq_outb (ucast (c_div TIMER_FREQ TIMER_HZ)) TIMER0 (irq_outb TIMER_RATE_GEN TIMER_MODE s))"

section \<open>Interrupt lines\<close>

text \<open>
  \<open>enable_irq\<close> and \<open>disable_irq\<close> rotate a byte by the number in \<open>cl\<close>, which counts modulo 8;
  numbers from 8 on belong to the second chip. \<open>disable_irq\<close> says whether it did anything.
\<close>

definition irq_bit :: "c_int \<Rightarrow> u8" where
  "irq_bit irq = push_bit (unat (ucast irq :: u8) mod 8) 1"

definition on_slave :: "c_int \<Rightarrow> bool" where
  "on_slave irq \<longleftrightarrow> 8 \<le> (ucast irq :: u8)"

definition disable_irq :: "c_int \<Rightarrow> irqs \<Rightarrow> c_int \<times> irqs" where
  "disable_irq irq s =
     (let al = irq_mask (if on_slave irq then slave s else master s);
          p = (if on_slave irq then INT_S_CTRL_MASK else INT_M_CTRL_MASK)
      in if al AND irq_bit irq \<noteq> 0 then (0, s) else (1, irq_outb (al OR irq_bit irq) p s))"

definition enable_irq :: "c_int \<Rightarrow> irqs \<Rightarrow> irqs" where
  "enable_irq irq s =
     (let al = irq_mask (if on_slave irq then slave s else master s);
          p = (if on_slave irq then INT_S_CTRL_MASK else INT_M_CTRL_MASK)
      in irq_outb (al AND NOT (irq_bit irq)) p s)"

definition set_irq_handler :: "c_int \<Rightarrow> handler \<Rightarrow> irqs \<Rightarrow> stop + irqs" where
  "set_irq_handler irq h s =
     (let s = snd (disable_irq irq s) in
      if unat irq < length (irq_table s) then Inr (s\<lparr>irq_table := (irq_table s)[unat irq := h]\<rparr>)
      else Inl (Out_of_table irq))"

text \<open>
  The entries \<open>hw_int_master\<close> and \<open>hw_int_slaver\<close>: before the handler the own line is masked
  and the end of the interrupt is reported (0x20 at the control ports), after it the line is
  enabled again.
\<close>

definition hw_int_before :: "c_int \<Rightarrow> irqs \<Rightarrow> irqs" where
  "hw_int_before irq s =
     (if on_slave irq
      then irq_outb 0x20 INT_S_CTRL (irq_outb 0x20 INT_M_CTRL (irq_outb (irq_mask (slave s) OR irq_bit irq) INT_S_CTRL_MASK s))
      else irq_outb 0x20 INT_M_CTRL (irq_outb (irq_mask (master s) OR irq_bit irq) INT_M_CTRL_MASK s))"

definition hw_int_after :: "c_int \<Rightarrow> irqs \<Rightarrow> irqs" where
  "hw_int_after irq s = enable_irq irq s"

section \<open>The drivers\<close>

definition init_clock :: "irqs \<Rightarrow> stop + irqs" where
  "init_clock s =
     andThen (set_irq_handler IRQ_CLOCK ''clock_int_handler'' (init_8253_pit s)) (\<lambda>s. Inr (enable_irq IRQ_CLOCK s))"

text \<open>The last two lines of \<open>init_keyboard\<close>, and the interrupt lines of \<open>hdd_init\<close>.\<close>

definition keyboard_irq :: "irqs \<Rightarrow> stop + irqs" where
  "keyboard_irq s = andThen (set_irq_handler IRQ_KEYBOARD ''keyboard_int_handler'' s) (\<lambda>s. Inr (enable_irq IRQ_KEYBOARD s))"

definition hdd_irq :: "irqs \<Rightarrow> stop + irqs" where
  "hdd_irq s =
     andThen (set_irq_handler IRQ_AT ''hdd_int_handler'' s) (\<lambda>s. Inr (enable_irq IRQ_AT (enable_irq IRQ_M_TO_S s)))"

text \<open>The handler of the lines without a driver shows the number; \<open>buf\<close> is its local array.\<close>

definition dummy_irq_handler :: "addr \<Rightarrow> c_int \<Rightarrow> mem \<times> screen \<Rightarrow> stop + mem \<times> screen" where
  "dummy_irq_handler buf irq = (\<lambda>(m, s).
     let m = memset buf 0 50 m; s = show_text (chars ''irq:'') 0 s in
     andThen (itoa irq buf m) (\<lambda>m.
     andThen (returns (show_msg m buf s)) (\<lambda>s. Inr (m, show_text [10] 0 s))))"

lemma dummy_irq_handler_shows:
  assumes "irq \<noteq> 0x80000000"
  shows "\<exists>m'. dummy_irq_handler buf irq (m, s) =
    Inr (m', show_text (chars ''irq:'' @ number_text 10 (sint irq) @ [10]) 0 s)"
proof -
  obtain m' where "itoa irq buf (memset buf 0 50 m) = Inr m'" "cstring m' buf (number_text 10 (sint irq))"
    using itoa_base_text [of 10 irq buf "memset buf 0 50 m"] assms by (auto simp: itoa_def)
  then show ?thesis
    using show_msg_ext_cstring by (auto simp: dummy_irq_handler_def show_msg_def show_text_append Let_def)
qed

section \<open>Lines and chips\<close>

definition chip_of :: "nat \<Rightarrow> irqs \<Rightarrow> chip" where
  "chip_of i s = (if i < 8 then master s else slave s)"

definition enabled :: "irqs \<Rightarrow> nat \<Rightarrow> bool" where
  "enabled s i \<longleftrightarrow> \<not> bit (irq_mask (chip_of i s)) (i mod 8)"

text \<open>The vector the chips send for a line.\<close>

definition irq_vector :: "irqs \<Rightarrow> nat \<Rightarrow> u8" where
  "irq_vector s i = vector_base (chip_of i s) + of_nat (i mod 8)"

text \<open>Both chips have been initialised, with the vectors from 0x20 on.\<close>

definition programmed :: "irqs \<Rightarrow> bool" where
  "programmed s \<longleftrightarrow> icw_next (master s) = 0 \<and> icw_next (slave s) = 0 \<and>
     vector_base (master s) = 0x20 \<and> vector_base (slave s) = 0x28 \<and> length (irq_table s) = IRQ_CNT"

lemma line_numbers:
  assumes "i < 16"
  shows "irq_bit (of_nat i) = push_bit (i mod 8) 1" and "on_slave (of_nat i) \<longleftrightarrow> \<not> i < 8"
proof -
  have u: "(ucast (of_nat i :: c_int) :: u8) = of_nat i" "unat (of_nat i :: u8) = i"
    using assms by (simp_all add: unsigned_of_nat take_bit_nat_eq_self)
  show "irq_bit (of_nat i) = push_bit (i mod 8) 1" unfolding irq_bit_def u by simp
  show "on_slave (of_nat i) \<longleftrightarrow> \<not> i < 8" unfolding on_slave_def u by (auto simp: word_le_nat_alt u(2))
qed

lemma bit_of_line: "j < 16 \<Longrightarrow> bit (push_bit (i mod 8) 1 :: u8) (j mod 8) \<longleftrightarrow> i mod 8 = j mod 8"
  by (auto simp: bit_simps)

lemma same_line:
  fixes i j :: nat
  assumes "i < 16" and "j < 16" and "i mod 8 = j mod 8" and "i < 8 \<longleftrightarrow> j < 8"
  shows "i = j"
proof (cases "i < 8")
  case True
  then show ?thesis using assms by simp
next
  case False
  then have "i - 8 = j - 8" using assms le_mod_geq [of 8 i] le_mod_geq [of 8 j] by simp
  then show ?thesis using False assms(4) by linarith
qed

lemma init_8259a_state: "programmed (init_8259a s)" "\<not> enabled (init_8259a s) i"
proof -
  show "programmed (init_8259a s)"
    by (simp add: init_8259a_def programmed_def irq_outb_def chip_control_def chip_data_def Let_def)
  have "irq_mask (master (init_8259a s)) = mask 8" "irq_mask (slave (init_8259a s)) = mask 8"
    by (simp_all add: init_8259a_def irq_outb_def chip_control_def chip_data_def Let_def mask_eq_exp_minus_1)
  then show "\<not> enabled (init_8259a s) i" by (simp add: enabled_def chip_of_def bit_simps)
qed

text \<open>Writing a mask.\<close>

lemma write_mask:
  fixes v :: u8
  assumes "programmed s" and "i < 16"
  defines "s' \<equiv> irq_outb v (if on_slave (of_nat i) then 0xa1 else 0x21) s"
  shows "programmed s'" and "irq_table s' = irq_table s"
    and "irq_mask (chip_of j s') = (if i < 8 \<longleftrightarrow> j < 8 then v else irq_mask (chip_of j s))"
  using assms line_numbers(2) [OF assms(2)]
  by (auto simp: irq_outb_def chip_data_def programmed_def chip_of_def)

lemma enable_irq_state:
  assumes "programmed s" and "i < 16"
  shows "programmed (enable_irq (of_nat i) s)" and "irq_table (enable_irq (of_nat i) s) = irq_table s"
    and "j < 16 \<Longrightarrow> enabled (enable_irq (of_nat i) s) j \<longleftrightarrow> j = i \<or> enabled s j"
proof -
  have e: "enable_irq (of_nat i) s = irq_outb (irq_mask (chip_of i s) AND NOT (push_bit (i mod 8) 1))
      (if on_slave (of_nat i) then 0xa1 else 0x21) s"
    using line_numbers [OF assms(2)] by (simp add: enable_irq_def chip_of_def Let_def)
  show "programmed (enable_irq (of_nat i) s)" "irq_table (enable_irq (of_nat i) s) = irq_table s"
    unfolding e using write_mask [OF assms] by simp_all
  show "enabled (enable_irq (of_nat i) s) j \<longleftrightarrow> j = i \<or> enabled s j" if "j < 16"
    using write_mask(3) [OF assms, where j = j] same_line [OF assms(2) that] bit_of_line [OF that, of i] that
    unfolding e enabled_def by (auto simp: bit_simps chip_of_def)
qed

lemma disable_irq_state:
  assumes "programmed s" and "i < 16"
  shows "programmed (snd (disable_irq (of_nat i) s))" and "irq_table (snd (disable_irq (of_nat i) s)) = irq_table s"
    and "j < 16 \<Longrightarrow> enabled (snd (disable_irq (of_nat i) s)) j \<longleftrightarrow> j \<noteq> i \<and> enabled s j"
    and "fst (disable_irq (of_nat i) s) = (if enabled s i then 1 else 0)"
proof -
  let ?al = "irq_mask (chip_of i s)"
  have zero: "?al AND push_bit (i mod 8) 1 \<noteq> 0 \<longleftrightarrow> \<not> enabled s i"
    using and_exp_eq_0_iff_not_bit [of ?al "i mod 8"] by (simp add: enabled_def push_bit_eq_mult)
  have d: "disable_irq (of_nat i) s = (if \<not> enabled s i then (0, s)
      else (1, irq_outb (?al OR push_bit (i mod 8) 1) (if on_slave (of_nat i) then 0xa1 else 0x21) s))"
    unfolding zero [symmetric] using line_numbers [OF assms(2)] by (simp add: disable_irq_def chip_of_def Let_def)
  show "programmed (snd (disable_irq (of_nat i) s))" "irq_table (snd (disable_irq (of_nat i) s)) = irq_table s"
    "fst (disable_irq (of_nat i) s) = (if enabled s i then 1 else 0)"
    unfolding d using write_mask [OF assms] assms(1) by simp_all
  show "enabled (snd (disable_irq (of_nat i) s)) j \<longleftrightarrow> j \<noteq> i \<and> enabled s j" if j: "j < 16"
  proof (cases "enabled s i")
    case False
    then show ?thesis unfolding d by auto
  next
    case True
    note m = write_mask(3) [OF assms, where j = j and v = "?al OR push_bit (i mod 8) 1"]
    show ?thesis
    proof (cases "i < 8 \<longleftrightarrow> j < 8")
      case same: True
      then have "chip_of j s = chip_of i s" by (simp add: chip_of_def)
      then show ?thesis
        using m same True same_line [OF assms(2) j] bit_of_line [OF j, of i]
        unfolding d enabled_def by (auto simp: bit_or_iff)
    next
      case False
      then show ?thesis using m True unfolding d enabled_def by auto
    qed
  qed
qed

lemma hw_int_before_state:
  assumes "programmed s" and "i < 16"
  shows "programmed (hw_int_before (of_nat i) s)" and "irq_table (hw_int_before (of_nat i) s) = irq_table s"
    and "j < 16 \<Longrightarrow> enabled (hw_int_before (of_nat i) s) j \<longleftrightarrow> j \<noteq> i \<and> enabled s j"
proof -
  have eoi: "irq_outb 0x20 p s' = s'" if "p = 0x20 \<or> p = 0xa0" for p s'
    using that by (auto simp: irq_outb_def chip_control_def)
  let ?v = "irq_mask (chip_of i s) OR push_bit (i mod 8) 1"
  have h: "hw_int_before (of_nat i) s = irq_outb ?v (if on_slave (of_nat i) then 0xa1 else 0x21) s"
    using line_numbers [OF assms(2)] by (simp add: hw_int_before_def eoi chip_of_def)
  note m = write_mask [OF assms, where v = ?v]
  show "programmed (hw_int_before (of_nat i) s)" "irq_table (hw_int_before (of_nat i) s) = irq_table s"
    unfolding h using m by simp_all
  show "enabled (hw_int_before (of_nat i) s) j \<longleftrightarrow> j \<noteq> i \<and> enabled s j" if j: "j < 16"
  proof (cases "i < 8 \<longleftrightarrow> j < 8")
    case same: True
    then have "chip_of j s = chip_of i s" by (simp add: chip_of_def)
    then show ?thesis
      using m(3) [of j] same same_line [OF assms(2) j] bit_of_line [OF j, of i]
      unfolding h enabled_def by (auto simp: bit_or_iff)
  next
    case False
    then show ?thesis using m(3) [of j] unfolding h enabled_def by auto
  qed
qed

section \<open>The life of the interrupt lines\<close>

text \<open>The handler a driver installs for its line; line 2 leads to the second chip.\<close>

definition driver_handler :: "nat \<Rightarrow> handler option" where
  "driver_handler i =
     (if i = 0 then Some ''clock_int_handler'' else if i = 1 then Some ''keyboard_int_handler''
      else if i = 14 then Some ''hdd_int_handler'' else None)"

text \<open>
  What can happen after \<open>init_8259a\<close>, in any order and any number of times: a driver sets its
  line up, a line that is enabled interrupts (which nests), and the interrupt taken last ends.
  The list holds the interrupts that are being served.
\<close>

inductive irq_reach :: "irqs \<Rightarrow> nat list \<Rightarrow> bool" where
  start: "irq_reach (init_8259a s) []"
| clock: "irq_reach s act \<Longrightarrow> init_clock s = Inr s' \<Longrightarrow> irq_reach s' act"
| keyboard: "irq_reach s act \<Longrightarrow> keyboard_irq s = Inr s' \<Longrightarrow> irq_reach s' act"
| disk: "irq_reach s act \<Longrightarrow> hdd_irq s = Inr s' \<Longrightarrow> irq_reach s' act"
| interrupt: "irq_reach s act \<Longrightarrow> i < 16 \<Longrightarrow> enabled s i \<Longrightarrow> irq_reach (hw_int_before (of_nat i) s) (i # act)"
| return: "irq_reach s (i # act) \<Longrightarrow> irq_reach (hw_int_after (of_nat i) s) act"

text \<open>The invariant: a line in use is the cascade or has its driver's handler.\<close>

definition irq_inv :: "irqs \<Rightarrow> nat list \<Rightarrow> bool" where
  "irq_inv s act \<longleftrightarrow> programmed s \<and> set act \<subseteq> {..<16} \<and>
     (\<forall>i<16. enabled s i \<or> i \<in> set act \<longrightarrow> i = 2 \<or> driver_handler i = Some (irq_table s ! i))"

lemma other_fields [simp]:
  "enabled (s\<lparr>irq_table := t\<rparr>) = enabled s" "enabled (s\<lparr>timer := w\<rparr>) = enabled s"
  by (simp_all add: enabled_def chip_of_def fun_eq_iff)

lemma handler_set:
  assumes "irq_inv s act" and "i < 16" and "driver_handler i = Some h"
  shows "\<exists>s'. set_irq_handler (of_nat i) h s = Inr s' \<and> irq_inv s' act \<and> irq_table s' = (irq_table s)[i := h]"
proof -
  let ?s = "snd (disable_irq (of_nat i) s)"
  have p: "programmed s" using assms(1) by (simp add: irq_inv_def)
  note d = disable_irq_state [OF p assms(2)]
  have len: "length (irq_table s) = 16" using p by (simp add: programmed_def)
  let ?s' = "?s\<lparr>irq_table := (irq_table s)[i := h]\<rparr>"
  have "set_irq_handler (of_nat i) h s = Inr ?s'"
    using assms(2) len d(2) by (simp add: set_irq_handler_def Let_def)
  moreover have "programmed ?s'" using d(1,2) len by (simp add: programmed_def)
  then have "irq_inv ?s' act"
    using assms d(3) len by (auto simp: irq_inv_def nth_list_update)
  ultimately show ?thesis by auto
qed

lemma line_enabled:
  assumes "irq_inv s act" and "i < 16" and "i = 2 \<or> driver_handler i = Some (irq_table s ! i)"
  shows "irq_inv (enable_irq (of_nat i) s) act"
proof -
  have "programmed s" using assms(1) by (simp add: irq_inv_def)
  note e = enable_irq_state [OF this assms(2)]
  then show ?thesis using assms by (auto simp: irq_inv_def)
qed

lemma init_8253_pit_state: "irq_inv (init_8253_pit s) act = irq_inv s act"
  by (simp add: init_8253_pit_def irq_outb_def irq_inv_def programmed_def enabled_def chip_of_def)

lemma irq_inv_length: "irq_inv s act \<Longrightarrow> length (irq_table s) = 16 \<and> programmed s"
  by (simp add: irq_inv_def programmed_def)

lemma irq_inv_drivers:
  assumes "irq_inv s act"
  shows "init_clock s = Inr s' \<Longrightarrow> irq_inv s' act" and "keyboard_irq s = Inr s' \<Longrightarrow> irq_inv s' act"
    and "hdd_irq s = Inr s' \<Longrightarrow> irq_inv s' act"
proof -
  show "irq_inv s' act" if "init_clock s = Inr s'"
  proof -
    have inv: "irq_inv (init_8253_pit s) act" using assms by (simp add: init_8253_pit_state)
    obtain s1 where s1: "set_irq_handler 0 ''clock_int_handler'' (init_8253_pit s) = Inr s1" "irq_inv s1 act"
      "irq_table s1 ! 0 = ''clock_int_handler''"
      using handler_set [OF inv, of 0] irq_inv_length [OF inv] by (auto simp: driver_handler_def)
    then show ?thesis using line_enabled [OF s1(2), of 0] that by (simp add: init_clock_def driver_handler_def)
  qed
  show "irq_inv s' act" if "keyboard_irq s = Inr s'"
  proof -
    obtain s1 where s1: "set_irq_handler 1 ''keyboard_int_handler'' s = Inr s1" "irq_inv s1 act"
      "irq_table s1 ! 1 = ''keyboard_int_handler''"
      using handler_set [OF assms, of 1] irq_inv_length [OF assms] by (auto simp: driver_handler_def)
    then show ?thesis using line_enabled [OF s1(2), of 1] that by (simp add: keyboard_irq_def driver_handler_def)
  qed
  show "irq_inv s' act" if "hdd_irq s = Inr s'"
  proof -
    obtain s1 where s1: "set_irq_handler 14 ''hdd_int_handler'' s = Inr s1" "irq_inv s1 act"
      "irq_table s1 ! 14 = ''hdd_int_handler''"
      using handler_set [OF assms, of 14] irq_inv_length [OF assms] by (auto simp: driver_handler_def)
    have "irq_inv (enable_irq 2 s1) act" "irq_table (enable_irq 2 s1) = irq_table s1"
      using line_enabled [OF s1(2), of 2] enable_irq_state(2) [of s1 2] irq_inv_length [OF s1(2)] by simp_all
    then show ?thesis
      using line_enabled [of "enable_irq 2 s1" act 14] s1(1,3) that by (simp add: hdd_irq_def driver_handler_def)
  qed
qed

text \<open>The clock after the chips have been programmed: its line is the only one enabled.\<close>

lemma init_clock_first:
  "\<exists>s'. init_clock (init_8259a s) = Inr s' \<and> (\<forall>i<16. enabled s' i \<longleftrightarrow> i = 0) \<and>
     irq_table s' ! 0 = ''clock_int_handler''"
proof -
  let ?s = "init_8253_pit (init_8259a s)"
  have p: "programmed ?s" "\<forall>i. \<not> enabled ?s i"
    using init_8259a_state [of s] by (simp_all add: init_8253_pit_def irq_outb_def programmed_def enabled_def chip_of_def)
  note d = disable_irq_state [OF p(1), of 0]
  define s1 where "s1 = (snd (disable_irq 0 ?s))\<lparr>irq_table := (irq_table ?s)[0 := ''clock_int_handler'']\<rparr>"
  have h: "set_irq_handler 0 ''clock_int_handler'' ?s = Inr s1"
    using d(2) p(1) by (simp add: set_irq_handler_def Let_def s1_def programmed_def flip: length_greater_0_conv)
  have s1: "programmed s1" "\<forall>i<16. \<not> enabled s1 i" "irq_table s1 ! 0 = ''clock_int_handler''"
    using d p by (simp_all add: s1_def programmed_def flip: length_greater_0_conv)
  note e = enable_irq_state [OF s1(1), of 0]
  have "init_clock (init_8259a s) = Inr (enable_irq 0 s1)" using h by (simp add: init_clock_def)
  then show ?thesis using e s1 by simp
qed

lemma irq_reach_inv: "irq_reach s act \<Longrightarrow> irq_inv s act"
proof (induction rule: irq_reach.induct)
  case (start s)
  then show ?case using init_8259a_state by (simp add: irq_inv_def)
next
  case (interrupt s act i)
  then have "programmed s" by (simp add: irq_inv_def)
  note h = hw_int_before_state [OF this interrupt.hyps(2)]
  then show ?case using interrupt by (auto simp: irq_inv_def)
next
  case (return s i act)
  then have "i < 16" "i = 2 \<or> driver_handler i = Some (irq_table s ! i)" "irq_inv s act"
    by (auto simp: irq_inv_def)
  then show ?case using line_enabled by (simp add: hw_int_after_def)
qed (use irq_inv_drivers in blast)+

lemma hw_interrupts_lines:
  assumes "i < 16"
  shows "fst (hw_interrupts ! i) = of_nat (0x20 + i)" and "snd (snd (hw_interrupts ! i)) = PRI_KRNL"
    and "i < length hw_interrupts"
proof -
  have "\<forall>i\<in>set [0..<16]. fst (hw_interrupts ! i) = of_nat (0x20 + i) \<and> snd (snd (hw_interrupts ! i)) = PRI_KRNL"
    by (simp add: hw_interrupts_def upt_rec)
  then show "fst (hw_interrupts ! i) = of_nat (0x20 + i)" "snd (snd (hw_interrupts ! i)) = PRI_KRNL"
    using assms by simp_all
  show "i < length hw_interrupts" using assms by (simp add: hw_interrupts_def)
qed

lemma line_vector:
  assumes "programmed s" and "i < 16"
  shows "irq_vector s i = fst (hw_interrupts ! i)"
proof (cases "i < 8")
  case True
  then show ?thesis
    using assms(1) unfolding hw_interrupts_lines(1) [OF assms(2)] by (simp add: irq_vector_def chip_of_def programmed_def)
next
  case False
  then have "i mod 8 = i - 8" using assms(2) by (simp add: le_mod_geq)
  moreover have "(0x28 :: u8) + of_nat (i - 8) = of_nat (0x20 + i)" using False by simp
  ultimately show ?thesis
    using assms(1) False unfolding hw_interrupts_lines(1) [OF assms(2)]
    by (simp add: irq_vector_def chip_of_def programmed_def del: of_nat_add)
qed

section \<open>Properties\<close>

text \<open>
  C17. At every moment after the interrupt chips have been programmed, however the drivers are
  started and interrupts nest: a line that can interrupt belongs to the clock, the keyboard or
  the disk and its handler is the one of its driver (line 2, the cascade, apart); the vector the chips
  send for a line leads to the entry of that line, which user code cannot raise.
\<close>

theorem enabled_lines_handled:
  assumes "irq_reach s act" and "i < 16" and "enabled s i" and "length idt = IDT_SIZE"
  shows "(i = 2 \<or> driver_handler i = Some (irq_table s ! i)) \<and>
    irq_vector s i = fst (hw_interrupts ! i) \<and>
    gate_offset (init_idt lnk idt ! unat (irq_vector s i)) = lnk (fst (snd (hw_interrupts ! i))) \<and>
    gate_dpl (init_idt lnk idt ! unat (irq_vector s i)) = PRI_KRNL"
proof -
  have inv: "irq_inv s act" using irq_reach_inv [OF assms(1)] .
  have v: "irq_vector s i = fst (hw_interrupts ! i)" "snd (snd (hw_interrupts ! i)) = PRI_KRNL" "i < length hw_interrupts"
    using line_vector [OF _ assms(2)] hw_interrupts_lines [OF assms(2)] inv by (simp_all add: irq_inv_def)
  have "hw_interrupts ! i \<in> set idt_entries" using v(3) by (simp add: idt_entries_def)
  then have "(irq_vector s i, fst (snd (hw_interrupts ! i)), PRI_KRNL) \<in> set idt_entries"
    using v(1,2) by (metis prod.collapse)
  from init_idt_gate [OF this assms(4), of lnk] show ?thesis
    using v(1) inv assms(2,3) by (auto simp: irq_inv_def)
qed

text \<open>The clock has been started, and its line is enabled.\<close>

definition sample_irqs :: irqs where
  "sample_irqs = (let c = \<lparr>icw1 = 0, icw_next = 0, vector_base = 0, irq_mask = 0\<rparr>
     in \<lparr>master = c, slave = c, irq_table = [], timer = []\<rparr>)"

theorem enabled_lines_handled_witness:
  "\<exists>s. init_clock (init_8259a sample_irqs) = Inr s \<and> enabled s 0 \<and> irq_table s ! 0 = ''clock_int_handler'' \<and>
     gate_offset (init_idt (\<lambda>n. if n = ''hw_int00'' then 0x30500 else 0)
       (replicate 256 \<lparr>offset_low = 0, selector = 0, d_count = 0, gate_attr = 0, offset_high = 0\<rparr>) ! 0x20) = 0x30500"
proof -
  let ?s0 = "init_8253_pit (init_8259a sample_irqs)" and ?lnk = "\<lambda>n. if n = ''hw_int00'' then 0x30500 else 0 :: addr"
  let ?idt = "replicate 256 \<lparr>offset_low = 0, selector = 0, d_count = 0, gate_attr = 0, offset_high = 0\<rparr>"
  have inv: "irq_inv ?s0 []" using irq_reach_inv [OF irq_reach.start] by (simp add: init_8253_pit_state)
  obtain s1 where s1: "set_irq_handler 0 ''clock_int_handler'' ?s0 = Inr s1" "irq_inv s1 []"
    using handler_set [OF inv, of 0] by (auto simp: driver_handler_def)
  let ?s = "enable_irq 0 s1"
  have c: "init_clock (init_8259a sample_irqs) = Inr ?s" using s1(1) by (simp add: init_clock_def)
  have e: "enabled ?s 0" using enable_irq_state(3) [of s1 0 0] s1(2) by (simp add: irq_inv_def)
  have "irq_reach ?s []" using irq_reach.clock [OF irq_reach.start c] .
  note h = enabled_lines_handled [OF this _ e, of ?idt ?lnk]
  have t: "irq_table ?s ! 0 = ''clock_int_handler''" and v: "irq_vector ?s 0 = 0x20"
    using h by (auto simp: driver_handler_def hw_interrupts_def)
  have "gate_offset (init_idt ?lnk ?idt ! unat (irq_vector ?s 0)) = 0x30500"
    using h by (auto simp: hw_interrupts_def)
  then have "gate_offset (init_idt ?lnk ?idt ! 0x20) = 0x30500" unfolding v by simp
  then show ?thesis using c e t by blast
qed
end
