(* ===== verification/Interleaving.thy ===== *)
theory Interleaving
  imports Printing Irq
begin

text \<open>
  The running system as a step relation, with interrupts inside the kernel. \<open>sys_call\<close> and the
  \<open>hw_int\<close> macros of \<open>kernel/gas/interrupt.s\<close> set the interrupt flag before they call their C
  function and clear it behind the call, so a system call or a handler may itself be interrupted:
  by every line except those whose handlers have not returned, which the macros mask. The relation
  has these interrupts behind the \<open>sti\<close> and in front of the \<open>cli\<close>. The C function between them
  is one step. The theorem is what holds of every state between two instructions of a process, also
  when the clock has ticked inside a system call, which does not switch.
\<close>

section \<open>Interrupts\<close>

text \<open>
  What the interrupts that come from now on, none or more of them one after the other, do to the
  kernel while the lines of \<open>masked\<close> are masked. The clock and the disk change the kernel. The
  keyboard handler puts a scan code into its ring, which is not part of this state.
\<close>

inductive interrupts :: "c_int set \<Rightarrow> kernel \<Rightarrow> kernel \<Rightarrow> bool" where
  none: "interrupts masked k k"
| clock: "interrupts masked k k1 \<Longrightarrow> IRQ_CLOCK \<notin> masked \<Longrightarrow>
    interrupts (insert IRQ_CLOCK masked) (kernel_enter k1) k2 \<Longrightarrow> clock_int_handler k2 = Some k3 \<Longrightarrow>
    interrupts (insert IRQ_CLOCK masked) k3 k4 \<Longrightarrow> interrupts masked k (kernel_leave k4)"
| disk: "interrupts masked k k1 \<Longrightarrow> IRQ_AT \<notin> masked \<Longrightarrow>
    interrupts (insert IRQ_AT masked) (kernel_enter k1) k2 \<Longrightarrow> deliver_int_to_proc HDD_TASK k2 = Inr k3 \<Longrightarrow>
    interrupts (insert IRQ_AT masked) k3 k4 \<Longrightarrow> interrupts masked k (kernel_leave k4)"
| keyboard: "interrupts masked k k1 \<Longrightarrow> IRQ_KEYBOARD \<notin> masked \<Longrightarrow>
    interrupts (insert IRQ_KEYBOARD masked) (kernel_enter k1) k2 \<Longrightarrow> interrupts masked k (kernel_leave k2)"

section \<open>The system\<close>

text \<open>
  The running process computes, interrupts come, or the process makes one of the two system calls
  of \<open>sys_call_table\<close>. The result goes to the process that made the call (\<open>esi\<close> in \<open>sys_call\<close>
  points to its registers). The display is not part of this state: a print call that
  returns may find any.
\<close>

definition return_value :: "nat \<Rightarrow> c_int \<Rightarrow> kernel \<Rightarrow> kernel" where
  "return_value caller ret = upd_proc caller (\<lambda>p. p\<lparr>p_regs := (p_regs p)\<lparr>r_eax := ret\<rparr>\<rparr>)"

inductive kstep :: "kernel \<Rightarrow> kernel \<Rightarrow> bool" where
  compute: "kstep k (k\<lparr>memory := m\<rparr>)"
| interrupted: "interrupts {} k k' \<Longrightarrow> kstep k k'"
| send_recv: "interrupts {} (kernel_enter k) k1 \<Longrightarrow>
    sys_send_recv func src_dest msg (process_ready k1) k1 = Inr (k2, ret) \<Longrightarrow>
    interrupts {} k2 k3 \<Longrightarrow> interrupts {} (return_value (process_ready k) ret k3) k4 \<Longrightarrow>
    kstep k (kernel_leave k4)"
| printx: "interrupts {} (kernel_enter k) k1 \<Longrightarrow>
    sys_printx msg (process_ready k1) k1 d = Inr (Printed d') \<Longrightarrow>
    interrupts {} k1 k2 \<Longrightarrow> interrupts {} (return_value (process_ready k) 0 k2) k3 \<Longrightarrow>
    kstep k (kernel_leave k3)"

inductive_cases kstepE: "kstep k k'"

text \<open>From \<open>init_process_main\<close>, which ends in \<open>restart_process\<close>.\<close>

inductive reachable :: "symbols \<Rightarrow> descriptor list \<Rightarrow> kernel \<Rightarrow> bool" for lnk gdt where
  start: "reachable lnk gdt (kernel_leave (boot_kernel lnk gdt m out))"
| step: "reachable lnk gdt k \<Longrightarrow> kstep k k' \<Longrightarrow> reachable lnk gdt k'"

section \<open>Lemmas\<close>

text \<open>What every step keeps: a well-formed table and a current process that can run.\<close>

definition live :: "kernel \<Rightarrow> bool" where
  "live k \<longleftrightarrow> ipc_wf k \<and> runnable k (process_ready k)"

lemma live_same_table:
  assumes "proc_table k' = proc_table k" and "process_ready k' = process_ready k"
  shows "live k' = live k"
  using same_table [OF assms(1)] same_table(1) [OF assms(1) [symmetric]] assms(2) by (auto simp: live_def)

lemma live_simps [simp]:
  "live (kernel_enter k) = live k" "live (kernel_leave k) = live k" "live (k\<lparr>memory := m\<rparr>) = live k"
  by (intro live_same_table; simp)+

lemma live_current: "live k \<Longrightarrow> process_ready k < TOTAL_TASK_CNT \<and> p_flags (proc k (process_ready k)) = 0"
  by (auto simp: live_def runnable_def ipc_wf_length)

lemma return_value_live:
  assumes "live k" and "i < TOTAL_TASK_CNT"
  shows "live (return_value i ret k)" "int_reenter (return_value i ret k) = int_reenter k"
proof -
  have "ipc_wf k" "runnable k (process_ready k)" using assms(1) by (simp_all add: live_def)
  then show "live (return_value i ret k)"
    using upd_regs_view(1) [OF _ assms(2)] assms(2) by (simp add: live_def return_value_def ipc_wf_length)
  show "int_reenter (return_value i ret k) = int_reenter k" by (simp add: return_value_def)
qed

lemma clock_handler_live:
  assumes "live k"
  shows "\<exists>k'. clock_int_handler k = Some k' \<and> live k' \<and> int_reenter k' = int_reenter k \<and>
    (int_reenter k = 0 \<longrightarrow> slice_left k')"
  using clock_int_handler_correct [of k] assms by (auto simp: live_def)

lemma disk_handler_live:
  assumes "live k"
  shows "\<exists>k'. deliver_int_to_proc HDD_TASK k = Inr k' \<and> live k' \<and> int_reenter k' = int_reenter k"
proof -
  obtain k' where k': "deliver_int_to_proc HDD_TASK k = Inr k'" "ipc_wf k'" "process_ready k' = process_ready k"
      "\<forall>i<TOTAL_TASK_CNT. p_flags (proc k i) = 0 \<longrightarrow> p_flags (proc k' i) = 0"
    using deliver_int_result [of k HDD_TASK] assms by (auto simp: live_def)
  then show ?thesis
    using deliver_int_globals [OF k'(1)] live_current [OF assms] ipc_wf_length [OF k'(2)]
    by (auto simp: live_def runnable_def)
qed

lemma interrupts_live:
  assumes "interrupts masked k k'" and "live k"
  shows "live k' \<and> int_reenter k' = int_reenter k"
  using assms
proof induction
  case (clock masked k k1 k2 k3 k4)
  then show ?case using clock_handler_live [of k2] by auto
next
  case (disk masked k k1 k2 k3 k4)
  then show ?case using disk_handler_live [of k2] by auto
qed simp_all

lemma sys_send_recv_live:
  assumes "live k" and "sys_send_recv func x msg (process_ready k) k = Inr (k', ret)"
  shows "live k' \<and> int_reenter k' = int_reenter k"
  using sys_send_recv_correct [OF _ _ _ refl assms(2)] assms(1) live_current [OF assms(1)]
  by (auto simp: live_def)

lemma kstep_live:
  assumes "kstep k k'" and "live k"
  shows "live k' \<and> int_reenter k' = int_reenter k"
  using assms(1)
proof (rule kstepE)
  fix m assume "k' = k\<lparr>memory := m\<rparr>"
  then show ?thesis using assms(2) by simp
next
  assume "interrupts {} k k'"
  then show ?thesis using interrupts_live assms(2) by blast
next
  fix k1 func x msg k2 ret k3 k4
  assume i: "interrupts {} (kernel_enter k) k1" and s: "sys_send_recv func x msg (process_ready k1) k1 = Inr (k2, ret)"
    and j: "interrupts {} k2 k3" "interrupts {} (return_value (process_ready k) ret k3) k4" and e: "k' = kernel_leave k4"
  have "live k3 \<and> int_reenter k3 = int_reenter k + 1"
    using interrupts_live [OF i] sys_send_recv_live [OF _ s] interrupts_live [OF j(1)] assms(2) by simp
  then show ?thesis
    using interrupts_live [OF j(2)] return_value_live live_current [OF assms(2)] e by simp
next
  fix k1 msg d d' k2 k3
  assume i: "interrupts {} (kernel_enter k) k1"
    and j: "interrupts {} k1 k2" "interrupts {} (return_value (process_ready k) 0 k2) k3" and e: "k' = kernel_leave k3"
  have "live k2 \<and> int_reenter k2 = int_reenter k + 1"
    using interrupts_live [OF i] interrupts_live [OF j(1)] assms(2) by simp
  then show ?thesis
    using interrupts_live [OF j(2)] return_value_live live_current [OF assms(2)] e by simp
qed

lemma reachable_live:
  assumes "reachable lnk gdt k" and "desc_base (gdt ! 2) = 0"
  shows "live k \<and> int_reenter k = - 1"
  using assms(1)
proof induction
  case (start m out)
  then show ?case using boot_ipc_wf [OF assms(2), of lnk m out] by (simp add: live_def [of "boot_kernel lnk gdt m out"])
next
  case (step k k')
  then show ?case using kstep_live by auto
qed

section \<open>Properties\<close>

text \<open>
  C1. Whatever the processes do, by any sequence of computations, system calls and print calls, with
  any clock, disk and keyboard interrupts between their instructions, behind the \<open>sti\<close> of a kernel
  entry, in front of its \<open>cli\<close> and inside each other: the kernel's tables stay well formed, the
  current process can run, and no entry into the kernel is left open. So a clock interrupt
  of the process always comes back, with a process that has part of its time slice left, and a
  disk interrupt never stops the kernel. Of the slice of the current process nothing is said: a clock
  tick inside a system call counts it down without a switch. The body of a system call is one
  step here: what a disk interrupt can do in the middle of \<open>msg_recv\<close> is \<open>msg_recv_lost_wakeup\<close>,
  and a tick in the middle of the scheduler's loops is not covered.
\<close>

theorem reachable_kernel_inv:
  assumes "reachable lnk gdt k" and "desc_base (gdt ! 2) = 0"
  shows "ipc_wf k \<and> runnable k (process_ready k) \<and> int_reenter k = - 1 \<and>
    (\<exists>k'. clock_interrupt k = Some k' \<and> slice_left k') \<and> (\<exists>k'. hdd_interrupt k = Inr k')"
proof -
  have k: "live k" "int_reenter k = - 1" using reachable_live [OF assms] by simp_all
  then obtain k1 k2 where "clock_int_handler (kernel_enter k) = Some k1" "slice_left k1"
      "deliver_int_to_proc HDD_TASK (kernel_enter k) = Inr k2"
    using clock_handler_live [of "kernel_enter k"] disk_handler_live [of "kernel_enter k"] by auto
  then show ?thesis using k by (simp add: live_def clock_interrupt_def hdd_interrupt_def)
qed

text \<open>
  The first process makes a print call, and the clock ticks 15 times before the call is through: all
  its slice is gone and it still runs.
\<close>

definition tick_inside :: "kernel \<Rightarrow> kernel" where
  "tick_inside k = (upd_proc (process_ready k) (\<lambda>p. p\<lparr>p_ticks := p_ticks p - 1\<rparr>) k)\<lparr>ticks := ticks k + 1\<rparr>"

lemma tick_inside_interrupt:
  assumes "int_reenter k = 0"
  shows "kernel_leave (the (clock_int_handler (kernel_enter k))) = tick_inside k"
    "\<exists>k'. clock_int_handler (kernel_enter k) = Some k'"
  using assms
  by (simp_all add: clock_int_handler_def kernel_enter_def kernel_leave_def tick_inside_def upd_proc_def proc_def Let_def)

lemma tick_inside_int_reenter [simp]: "int_reenter (tick_inside k) = int_reenter k"
  by (simp add: tick_inside_def)

lemma ticks_inside:
  assumes "int_reenter k = 0"
  shows "interrupts {} k ((tick_inside ^^ n) k) \<and> int_reenter ((tick_inside ^^ n) k) = 0"
proof (induction n)
  case (Suc n)
  let ?k = "(tick_inside ^^ n) k"
  obtain k' where k': "clock_int_handler (kernel_enter ?k) = Some k'" "kernel_leave k' = tick_inside ?k"
    using tick_inside_interrupt [of ?k] Suc.IH by auto
  have "interrupts {} k (kernel_leave k')"
    using Suc.IH k'(1) by (intro interrupts.clock [OF _ _ interrupts.none _ interrupts.none]) auto
  then show ?case using k'(2) Suc.IH by simp
qed (simp_all add: assms interrupts.none)

lemma ticks_inside_fields:
  assumes "process_ready k < length (proc_table k)"
  shows "process_ready ((tick_inside ^^ n) k) = process_ready k \<and> memory ((tick_inside ^^ n) k) = memory k \<and>
    length (proc_table ((tick_inside ^^ n) k)) = length (proc_table k) \<and>
    p_ticks (proc ((tick_inside ^^ n) k) (process_ready k)) = p_ticks (proc k (process_ready k)) - of_nat n"
  using assms by (induction n) (simp_all add: tick_inside_def proc_upd_proc)

theorem reachable_kernel_inv_witness:
  "\<exists>k. reachable (\<lambda>_. 0x50000) loader_gdt k \<and> \<not> slice_left k \<and> runnable k (process_ready k) \<and>
     (\<exists>k'. clock_interrupt k = Some k' \<and> slice_left k')"
proof -
  let ?k0 = "kernel_leave sample_boot"
  let ?k1 = "(tick_inside ^^ 15) (kernel_enter ?k0)"
  let ?k2 = "kernel_leave (return_value 0 0 ?k1)"
  have i: "interrupts {} (kernel_enter ?k0) ?k1" "int_reenter ?k1 = 0"
    using ticks_inside [of "kernel_enter ?k0" 15] by simp_all
  note f = ticks_inside_fields [of "kernel_enter ?k0" 15]
  have len: "length (proc_table sample_boot) = TOTAL_TASK_CNT" by (simp add: sample_boot_def)
  have "live sample_boot" using boot_ipc_wf [OF loader_gdt_flat] by (simp add: live_def sample_boot_def)
  then have "live (kernel_enter ?k0)" by simp
  then have wf: "ipc_wf ?k1" using interrupts_live [OF i(1)] by (simp add: live_def)
  have "sys_printx 0 (process_ready ?k1) ?k1 undefined = Inr (Printed undefined)"
    using i f len vir_to_linear_flat [OF wf, of 0 0] by (simp add: sys_printx_def Let_def)
  then have "kstep ?k0 ?k2"
    using kstep.printx [of ?k0 ?k1 0 undefined undefined ?k1 "return_value 0 0 ?k1"] i by (simp add: interrupts.none)
  then have r: "reachable (\<lambda>_. 0x50000) loader_gdt ?k2"
    using reachable.step [OF reachable.start] by (auto simp: sample_boot_def)
  have "p_ticks (proc sample_boot 0) = 15" by (simp add: sample_boot_def boot_process_fields)
  then have "\<not> slice_left ?k2"
    using f len by (simp add: slice_left_def return_value_def proc_upd_proc)
  then show ?thesis using reachable_kernel_inv [OF r loader_gdt_flat] r by blast
qed

end
