(* ===== verification/Keyboard.thy ===== *)
theory Keyboard
  imports Console
begin

text \<open>
  The keyboard driver of \<open>kernel/interrupt.c\<close> with the key table of \<open>kernel/global.c\<close>, and
  the loop of the console task. The interrupt handler puts scan codes into \<open>kb_in\<close>; the
  console task takes them out, keeps track of the shift, control, alt and lock keys and
  hands each pressed key to its console.

  \<open>data_port\<close> and \<open>status_port\<close> are the values that reading the ports 0x60 and 0x64 will give
  from now on; a loop that waits for the keyboard reads on in them, and the result \<open>None\<close>
  says that they end before the wait does. \<open>sent\<close> is what has been written to port 0x60.
\<close>

section \<open>State\<close>

abbreviation (input) KB_IN_BUF_LENGTH :: nat where "KB_IN_BUF_LENGTH \<equiv> 32"
abbreviation (input) MAP_COLS :: nat where "MAP_COLS \<equiv> 3"
abbreviation (input) KB_ACK :: u8 where "KB_ACK \<equiv> 0xfa"
abbreviation (input) LED_CODE :: u8 where "LED_CODE \<equiv> 0xed"

record keyboard =
  kb_in :: "u8 ring"
  num_lock :: bool
  caps_lock :: bool
  scroll_lock :: bool
  code_e0 :: bool
  l_shift :: bool
  r_shift :: bool
  l_alt :: bool
  r_alt :: bool
  l_ctrl :: bool
  r_ctrl :: bool
  data_port :: "u8 list"
  status_port :: "u8 list"
  sent :: "u8 list"

section \<open>The keys\<close>

abbreviation (input) FLAG_ALT_L :: u32 where "FLAG_ALT_L \<equiv> 0x2000"
abbreviation (input) FLAG_ALT_R :: u32 where "FLAG_ALT_R \<equiv> 0x4000"
abbreviation (input) FLAG_PAD :: u32 where "FLAG_PAD \<equiv> 0x8000"

abbreviation (input) ESC :: u32 where "ESC \<equiv> 0x101"
abbreviation (input) TAB :: u32 where "TAB \<equiv> 0x102"
abbreviation (input) GUI_L :: u32 where "GUI_L \<equiv> 0x105"
abbreviation (input) GUI_R :: u32 where "GUI_R \<equiv> 0x106"
abbreviation (input) APPS :: u32 where "APPS \<equiv> 0x107"
abbreviation (input) SHIFT_L :: u32 where "SHIFT_L \<equiv> 0x108"
abbreviation (input) SHIFT_R :: u32 where "SHIFT_R \<equiv> 0x109"
abbreviation (input) CTRL_L :: u32 where "CTRL_L \<equiv> 0x10a"
abbreviation (input) CTRL_R :: u32 where "CTRL_R \<equiv> 0x10b"
abbreviation (input) ALT_L :: u32 where "ALT_L \<equiv> 0x10c"
abbreviation (input) ALT_R :: u32 where "ALT_R \<equiv> 0x10d"
abbreviation (input) CAPS_LOCK :: u32 where "CAPS_LOCK \<equiv> 0x10e"
abbreviation (input) NUM_LOCK :: u32 where "NUM_LOCK \<equiv> 0x10f"
abbreviation (input) SCROLL_LOCK :: u32 where "SCROLL_LOCK \<equiv> 0x110"
abbreviation (input) F2 :: u32 where "F2 \<equiv> 0x112"
abbreviation (input) F3 :: u32 where "F3 \<equiv> 0x113"
abbreviation (input) F4 :: u32 where "F4 \<equiv> 0x114"
abbreviation (input) F5 :: u32 where "F5 \<equiv> 0x115"
abbreviation (input) F6 :: u32 where "F6 \<equiv> 0x116"
abbreviation (input) F7 :: u32 where "F7 \<equiv> 0x117"
abbreviation (input) F8 :: u32 where "F8 \<equiv> 0x118"
abbreviation (input) F9 :: u32 where "F9 \<equiv> 0x119"
abbreviation (input) F10 :: u32 where "F10 \<equiv> 0x11a"
abbreviation (input) F11 :: u32 where "F11 \<equiv> 0x11b"
abbreviation (input) F12 :: u32 where "F12 \<equiv> 0x11c"
abbreviation (input) PRINTSCREEN :: u32 where "PRINTSCREEN \<equiv> 0x11d"
abbreviation (input) PAUSEBREAK :: u32 where "PAUSEBREAK \<equiv> 0x11e"
abbreviation (input) INSERT :: u32 where "INSERT \<equiv> 0x11f"
abbreviation (input) DELETE :: u32 where "DELETE \<equiv> 0x120"
abbreviation (input) HOME :: u32 where "HOME \<equiv> 0x121"
abbreviation (input) END :: u32 where "END \<equiv> 0x122"
abbreviation (input) PAGEUP :: u32 where "PAGEUP \<equiv> 0x123"
abbreviation (input) PAGEDOWN :: u32 where "PAGEDOWN \<equiv> 0x124"
abbreviation (input) LEFT :: u32 where "LEFT \<equiv> 0x127"
abbreviation (input) RIGHT :: u32 where "RIGHT \<equiv> 0x128"
abbreviation (input) POWER :: u32 where "POWER \<equiv> 0x129"
abbreviation (input) SLEEP :: u32 where "SLEEP \<equiv> 0x12a"
abbreviation (input) WAKE :: u32 where "WAKE \<equiv> 0x12b"
abbreviation (input) PAD_SLASH :: u32 where "PAD_SLASH \<equiv> 0x12c"
abbreviation (input) PAD_STAR :: u32 where "PAD_STAR \<equiv> 0x12d"
abbreviation (input) PAD_MINUS :: u32 where "PAD_MINUS \<equiv> 0x12e"
abbreviation (input) PAD_PLUS :: u32 where "PAD_PLUS \<equiv> 0x12f"
abbreviation (input) PAD_ENTER :: u32 where "PAD_ENTER \<equiv> 0x130"
abbreviation (input) PAD_DOT :: u32 where "PAD_DOT \<equiv> 0x131"
abbreviation (input) PAD_0 :: u32 where "PAD_0 \<equiv> 0x132"
abbreviation (input) PAD_1 :: u32 where "PAD_1 \<equiv> 0x133"
abbreviation (input) PAD_2 :: u32 where "PAD_2 \<equiv> 0x134"
abbreviation (input) PAD_3 :: u32 where "PAD_3 \<equiv> 0x135"
abbreviation (input) PAD_4 :: u32 where "PAD_4 \<equiv> 0x136"
abbreviation (input) PAD_5 :: u32 where "PAD_5 \<equiv> 0x137"
abbreviation (input) PAD_6 :: u32 where "PAD_6 \<equiv> 0x138"
abbreviation (input) PAD_7 :: u32 where "PAD_7 \<equiv> 0x139"
abbreviation (input) PAD_8 :: u32 where "PAD_8 \<equiv> 0x13a"
abbreviation (input) PAD_9 :: u32 where "PAD_9 \<equiv> 0x13b"
abbreviation (input) PAD_UP :: u32 where "PAD_UP \<equiv> PAD_8"
abbreviation (input) PAD_DOWN :: u32 where "PAD_DOWN \<equiv> PAD_2"
abbreviation (input) PAD_LEFT :: u32 where "PAD_LEFT \<equiv> PAD_4"
abbreviation (input) PAD_RIGHT :: u32 where "PAD_RIGHT \<equiv> PAD_6"
abbreviation (input) PAD_HOME :: u32 where "PAD_HOME \<equiv> PAD_7"
abbreviation (input) PAD_END :: u32 where "PAD_END \<equiv> PAD_1"
abbreviation (input) PAD_PAGEUP :: u32 where "PAD_PAGEUP \<equiv> PAD_9"
abbreviation (input) PAD_PAGEDOWN :: u32 where "PAD_PAGEDOWN \<equiv> PAD_3"
abbreviation (input) PAD_INS :: u32 where "PAD_INS \<equiv> PAD_0"
abbreviation (input) PAD_MID :: u32 where "PAD_MID \<equiv> PAD_5"
abbreviation (input) PAD_DEL :: u32 where "PAD_DEL \<equiv> PAD_DOT"

text \<open>Three keys for each scan code: plain, with shift, and after the prefix 0xE0.\<close>

definition key_map :: "u32 list" where
  "key_map = [
   0, 0, 0,  ESC, ESC, 0,
   0x31, 0x21, 0,  0x32, 0x40, 0,
   0x33, 0x23, 0,  0x34, 0x24, 0,
   0x35, 0x25, 0,  0x36, 0x5e, 0,
   0x37, 0x26, 0,  0x38, 0x2a, 0,
   0x39, 0x28, 0,  0x30, 0x29, 0,
   0x2d, 0x5f, 0,  0x3d, 0x2b, 0,
   BACKSPACE, BACKSPACE, 0,  TAB, TAB, 0,
   0x71, 0x51, 0,  0x77, 0x57, 0,
   0x65, 0x45, 0,  0x72, 0x52, 0,
   0x74, 0x54, 0,  0x79, 0x59, 0,
   0x75, 0x55, 0,  0x69, 0x49, 0,
   0x6f, 0x4f, 0,  0x70, 0x50, 0,
   0x5b, 0x7b, 0,  0x5d, 0x7d, 0,
   ENTER, ENTER, PAD_ENTER,  CTRL_L, CTRL_L, CTRL_R,
   0x61, 0x41, 0,  0x73, 0x53, 0,
   0x64, 0x44, 0,  0x66, 0x46, 0,
   0x67, 0x47, 0,  0x68, 0x48, 0,
   0x6a, 0x4a, 0,  0x6b, 0x4b, 0,
   0x6c, 0x4c, 0,  0x3b, 0x3a, 0,
   0x27, 0x22, 0,  0x60, 0x7e, 0,
   SHIFT_L, SHIFT_L, 0,  0x5c, 0x7c, 0,
   0x7a, 0x5a, 0,  0x78, 0x58, 0,
   0x63, 0x43, 0,  0x76, 0x56, 0,
   0x62, 0x42, 0,  0x6e, 0x4e, 0,
   0x6d, 0x4d, 0,  0x2c, 0x3c, 0,
   0x2e, 0x3e, 0,  0x2f, 0x3f, PAD_SLASH,
   SHIFT_R, SHIFT_R, 0,  0x2a, 0x2a, 0,
   ALT_L, ALT_L, ALT_R,  0x20, 0x20, 0,
   CAPS_LOCK, CAPS_LOCK, 0,  F1, F1, 0,
   F2, F2, 0,  F3, F3, 0,
   F4, F4, 0,  F5, F5, 0,
   F6, F6, 0,  F7, F7, 0,
   F8, F8, 0,  F9, F9, 0,
   F10, F10, 0,  NUM_LOCK, NUM_LOCK, 0,
   SCROLL_LOCK, SCROLL_LOCK, 0,  PAD_HOME, 0x37, HOME,
   PAD_UP, 0x38, UP,  PAD_PAGEUP, 0x39, PAGEUP,
   PAD_MINUS, 0x2d, 0,  PAD_LEFT, 0x34, LEFT,
   PAD_MID, 0x35, 0,  PAD_RIGHT, 0x36, RIGHT,
   PAD_PLUS, 0x2b, 0,  PAD_END, 0x31, END,
   PAD_DOWN, 0x32, DOWN,  PAD_PAGEDOWN, 0x33, PAGEDOWN,
   PAD_INS, 0x30, INSERT,  PAD_DOT, 0x2e, DELETE,
   0, 0, 0,  0, 0, 0,
   0, 0, 0,  F11, F11, 0,
   F12, F12, 0,  0, 0, 0,
   0, 0, 0,  0, 0, GUI_L,
   0, 0, GUI_R,  0, 0, APPS,
   0, 0, 0,  0, 0, 0,
   0, 0, 0,  0, 0, 0,
   0, 0, 0,  0, 0, 0,
   0, 0, 0,  0, 0, 0,
   0, 0, 0,  0, 0, 0,
   0, 0, 0,  0, 0, 0,
   0, 0, 0,  0, 0, 0,
   0, 0, 0,  0, 0, 0,
   0, 0, 0,  0, 0, 0,
   0, 0, 0,  0, 0, 0,
   0, 0, 0,  0, 0, 0,
   0, 0, 0,  0, 0, 0,
   0, 0, 0,  0, 0, 0,
   0, 0, 0,  0, 0, 0,
   0, 0, 0,  0, 0, 0,
   0, 0, 0,  0, 0, 0,
   0, 0, 0,  0, 0, 0]"


section \<open>The lamps\<close>

fun read_until :: "(u8 \<Rightarrow> bool) \<Rightarrow> u8 list \<Rightarrow> u8 list option" where
  "read_until P [] = None"
| "read_until P (x # xs) = (if P x then Some xs else read_until P xs)"

definition kb_wait :: "keyboard \<Rightarrow> keyboard option" where
  "kb_wait kb = map_option (\<lambda>xs. kb\<lparr>status_port := xs\<rparr>) (read_until (\<lambda>s. s AND 2 = 0) (status_port kb))"

definition kb_ack :: "keyboard \<Rightarrow> keyboard option" where
  "kb_ack kb = map_option (\<lambda>xs. kb\<lparr>data_port := xs\<rparr>) (read_until (\<lambda>x. x = KB_ACK) (data_port kb))"

definition send_byte :: "u8 \<Rightarrow> keyboard \<Rightarrow> keyboard option" where
  "send_byte b kb =
     Option.bind (kb_wait kb) (\<lambda>kb. kb_ack (kb\<lparr>sent := sent kb @ [b]\<rparr>))"

definition led_byte :: "keyboard \<Rightarrow> u8" where
  "led_byte kb = push_bit 2 (of_bool (caps_lock kb)) OR push_bit 1 (of_bool (num_lock kb)) OR
     of_bool (scroll_lock kb)"

definition set_kb_led :: "keyboard \<Rightarrow> keyboard option" where
  "set_kb_led kb = Option.bind (send_byte LED_CODE kb) (send_byte (led_byte kb))"

definition init_keyboard :: "keyboard \<Rightarrow> keyboard option" where
  "init_keyboard kb =
     set_kb_led (kb\<lparr>kb_in := (kb_in kb)\<lparr>ring_count := 0, ring_head := 0, ring_tail := 0\<rparr>,
       num_lock := True, caps_lock := False, scroll_lock := False\<rparr>)"

section \<open>The scan codes\<close>

definition kb_push :: "u8 \<Rightarrow> u8 ring \<Rightarrow> u8 ring" where
  "kb_push scan_code r =
     (if ring_count r < KB_IN_BUF_LENGTH then ring_push KB_IN_BUF_LENGTH scan_code r else r)"

definition keyboard_int_handler :: "u8 \<Rightarrow> keyboard \<Rightarrow> keyboard" where
  "keyboard_int_handler scan_code kb = kb\<lparr>kb_in := kb_push scan_code (kb_in kb)\<rparr>"

text \<open>\<open>while (!kb_in.count)\<close>: the interrupt handler runs for each byte that arrives.\<close>

fun wait_keystroke :: "u8 list \<Rightarrow> u8 ring \<Rightarrow> (u8 list \<times> u8 ring) option" where
  "wait_keystroke [] r = (if ring_count r = 0 then None else Some ([], r))"
| "wait_keystroke (x # xs) r =
     (if ring_count r = 0 then wait_keystroke xs (kb_push x r) else Some (x # xs, r))"

definition get_byte_from_kb_buf :: "keyboard \<Rightarrow> (u8 \<times> keyboard) option" where
  "get_byte_from_kb_buf kb =
     map_option (\<lambda>(xs, r). (fst (ring_pop KB_IN_BUF_LENGTH r),
         kb\<lparr>data_port := xs, kb_in := snd (ring_pop KB_IN_BUF_LENGTH r)\<rparr>))
       (wait_keystroke (data_port kb) (kb_in kb))"

text \<open>Reads codes as long as they are the given ones.\<close>

fun match_codes :: "u8 list \<Rightarrow> keyboard \<Rightarrow> (bool \<times> keyboard) option" where
  "match_codes [] kb = Some (True, kb)"
| "match_codes (c # cs) kb =
     Option.bind (get_byte_from_kb_buf kb)
       (\<lambda>(x, kb). if x = c then match_codes cs kb else Some (False, kb))"

text \<open>The special codes: the key (0 if there is none yet), whether it goes down, the scan code.\<close>

definition read_scan_code :: "keyboard \<Rightarrow> ((u32 \<times> bool \<times> u8) \<times> keyboard) option" where
  "read_scan_code kb0 =
     Option.bind (get_byte_from_kb_buf (kb0\<lparr>code_e0 := False\<rparr>)) (\<lambda>(scan_code, kb).
       if scan_code = 0xe1 then
         map_option (\<lambda>(pause, kb). ((if pause then PAUSEBREAK else 0, False, scan_code), kb))
           (match_codes [0x1d, 0x45, 0xe1, 0x9d, 0xc5] kb)
       else if scan_code = 0xe0 then
         Option.bind (get_byte_from_kb_buf kb) (\<lambda>(scan_code, kb).
         Option.bind (if scan_code = 0x2a then match_codes [0xe0, 0x37] kb else Some (False, kb))
           (\<lambda>(press, kb).
         Option.bind (if scan_code = 0xb7 then match_codes [0xe0, 0xaa] kb else Some (False, kb))
           (\<lambda>(release, kb).
         let key = (if press \<or> release then PRINTSCREEN else 0) in
         Some ((key, press \<and> \<not> release, scan_code), if key = 0 then kb\<lparr>code_e0 := True\<rparr> else kb))))
       else Some ((0, False, scan_code), kb))"

section \<open>Decoding\<close>

definition key_of :: "u8 \<Rightarrow> keyboard \<Rightarrow> u32" where
  "key_of scan_code kb =
     (let row = unat (scan_code AND 0x7f) * MAP_COLS;
          shift = (l_shift kb \<or> r_shift kb);
          caps = (if caps_lock kb \<and> 0x61 \<le> key_map ! row \<and> key_map ! row \<le> 0x7a
                  then \<not> shift else shift);
          col = (if code_e0 kb then 2 else if caps then 1 else 0)
      in key_map ! (row + col))"

definition note_key :: "u32 \<Rightarrow> bool \<Rightarrow> keyboard \<Rightarrow> keyboard option" where
  "note_key key is_make kb =
     (if key = SHIFT_L then Some (kb\<lparr>l_shift := is_make\<rparr>)
      else if key = SHIFT_R then Some (kb\<lparr>r_shift := is_make\<rparr>)
      else if key = CTRL_L then Some (kb\<lparr>l_ctrl := is_make\<rparr>)
      else if key = CTRL_R then Some (kb\<lparr>r_ctrl := is_make\<rparr>)
      else if key = ALT_L then Some (kb\<lparr>l_alt := is_make\<rparr>)
      else if key = ALT_R then Some (kb\<lparr>r_alt := is_make\<rparr>)
      else if key = NUM_LOCK then
        (if is_make then set_kb_led (kb\<lparr>num_lock := \<not> num_lock kb\<rparr>) else Some kb)
      else if key = CAPS_LOCK then
        (if is_make then set_kb_led (kb\<lparr>caps_lock := \<not> caps_lock kb\<rparr>) else Some kb)
      else if key = SCROLL_LOCK then
        (if is_make then set_kb_led (kb\<lparr>scroll_lock := \<not> scroll_lock kb\<rparr>) else Some kb)
      else Some kb)"

text \<open>The keys of the number pad.\<close>

definition pad_key :: "bool \<Rightarrow> u32 \<Rightarrow> u32" where
  "pad_key num key =
     (if key = PAD_SLASH then 0x2f
      else if key = PAD_STAR then 0x2a
      else if key = PAD_MINUS then 0x2d
      else if key = PAD_PLUS then 0x2b
      else if key = PAD_ENTER then ENTER
      else if num then
        (if PAD_0 \<le> key \<and> key \<le> PAD_9 then key - PAD_0 + 0x30
         else if key = PAD_DOT then 0x2e
         else key)
      else if key = PAD_HOME then HOME
      else if key = PAD_END then END
      else if key = PAD_PAGEUP then PAGEUP
      else if key = PAD_PAGEDOWN then PAGEDOWN
      else if key = PAD_INS then INSERT
      else if key = PAD_UP then UP
      else if key = PAD_DOWN then DOWN
      else if key = PAD_LEFT then LEFT
      else if key = PAD_RIGHT then RIGHT
      else if key = PAD_DOT then DELETE
      else key)"

definition with_flags :: "keyboard \<Rightarrow> bool \<Rightarrow> u32 \<Rightarrow> u32" where
  "with_flags kb pad key =
     key OR (if l_shift kb then FLAG_SHIFT_L else 0) OR (if r_shift kb then FLAG_SHIFT_R else 0)
         OR (if l_ctrl kb then FLAG_CTRL_L else 0) OR (if r_ctrl kb then FLAG_CTRL_R else 0)
         OR (if l_alt kb then FLAG_ALT_L else 0) OR (if r_alt kb then FLAG_ALT_R else 0)
         OR (if pad then FLAG_PAD else 0)"

definition key_value :: "keyboard \<Rightarrow> u32 \<Rightarrow> u32" where
  "key_value kb key =
     (if PAD_SLASH \<le> key \<and> key \<le> PAD_9 then with_flags kb True (pad_key (num_lock kb) key)
      else with_flags kb False key)"

definition read_keyboard :: "nat \<Rightarrow> keyboard \<times> display \<Rightarrow> (keyboard \<times> display) option" where
  "read_keyboard i s =
     (case s of (kb, d) \<Rightarrow>
       if ring_count (kb_in kb) = 0 then Some (kb, d)
       else
         Option.bind (read_scan_code kb) (\<lambda>((key, _, scan_code), kb).
           if key \<noteq> 0 then Some (kb, d)
           else
             (let is_make = (scan_code AND FLAG_BREAK = 0);
                  key = key_of scan_code kb
              in map_option (\<lambda>kb.
                   (kb, if is_make then store_key_into_console i (key_value kb key) d else d))
                 (note_key key is_make kb))))"

section \<open>The console task\<close>

definition console_task_turn :: "nat \<Rightarrow> keyboard \<times> display \<Rightarrow> (keyboard \<times> display) option" where
  "console_task_turn i s =
     Option.bind (if i = current_console (snd s) then read_keyboard i s else Some s)
       (\<lambda>(kb, d). map_option (\<lambda>d. (kb, d)) (console_write_key i d))"

definition console_task_round :: "keyboard \<times> display \<Rightarrow> (keyboard \<times> display) option" where
  "console_task_round s =
     Option.bind (console_task_turn 0 s) (\<lambda>s. Option.bind (console_task_turn 1 s) (console_task_turn 2))"

definition console_task_start :: "keyboard \<times> display \<Rightarrow> (keyboard \<times> display) option" where
  "console_task_start s =
     Option.bind (init_keyboard (fst s)) (\<lambda>kb.
     Option.bind (init_consoles (snd s)) (\<lambda>d. Some (kb, change_current_console 0 d)))"

fun console_task_rounds :: "nat \<Rightarrow> keyboard \<times> display \<Rightarrow> (keyboard \<times> display) option" where
  "console_task_rounds 0 s = Some s"
| "console_task_rounds (Suc n) s = Option.bind (console_task_round s) (console_task_rounds n)"

section \<open>The buffer of scan codes\<close>

definition codes :: "keyboard \<Rightarrow> u8 list" where
  "codes kb = ring_contents KB_IN_BUF_LENGTH (kb_in kb)"

definition kb_wf :: "keyboard \<Rightarrow> bool" where
  "kb_wf kb \<longleftrightarrow> ring_inv KB_IN_BUF_LENGTH (kb_in kb)"

interpretation kb_codes: bounded_queue "\<lambda>r. ring_count r = 0" kb_push "ring_pop KB_IN_BUF_LENGTH"
  "ring_contents KB_IN_BUF_LENGTH" "ring_inv KB_IN_BUF_LENGTH" KB_IN_BUF_LENGTH
proof unfold_locales
  fix r :: "u8 ring" and x :: u8
  assume inv: "ring_inv KB_IN_BUF_LENGTH r"
  show "ring_count r = 0 \<longleftrightarrow> ring_contents KB_IN_BUF_LENGTH r = []"
    using length_ring_contents [of KB_IN_BUF_LENGTH r] by (auto simp flip: length_0_conv)
  show "ring_inv KB_IN_BUF_LENGTH (kb_push x r)"
    using inv ring_push_contents(1) [OF inv] by (simp add: kb_push_def)
  show "ring_contents KB_IN_BUF_LENGTH (kb_push x r) =
      (if length (ring_contents KB_IN_BUF_LENGTH r) < KB_IN_BUF_LENGTH
       then ring_contents KB_IN_BUF_LENGTH r @ [x] else ring_contents KB_IN_BUF_LENGTH r)"
    using ring_push_contents(2) [OF inv] by (simp add: kb_push_def)
  show "length (ring_contents KB_IN_BUF_LENGTH r) \<le> KB_IN_BUF_LENGTH"
    using inv by (simp add: ring_inv_def)
  assume "ring_contents KB_IN_BUF_LENGTH r \<noteq> []"
  then have pos: "0 < ring_count r"
    using length_ring_contents [of KB_IN_BUF_LENGTH r] by (metis length_greater_0_conv)
  show "ring_inv KB_IN_BUF_LENGTH (snd (ring_pop KB_IN_BUF_LENGTH r))"
    by (rule ring_pop_contents(1) [OF inv pos])
  show "ring_contents KB_IN_BUF_LENGTH r =
      fst (ring_pop KB_IN_BUF_LENGTH r) # ring_contents KB_IN_BUF_LENGTH (snd (ring_pop KB_IN_BUF_LENGTH r))"
    by (rule ring_pop_contents(2) [OF inv pos])
qed

lemma keyboard_interrupts:
  "fold keyboard_int_handler ss kb = kb\<lparr>kb_in := fold kb_push ss (kb_in kb)\<rparr>"
  by (induction ss arbitrary: kb) (simp_all add: keyboard_int_handler_def)

lemma keyboard_interrupts_codes:
  assumes "kb_wf kb"
  shows "kb_wf (fold keyboard_int_handler ss kb)"
    and "codes (fold keyboard_int_handler ss kb) = codes kb @ take (32 - length (codes kb)) ss"
  using kb_codes.put_all_inv kb_codes.put_all_contents assms
  by (simp_all add: keyboard_interrupts kb_wf_def codes_def del: length_ring_contents)

text \<open>What taking codes out changes, once \<open>n\<close> of them have been taken.\<close>

definition taken :: "nat \<Rightarrow> keyboard \<Rightarrow> keyboard \<Rightarrow> bool" where
  "taken n kb kb' \<longleftrightarrow> (\<exists>r. kb' = kb\<lparr>kb_in := r\<rparr>) \<and> kb_wf kb' \<and> codes kb' = drop n (codes kb)"

lemma taken_0: "kb_wf kb \<Longrightarrow> taken 0 kb kb"
  unfolding taken_def by (simp add: exI [of _ "kb_in kb"])

lemma taken_trans: "taken n kb kb1 \<Longrightarrow> taken m kb1 kb2 \<Longrightarrow> taken (n + m) kb kb2"
  by (auto simp: taken_def ac_simps)

lemma get_byte_ready:
  assumes "kb_wf kb" and "codes kb = x # xs"
  shows "\<exists>kb'. get_byte_from_kb_buf kb = Some (x, kb') \<and> taken 1 kb kb'"
proof -
  let ?r = "snd (ring_pop KB_IN_BUF_LENGTH (kb_in kb))"
  have g: "fst (ring_pop KB_IN_BUF_LENGTH (kb_in kb)) = x" "ring_contents KB_IN_BUF_LENGTH ?r = xs"
      "ring_inv KB_IN_BUF_LENGTH ?r"
    using kb_codes.get_oldest [of "kb_in kb" x xs] kb_codes.get_inv [of "kb_in kb"] assms
    by (simp_all add: codes_def kb_wf_def)
  have "ring_count (kb_in kb) \<noteq> 0"
    using assms kb_codes.empty_contents [of "kb_in kb"] by (simp add: codes_def kb_wf_def)
  then have "wait_keystroke (data_port kb) (kb_in kb) = Some (data_port kb, kb_in kb)"
    by (cases "data_port kb") simp_all
  then have "get_byte_from_kb_buf kb = Some (x, kb\<lparr>kb_in := ?r\<rparr>)"
    using g(1) by (simp add: get_byte_from_kb_buf_def)
  moreover have "taken 1 kb (kb\<lparr>kb_in := ?r\<rparr>)"
    unfolding taken_def using g(2,3) assms(2) by (auto simp: kb_wf_def codes_def)
  ultimately show ?thesis by blast
qed

lemma match_codes_returns:
  "kb_wf kb \<Longrightarrow> length cs \<le> length (codes kb) \<Longrightarrow>
   \<exists>b n kb'. match_codes cs kb = Some (b, kb') \<and> n \<le> length cs \<and> taken n kb kb'"
proof (induction cs arbitrary: kb)
  case Nil
  then show ?case using taken_0 by auto
next
  case (Cons c cs)
  obtain x xs where x: "codes kb = x # xs" using Cons.prems(2) by (cases "codes kb") auto
  obtain kb1 where kb1: "get_byte_from_kb_buf kb = Some (x, kb1)" "taken 1 kb kb1"
    using get_byte_ready [OF Cons.prems(1) x] by blast
  have k: "kb_wf kb1" "length cs \<le> length (codes kb1)"
    using kb1(2) x Cons.prems(2) by (auto simp: taken_def)
  obtain b n kb' where *: "match_codes cs kb1 = Some (b, kb')" "n \<le> length cs" "taken n kb1 kb'"
    using Cons.IH [OF k] by blast
  show ?case
  proof (cases "x = c")
    case True
    then show ?thesis
      using kb1 * taken_trans [OF kb1(2) *(3)] by (intro exI [of _ b] exI [of _ "1 + n"] exI [of _ kb']) simp
  next
    case False
    then show ?thesis
      using kb1 by (intro exI [of _ False] exI [of _ 1] exI [of _ kb1]) simp
  qed
qed

lemma read_scan_code_simple:
  assumes "kb_wf kb" and "codes kb = x # xs" and "x \<noteq> 0xe0" and "x \<noteq> 0xe1"
  shows "\<exists>kb'. read_scan_code kb = Some ((0, False, x), kb') \<and> taken 1 (kb\<lparr>code_e0 := False\<rparr>) kb'"
proof -
  have "kb_wf (kb\<lparr>code_e0 := False\<rparr>)" "codes (kb\<lparr>code_e0 := False\<rparr>) = x # xs"
    using assms(1,2) by (simp_all add: kb_wf_def codes_def)
  from get_byte_ready [OF this] show ?thesis
    using assms(3,4) by (auto simp: read_scan_code_def)
qed

lemma match_or_not_returns:
  assumes "kb_wf kb" and "length cs \<le> length (codes kb)"
  obtains b n kb' where "(if p then match_codes cs kb else Some (False, kb)) = Some (b, kb')"
    "n \<le> length cs" "taken n kb kb'" "\<not> p \<Longrightarrow> n = 0"
proof (cases p)
  case True
  then show thesis using that match_codes_returns [OF assms] by auto
next
  case False
  then show thesis using that [of False kb 0] taken_0 [OF assms(1)] by simp
qed

lemma taken_wf: "taken n kb kb' \<Longrightarrow> kb_wf kb'" and
  taken_codes: "taken n kb kb' \<Longrightarrow> codes kb' = drop n (codes kb)"
  by (auto simp: taken_def)

lemma taken_same:
  assumes "taken n kb kb'"
  shows "data_port kb' = data_port kb" "status_port kb' = status_port kb" "sent kb' = sent kb"
    "code_e0 kb' = code_e0 kb" "l_shift kb' = l_shift kb" "r_shift kb' = r_shift kb"
    "l_ctrl kb' = l_ctrl kb" "r_ctrl kb' = r_ctrl kb" "l_alt kb' = l_alt kb" "r_alt kb' = r_alt kb"
    "caps_lock kb' = caps_lock kb" "num_lock kb' = num_lock kb" "scroll_lock kb' = scroll_lock kb"
  using assms by (auto simp: taken_def)

lemma read_scan_code_returns:
  assumes "kb_wf kb" and "6 \<le> length (codes kb)"
  shows "\<exists>key m s kb' e n. read_scan_code kb = Some ((key, m, s), kb'\<lparr>code_e0 := e\<rparr>) \<and>
    taken n (kb\<lparr>code_e0 := False\<rparr>) kb' \<and> 1 \<le> n \<and> n \<le> 6"
proof -
  let ?kb = "kb\<lparr>code_e0 := False\<rparr>"
  have e: "kb'\<lparr>code_e0 := False\<rparr> = kb'" if "taken n ?kb kb'" for n kb'
    using that by (auto simp: taken_def)
  obtain x xs where x: "codes ?kb = x # xs" "kb_wf ?kb" "5 \<le> length xs"
    using assms by (cases "codes kb") (auto simp: kb_wf_def codes_def simp del: length_ring_contents)
  obtain kb1 where kb1: "get_byte_from_kb_buf ?kb = Some (x, kb1)" "taken 1 ?kb kb1"
    using get_byte_ready [OF x(2,1)] by blast
  have w1: "kb_wf kb1" "codes kb1 = xs" using kb1(2) x(1) by (auto simp: taken_def)
  consider "x = 0xe1" | "x = 0xe0" | "x \<noteq> 0xe0" "x \<noteq> 0xe1" by blast
  then show ?thesis
  proof cases
    case 1
    have "length [0x1d :: u8, 0x45, 0xe1, 0x9d, 0xc5] \<le> length (codes kb1)" using w1(2) x(3) by simp
    from match_codes_returns [OF w1(1) this]
    obtain b n kb' where p: "match_codes [0x1d, 0x45, 0xe1, 0x9d, 0xc5] kb1 = Some (b, kb')"
        "n \<le> length [0x1d :: u8, 0x45, 0xe1, 0x9d, 0xc5]" "taken n kb1 kb'" by blast
    have t: "taken (1 + n) ?kb kb'" by (rule taken_trans [OF kb1(2) p(3)])
    show ?thesis
      using kb1(1) p(1,2) 1 t e [OF t]
      by (intro exI [of _ "if b then PAUSEBREAK else 0"] exI [of _ False] exI [of _ x]
          exI [of _ kb'] exI [of _ False] exI [of _ "1 + n"]) (simp add: read_scan_code_def)
  next
    case 2
    obtain y ys where y: "codes kb1 = y # ys" "4 \<le> length ys" using w1(2) x(3) by (cases xs) auto
    obtain kb2 where kb2: "get_byte_from_kb_buf kb1 = Some (y, kb2)" "taken 1 kb1 kb2"
      using get_byte_ready [OF w1(1) y(1)] by blast
    have w2: "kb_wf kb2" "codes kb2 = ys" using kb2(2) y(1) by (auto simp: taken_def)
    obtain p n kb3 where p: "(if y = 0x2a then match_codes [0xe0, 0x37] kb2 else Some (False, kb2)) = Some (p, kb3)"
        "n \<le> length [0xe0 :: u8, 0x37]" "taken n kb2 kb3"
      by (rule match_or_not_returns [OF w2(1), of "[0xe0, 0x37]" "y = 0x2a"]) (use w2(2) y(2) in simp, blast)
    have w3: "kb_wf kb3" "2 \<le> length (codes kb3)"
      using p(2) taken_wf [OF p(3)] taken_codes [OF p(3)] w2(2) y(2) by simp_all
    obtain q m kb4 where q: "(if y = 0xb7 then match_codes [0xe0, 0xaa] kb3 else Some (False, kb3)) = Some (q, kb4)"
        "m \<le> length [0xe0 :: u8, 0xaa]" "taken m kb3 kb4"
      by (rule match_or_not_returns [OF w3(1), of "[0xe0, 0xaa]" "y = 0xb7"]) (use w3(2) in simp, blast)
    have t: "taken (1 + 1 + n + m) ?kb kb4"
      by (intro taken_trans [OF _ q(3)] taken_trans [OF _ p(3)] taken_trans [OF _ kb2(2)] kb1(2))
    show ?thesis
      using kb1(1) kb2(1) p(1,2) q(1,2) 2 t e [OF t]
      by (intro exI [of _ "if p \<or> q then PRINTSCREEN else 0"] exI [of _ "p \<and> \<not> q"] exI [of _ y]
          exI [of _ kb4] exI [of _ "\<not> (p \<or> q)"] exI [of _ "1 + 1 + n + m"])
        (simp add: read_scan_code_def)
  next
    case 3
    then obtain kb' where "read_scan_code kb = Some ((0, False, x), kb')" "taken 1 ?kb kb'"
      using read_scan_code_simple [of kb x xs] x(1,2) by (auto simp: kb_wf_def codes_def)
    then show ?thesis
      using e by (intro exI [of _ 0] exI [of _ False] exI [of _ x] exI [of _ kb'] exI [of _ False]
          exI [of _ 1]) auto
  qed
qed


section \<open>The lamps\<close>

text \<open>
  The keyboard takes two bytes: the status port shows room twice, and the data port gives two
  acknowledgements.
\<close>

definition leds_answer :: "keyboard \<Rightarrow> bool" where
  "leds_answer kb \<longleftrightarrow> 2 \<le> length (filter (\<lambda>s. s AND 2 = 0) (status_port kb)) \<and>
     2 \<le> length (filter (\<lambda>x. x = KB_ACK) (data_port kb))"

lemma read_until_returns:
  "Suc n \<le> length (filter P xs) \<Longrightarrow> \<exists>ys. read_until P xs = Some ys \<and> n \<le> length (filter P ys)"
  by (induction xs) auto

lemma send_byte_returns:
  assumes "Suc n \<le> length (filter (\<lambda>s. s AND 2 = 0) (status_port kb))"
    and "Suc m \<le> length (filter (\<lambda>x. x = KB_ACK) (data_port kb))"
  shows "\<exists>ss xs. send_byte b kb = Some (kb\<lparr>status_port := ss, data_port := xs, sent := sent kb @ [b]\<rparr>) \<and>
    n \<le> length (filter (\<lambda>s. s AND 2 = 0) ss) \<and> m \<le> length (filter (\<lambda>x. x = KB_ACK) xs)"
proof -
  obtain ss xs where *: "read_until (\<lambda>s. s AND 2 = 0) (status_port kb) = Some ss"
      "n \<le> length (filter (\<lambda>s. s AND 2 = 0) ss)"
      "read_until (\<lambda>x. x = KB_ACK) (data_port kb) = Some xs" "m \<le> length (filter (\<lambda>x. x = KB_ACK) xs)"
    using read_until_returns [OF assms(1)] read_until_returns [OF assms(2)] by blast
  have "send_byte b kb = Some (kb\<lparr>status_port := ss, data_port := xs, sent := sent kb @ [b]\<rparr>)"
    using *(1,3) by (simp add: send_byte_def kb_wait_def kb_ack_def)
  then show ?thesis using *(2,4) by blast
qed

lemma set_kb_led_returns:
  assumes "leds_answer kb"
  shows "\<exists>ss xs. set_kb_led kb =
    Some (kb\<lparr>status_port := ss, data_port := xs, sent := sent kb @ [LED_CODE, led_byte kb]\<rparr>)"
proof -
  obtain ss xs where *: "send_byte LED_CODE kb =
        Some (kb\<lparr>status_port := ss, data_port := xs, sent := sent kb @ [LED_CODE]\<rparr>)"
      "1 \<le> length (filter (\<lambda>s. s AND 2 = 0) ss)" "1 \<le> length (filter (\<lambda>x. x = KB_ACK) xs)"
    using send_byte_returns [of 1 kb 1 LED_CODE] assms by (auto simp: leds_answer_def)
  let ?kb = "kb\<lparr>status_port := ss, data_port := xs, sent := sent kb @ [LED_CODE]\<rparr>"
  have "led_byte ?kb = led_byte kb" by (simp add: led_byte_def)
  then show ?thesis
    using * send_byte_returns [of 0 ?kb 0 "led_byte kb"] by (auto simp: set_kb_led_def)
qed

lemma note_key_returns:
  assumes "leds_answer kb" and "kb_wf kb"
  shows "\<exists>kb'. note_key key m kb = Some kb' \<and> kb_wf kb' \<and> codes kb' = codes kb"
proof -
  have led: "\<exists>kb'. set_kb_led k = Some kb' \<and> kb_wf kb' \<and> codes kb' = codes kb"
    if "leds_answer k" "kb_in k = kb_in kb" for k
    using set_kb_led_returns [OF that(1)] that(2) assms(2) by (auto simp: kb_wf_def codes_def)
  have "leds_answer (kb\<lparr>num_lock := b\<rparr>)" "leds_answer (kb\<lparr>caps_lock := b\<rparr>)"
    "leds_answer (kb\<lparr>scroll_lock := b\<rparr>)" for b
    using assms(1) by (simp_all add: leds_answer_def)
  then show ?thesis
    using led assms(2) by (simp add: note_key_def kb_wf_def codes_def)
qed


section \<open>Reading a key\<close>

lemma codes_empty_iff: "kb_wf kb \<Longrightarrow> ring_count (kb_in kb) = 0 \<longleftrightarrow> codes kb = []"
  using kb_codes.empty_contents by (simp add: codes_def kb_wf_def)

lemma length_codes [simp]: "length (codes kb) = ring_count (kb_in kb)"
  by (simp add: codes_def)

lemma read_keyboard_result:
  assumes kb: "kb_wf kb" "leds_answer kb" "codes kb = [] \<or> 6 \<le> length (codes kb)"
    and d: "display_wf d" "i < CONSOLE_CNT"
  shows "\<exists>kb' d' n. read_keyboard i (kb, d) = Some (kb', d') \<and> kb_wf kb' \<and> display_wf d' \<and>
    (synced d \<longrightarrow> synced d') \<and> codes kb' = drop n (codes kb) \<and> n \<le> 6 \<and> (codes kb \<noteq> [] \<longrightarrow> 1 \<le> n)"
proof (cases "codes kb = []")
  case True
  then show ?thesis using kb(1) d codes_empty_iff [OF kb(1)] by (auto simp: read_keyboard_def)
next
  case False
  then have ne: "ring_count (kb_in kb) \<noteq> 0" using codes_empty_iff [OF kb(1)] by simp
  obtain key m s kb1 e n where r: "read_scan_code kb = Some ((key, m, s), kb1\<lparr>code_e0 := e\<rparr>)"
      "taken n (kb\<lparr>code_e0 := False\<rparr>) kb1" "1 \<le> n" "n \<le> 6"
    using read_scan_code_returns [OF kb(1)] kb(3) False by blast
  let ?kb = "kb1\<lparr>code_e0 := e\<rparr>"
  have k: "kb_wf ?kb" "codes ?kb = drop n (codes kb)" "leds_answer ?kb"
    using taken_wf [OF r(2)] taken_codes [OF r(2)] taken_same [OF r(2)] kb(2)
    by (simp_all add: kb_wf_def codes_def leds_answer_def)
  show ?thesis
  proof (cases "key = 0")
    case False
    then show ?thesis using r k ne d by (auto simp: read_keyboard_def)
  next
    case True
    obtain kb2 where kb2: "note_key (key_of s ?kb) (s AND FLAG_BREAK = 0) ?kb = Some kb2" "kb_wf kb2"
        "codes kb2 = codes ?kb"
      using note_key_returns [OF k(3,1)] by blast
    let ?d = "if s AND FLAG_BREAK = 0 then store_key_into_console i (key_value kb2 (key_of s ?kb)) d else d"
    have "display_wf ?d \<and> (synced d \<longrightarrow> synced ?d)"
      using store_key_into_console_wf [OF d] d by simp
    moreover have "read_keyboard i (kb, d) = Some (kb2, ?d)"
      using ne r(1) True kb2(1) by (simp add: read_keyboard_def)
    ultimately show ?thesis
      using kb2 k(2) r(3,4) by (intro exI [of _ kb2] exI [of _ ?d] exI [of _ n]) simp
  qed
qed

text \<open>An ordinary code: no prefix.\<close>

lemma read_keyboard_simple:
  assumes "kb_wf kb" and "codes kb = x # xs" and "x \<noteq> 0xe0" and "x \<noteq> 0xe1"
  shows "\<exists>kb1. taken 1 (kb\<lparr>code_e0 := False\<rparr>) kb1 \<and> read_keyboard i (kb, d) =
    map_option (\<lambda>kb'. (kb', if x AND FLAG_BREAK = 0
        then store_key_into_console i (key_value kb' (key_of x kb1)) d else d))
      (note_key (key_of x kb1) (x AND FLAG_BREAK = 0) kb1)"
proof -
  obtain kb1 where kb1: "read_scan_code kb = Some ((0, False, x), kb1)" "taken 1 (kb\<lparr>code_e0 := False\<rparr>) kb1"
    using read_scan_code_simple [OF assms] by blast
  moreover have "ring_count (kb_in kb) \<noteq> 0" using codes_empty_iff [OF assms(1)] assms(2) by simp
  ultimately show ?thesis
    by (intro exI [of _ kb1]) (simp add: read_keyboard_def Let_def)
qed


section \<open>The key table\<close>

lemma length_key_map [simp]: "length key_map = 384"
  by (simp add: key_map_def)

text \<open>An entry is nothing, a printing character or a special key.\<close>

definition key_entry :: "u32 \<Rightarrow> bool" where
  "key_entry k \<longleftrightarrow> k = 0 \<or> 0x20 \<le> k \<and> k < 0x7f \<or> 0x101 \<le> k \<and> k \<le> 0x13b"

lemma key_map_entries: "list_all key_entry key_map"
  by (simp add: key_map_def key_entry_def)

definition modifier_row :: "nat \<Rightarrow> u32 \<Rightarrow> bool" where
  "modifier_row n k \<longleftrightarrow> (k = SHIFT_L \<longleftrightarrow> n = 0x2a) \<and> (k = SHIFT_R \<longleftrightarrow> n = 0x36) \<and>
     (k = CTRL_L \<longleftrightarrow> n = 0x1d) \<and> (k = ALT_L \<longleftrightarrow> n = 0x38) \<and> k \<noteq> CTRL_R \<and> k \<noteq> ALT_R \<and>
     (k = NUM_LOCK \<longleftrightarrow> n = 0x45) \<and> (k = CAPS_LOCK \<longleftrightarrow> n = 0x3a) \<and> (k = SCROLL_LOCK \<longleftrightarrow> n = 0x46)"

fun rows_ok :: "nat \<Rightarrow> u32 list \<Rightarrow> bool" where
  "rows_ok n (a # b # c # ks) \<longleftrightarrow> modifier_row n a \<and> modifier_row n b \<and> rows_ok (n + 1) ks"
| "rows_ok n ks \<longleftrightarrow> True"

lemma rows_okD:
  "rows_ok n ks \<Longrightarrow> i * 3 + 2 < length ks \<Longrightarrow> modifier_row (n + i) (ks ! (i * 3)) \<and> modifier_row (n + i) (ks ! (i * 3 + 1))"
proof (induction n ks arbitrary: i rule: rows_ok.induct)
  case (1 n a b c ks)
  then show ?case by (cases i) auto
qed auto

lemma modifier_rows: "rows_ok 0 key_map"
  by (simp add: key_map_def modifier_row_def)


section \<open>Shift, control and alt\<close>

lemma code_split: "x = (x AND 0x80) OR (x AND 0x7f)" for x :: u8
proof -
  have "(x AND 0x80) OR (x AND 0x7f) = x AND (0x80 OR 0x7f)" by (simp only: bit.conj_disj_distrib)
  also have "(0x80 OR 0x7f :: u8) = -1" by simp
  finally show ?thesis by simp
qed

lemma code_break: "x AND 0x80 = 0 \<or> x AND 0x80 = 0x80" for x :: u8
proof -
  have b: "n = 7" if "bit (0x80 :: u8) n" for n
  proof -
    have "n < 8" using that bit_imp_le_length [of "0x80 :: u8" n] by simp
    then have "n \<in> {0, 1, 2, 3, 4, 5, 6, 7}" by auto
    then show ?thesis using that by auto
  qed
  show ?thesis
  proof (cases "bit x 7")
    case True
    then have "x AND 0x80 = 0x80" by (intro bit_word_eqI) (metis b bit_and_iff)
    then show ?thesis ..
  next
    case False
    then have "x AND 0x80 = 0" by (intro bit_word_eqI) (metis b bit_and_iff bit_0_eq bot_apply bot_bool_def)
    then show ?thesis ..
  qed
qed

lemma code_row: "unat (x AND 0x7f) < 128" for x :: u8
proof -
  have "x AND 0x7f = take_bit 7 x" by (simp add: take_bit_eq_mask mask_eq_exp_minus_1)
  then show ?thesis using take_bit_nat_less_exp [of 7 "unat x"] by (simp add: unsigned_take_bit_eq)
qed

text \<open>The make code and the break code of the key in row \<open>c\<close> of the table.\<close>

lemma code_of_row:
  fixes x c :: u8
  assumes "unat (x AND 0x7f) = unat c" and "c AND 0x80 = 0"
  shows "x AND 0x80 = 0 \<and> x = c \<or> x AND 0x80 = 0x80 \<and> x = 0x80 OR c"
proof -
  have "x AND 0x7f = c" using assms(1) by (simp add: word_unat_eq_iff)
  then show ?thesis using code_split [of x] code_break [of x] by auto
qed

lemma key_of_row:
  assumes "\<not> code_e0 kb"
  shows "modifier_row (unat (x AND 0x7f)) (key_of x kb)" and "key_of x kb \<in> set key_map"
proof -
  let ?n = "unat (x AND 0x7f)"
  have n: "?n < 128" by (rule code_row)
  then have "modifier_row (0 + ?n) (key_map ! (?n * 3)) \<and> modifier_row (0 + ?n) (key_map ! (?n * 3 + 1))"
    by (intro rows_okD [OF modifier_rows]) simp
  moreover have "key_of x kb \<in> {key_map ! (?n * 3), key_map ! (?n * 3 + 1)}"
    using assms by (simp add: key_of_def Let_def)
  moreover have "{key_map ! (?n * 3), key_map ! (?n * 3 + 1)} \<subseteq> set key_map"
    using n by simp
  ultimately show "modifier_row ?n (key_of x kb)" "key_of x kb \<in> set key_map" by auto
qed

text \<open>A key is held down if its last code was the make code.\<close>

definition held1 :: "u8 \<Rightarrow> u8 \<Rightarrow> bool \<Rightarrow> bool" where
  "held1 c x h = (if x = c then True else if x = 0x80 OR c then False else h)"

definition held :: "u8 \<Rightarrow> u8 list \<Rightarrow> bool \<Rightarrow> bool" where
  "held c xs h = fold (held1 c) xs h"

lemma held1_row:
  assumes "c AND 0x80 = 0"
  shows "held1 c x h = (if unat (x AND 0x7f) = unat c then x AND 0x80 = 0 else h)"
proof (cases "unat (x AND 0x7f) = unat c")
  case True
  moreover have "c \<noteq> 0x80 OR c"
  proof
    assume "c = 0x80 OR c"
    then have "c AND 0x80 = (0x80 OR c) AND 0x80" by simp
    then show False using assms by (simp add: bit.conj_disj_distrib2)
  qed
  ultimately show ?thesis using code_of_row [OF True assms] by (auto simp: held1_def)
next
  case False
  have "(0x80 OR c) AND 0x7f = c AND 0x7f" by (simp add: bit.conj_disj_distrib2)
  moreover have "c AND 0x7f = c" using code_split [of c] assms by simp
  ultimately show ?thesis using False by (auto simp: held1_def)
qed

text \<open>The codes that have no prefix and switch no lamp.\<close>

definition simple_code :: "u8 \<Rightarrow> bool" where
  "simple_code x \<longleftrightarrow> x \<notin> {0xe0, 0xe1, 0x45, 0x3a, 0x46}"

lemma note_key_simple:
  assumes "modifier_row (unat (x AND 0x7f)) key" and "simple_code x"
  shows "\<exists>kb'. note_key key (x AND 0x80 = 0) kb = Some kb' \<and>
    (\<exists>ls rs lc la. kb' = kb\<lparr>l_shift := ls, r_shift := rs, l_ctrl := lc, l_alt := la\<rparr>) \<and>
    l_shift kb' = held1 0x2a x (l_shift kb) \<and> r_shift kb' = held1 0x36 x (r_shift kb) \<and>
    l_ctrl kb' = held1 0x1d x (l_ctrl kb) \<and> l_alt kb' = held1 0x38 x (l_alt kb)"
proof -
  let ?n = "unat (x AND 0x7f)"
  have lock: "x AND 0x80 \<noteq> 0" if "?n = 0x45 \<or> ?n = 0x3a \<or> ?n = 0x46"
    using that assms(2) code_of_row [of x "0x45"] code_of_row [of x "0x3a"] code_of_row [of x "0x46"]
    by (auto simp: simple_code_def)
  have h: "held1 0x2a x h = (if ?n = 0x2a then x AND 0x80 = 0 else h)"
    "held1 0x36 x h = (if ?n = 0x36 then x AND 0x80 = 0 else h)"
    "held1 0x1d x h = (if ?n = 0x1d then x AND 0x80 = 0 else h)"
    "held1 0x38 x h = (if ?n = 0x38 then x AND 0x80 = 0 else h)" for h
    by (simp_all add: held1_row)
  show ?thesis
    using assms(1) lock unfolding modifier_row_def note_key_def h
    by (cases kb) auto
qed


lemma read_keyboard_simple_code:
  assumes "kb_wf kb" and "codes kb = x # xs" and "simple_code x"
  shows "\<exists>kb' d'. read_keyboard i (kb, d) = Some (kb', d') \<and> kb_wf kb' \<and> codes kb' = xs \<and>
    l_shift kb' = held1 0x2a x (l_shift kb) \<and> r_shift kb' = held1 0x36 x (r_shift kb) \<and>
    l_ctrl kb' = held1 0x1d x (l_ctrl kb) \<and> l_alt kb' = held1 0x38 x (l_alt kb) \<and>
    (x AND FLAG_BREAK \<noteq> 0 \<longrightarrow> d' = d)"
proof -
  have "x \<noteq> 0xe0" "x \<noteq> 0xe1" using assms(3) by (auto simp: simple_code_def)
  from read_keyboard_simple [OF assms(1,2) this, of i d]
  obtain kb1 where kb1: "taken 1 (kb\<lparr>code_e0 := False\<rparr>) kb1"
    "read_keyboard i (kb, d) = map_option (\<lambda>kb'. (kb', if x AND FLAG_BREAK = 0
        then store_key_into_console i (key_value kb' (key_of x kb1)) d else d))
      (note_key (key_of x kb1) (x AND FLAG_BREAK = 0) kb1)" by blast
  have "\<not> code_e0 kb1" using taken_same [OF kb1(1)] by simp
  from note_key_simple [OF key_of_row(1) [OF this] assms(3), of kb1]
  obtain kb' where kb': "note_key (key_of x kb1) (x AND FLAG_BREAK = 0) kb1 = Some kb'"
    "\<exists>ls rs lc la. kb' = kb1\<lparr>l_shift := ls, r_shift := rs, l_ctrl := lc, l_alt := la\<rparr>"
    "l_shift kb' = held1 0x2a x (l_shift kb1)" "r_shift kb' = held1 0x36 x (r_shift kb1)"
    "l_ctrl kb' = held1 0x1d x (l_ctrl kb1)" "l_alt kb' = held1 0x38 x (l_alt kb1)" by blast
  have "kb_wf kb'" "codes kb' = xs"
    using kb'(2) taken_wf [OF kb1(1)] taken_codes [OF kb1(1)] assms(2)
    by (auto simp: kb_wf_def codes_def)
  then show ?thesis
    using kb1(2) kb' taken_same [OF kb1(1)]
    by (intro exI [of _ kb'] exI [of _ "if x AND FLAG_BREAK = 0
        then store_key_into_console i (key_value kb' (key_of x kb1)) d else d"]) simp
qed

fun read_keys :: "nat \<Rightarrow> nat \<Rightarrow> keyboard \<times> display \<Rightarrow> (keyboard \<times> display) option" where
  "read_keys 0 i s = Some s"
| "read_keys (Suc n) i s = Option.bind (read_keyboard i s) (read_keys n i)"

lemma read_keys_modifiers:
  assumes "kb_wf kb" and "codes kb = xs" and "\<forall>x\<in>set xs. simple_code x"
  shows "\<exists>kb' d'. read_keys (length xs) i (kb, d) = Some (kb', d') \<and> codes kb' = [] \<and>
    l_shift kb' = held 0x2a xs (l_shift kb) \<and> r_shift kb' = held 0x36 xs (r_shift kb) \<and>
    l_ctrl kb' = held 0x1d xs (l_ctrl kb) \<and> l_alt kb' = held 0x38 xs (l_alt kb) \<and>
    ((\<forall>x\<in>set xs. x AND FLAG_BREAK \<noteq> 0) \<longrightarrow> d' = d)"
  using assms
proof (induction xs arbitrary: kb d)
  case Nil
  then show ?case by (simp add: held_def)
next
  case (Cons x xs)
  obtain kb1 d1 where 1: "read_keyboard i (kb, d) = Some (kb1, d1)" "kb_wf kb1" "codes kb1 = xs"
    "l_shift kb1 = held1 0x2a x (l_shift kb)" "r_shift kb1 = held1 0x36 x (r_shift kb)"
    "l_ctrl kb1 = held1 0x1d x (l_ctrl kb)" "l_alt kb1 = held1 0x38 x (l_alt kb)"
    "x AND FLAG_BREAK \<noteq> 0 \<longrightarrow> d1 = d"
    using read_keyboard_simple_code [of kb x xs i d] Cons.prems by auto
  from Cons.IH [OF 1(2,3), of d1] Cons.prems(3)
  obtain kb' d' where 2: "read_keys (length xs) i (kb1, d1) = Some (kb', d')" "codes kb' = []"
    "l_shift kb' = held 0x2a xs (l_shift kb1)" "r_shift kb' = held 0x36 xs (r_shift kb1)"
    "l_ctrl kb' = held 0x1d xs (l_ctrl kb1)" "l_alt kb' = held 0x38 xs (l_alt kb1)"
    "(\<forall>x\<in>set xs. x AND FLAG_BREAK \<noteq> 0) \<longrightarrow> d' = d1" by auto
  show ?case
    using 1 2 by (intro exI [of _ kb'] exI [of _ d']) (simp add: held_def)
qed


section \<open>Typing\<close>

lemma ext_bit: "k AND FLAG_EXT = 0 \<longleftrightarrow> even (unat k div 256)"
proof -
  have "FLAG_EXT = 2 ^ 8" by simp
  then have "k AND FLAG_EXT = 0 \<longleftrightarrow> \<not> bit k 8" by (metis and_exp_eq_0_iff_not_bit)
  also have "bit k 8 \<longleftrightarrow> bit (unat k) 8" by (simp add: bit_unsigned_iff)
  also have "bit (unat k) 8 \<longleftrightarrow> odd (unat k div 2 ^ 8)" by (rule bit_iff_odd)
  finally show ?thesis by simp
qed

text \<open>A table entry without \<open>FLAG_EXT\<close> is a printing character, or nothing.\<close>

lemma key_entry_plain:
  assumes "key_entry k" and "k AND FLAG_EXT = 0"
  shows "k = 0 \<or> 0x20 \<le> k \<and> k < 0x7f"
proof (rule ccontr)
  assume "\<not> ?thesis"
  then have "257 \<le> unat k" "unat k \<le> 315"
    using assms(1) by (auto simp: key_entry_def word_le_nat_alt word_less_nat_alt)
  then have "unat k div 256 = 1" by simp
  then show False using assms(2) unfolding ext_bit by simp
qed

lemma with_flags_plain:
  "k AND FLAG_EXT = 0 \<Longrightarrow> with_flags kb False k AND FLAG_EXT = 0"
  "(ucast (with_flags kb False k) :: u8) = ucast k"
proof -
  have z: "(ucast (if b then FLAG_SHIFT_L else 0 :: u32) :: u8) = 0"
    "(ucast (if b then FLAG_SHIFT_R else 0 :: u32) :: u8) = 0"
    "(ucast (if b then FLAG_CTRL_L else 0 :: u32) :: u8) = 0"
    "(ucast (if b then FLAG_CTRL_R else 0 :: u32) :: u8) = 0"
    "(ucast (if b then FLAG_ALT_L else 0 :: u32) :: u8) = 0"
    "(ucast (if b then FLAG_ALT_R else 0 :: u32) :: u8) = 0" for b
    by simp_all
  show "(ucast (with_flags kb False k) :: u8) = ucast k"
    unfolding with_flags_def unsigned_or_eq z by simp
  show "with_flags kb False k AND FLAG_EXT = 0" if "k AND FLAG_EXT = 0"
    using that by (simp add: with_flags_def bit.conj_disj_distrib2)
qed

lemma key_value_plain:
  assumes "key_entry k" and "k AND FLAG_EXT = 0"
  shows "store_key_into_console i (key_value kb k) d = upd_con i (type_key (ucast k)) d"
proof -
  have "k < 0x7f" using key_entry_plain [OF assms] by auto
  then have "\<not> PAD_SLASH \<le> k" by (simp add: word_le_nat_alt word_less_nat_alt)
  then have "key_value kb k = with_flags kb False k" by (simp add: key_value_def)
  then show ?thesis
    using with_flags_plain [where k = k and kb = kb] assms(2)
    by (simp add: store_key_into_console_def store_key_type_key)
qed

lemma note_key_plain:
  assumes "k AND FLAG_EXT = 0"
  shows "note_key k m kb = Some kb"
proof -
  have "k \<noteq> c" if "c AND FLAG_EXT \<noteq> 0" for c using that assms by blast
  then show ?thesis by (simp add: note_key_def)
qed

text \<open>The pressed keys that type a character, with the shift and lock keys as they are.\<close>

definition plain_code :: "keyboard \<Rightarrow> u8 \<Rightarrow> bool" where
  "plain_code kb x \<longleftrightarrow> x AND FLAG_BREAK = 0 \<and> key_of x (kb\<lparr>code_e0 := False\<rparr>) AND FLAG_EXT = 0"

definition char_of_code :: "keyboard \<Rightarrow> u8 \<Rightarrow> u8" where
  "char_of_code kb x = ucast (key_of x (kb\<lparr>code_e0 := False\<rparr>))"

lemma key_of_taken:
  "taken n (kb\<lparr>code_e0 := False\<rparr>) kb' \<Longrightarrow> key_of x (kb'\<lparr>code_e0 := False\<rparr>) = key_of x (kb\<lparr>code_e0 := False\<rparr>)"
  by (auto simp: taken_def key_of_def)

lemma read_keyboard_plain:
  assumes "kb_wf kb" and "codes kb = x # xs" and "plain_code kb x"
  shows "\<exists>kb'. read_keyboard i (kb, d) = Some (kb', upd_con i (type_key (char_of_code kb x)) d) \<and>
    taken 1 (kb\<lparr>code_e0 := False\<rparr>) kb'"
    and "char_of_code kb x \<noteq> 10 \<and> char_of_code kb x \<noteq> 8"
proof -
  have "x \<noteq> 0xe0" "x \<noteq> 0xe1" using assms(3) by (auto simp: plain_code_def)
  from read_keyboard_simple [OF assms(1,2) this, of i d]
  obtain kb1 where kb1: "taken 1 (kb\<lparr>code_e0 := False\<rparr>) kb1"
    "read_keyboard i (kb, d) = map_option (\<lambda>kb'. (kb', if x AND FLAG_BREAK = 0
        then store_key_into_console i (key_value kb' (key_of x kb1)) d else d))
      (note_key (key_of x kb1) (x AND FLAG_BREAK = 0) kb1)" by blast
  have e0: "\<not> code_e0 kb1" "kb1\<lparr>code_e0 := False\<rparr> = kb1" using kb1(1) by (auto simp: taken_def)
  then have key: "key_of x kb1 = key_of x (kb\<lparr>code_e0 := False\<rparr>)" using key_of_taken [OF kb1(1)] by metis
  have ext: "key_of x kb1 AND FLAG_EXT = 0" "x AND FLAG_BREAK = 0"
    using assms(3) by (simp_all add: plain_code_def key)
  have entry: "key_entry (key_of x kb1)"
    using key_map_entries key_of_row(2) [OF e0(1)] by (auto simp: list_all_iff)
  have "note_key (key_of x kb1) True kb1 = Some kb1"
    by (rule note_key_plain [OF ext(1)])
  then show "\<exists>kb'. read_keyboard i (kb, d) = Some (kb', upd_con i (type_key (char_of_code kb x)) d) \<and>
      taken 1 (kb\<lparr>code_e0 := False\<rparr>) kb'"
    using kb1 ext(2) key_value_plain [OF entry ext(1)] by (simp add: char_of_code_def key)
  have "key_of x kb1 = 0 \<or> 0x20 \<le> key_of x kb1 \<and> key_of x kb1 < 0x7f"
    by (rule key_entry_plain [OF entry ext(1)])
  moreover have "unat (char_of_code kb x) = unat (key_of x kb1) mod 256"
    by (simp add: char_of_code_def key unsigned_ucast_eq take_bit_eq_mod)
  ultimately have "unat (char_of_code kb x) = 0 \<or> 32 \<le> unat (char_of_code kb x)"
    by (auto simp: word_le_nat_alt word_less_nat_alt)
  then show "char_of_code kb x \<noteq> 10 \<and> char_of_code kb x \<noteq> 8" by auto
qed

text \<open>All consoles have printed what was typed.\<close>

definition idle :: "display \<Rightarrow> bool" where
  "idle d \<longleftrightarrow> (\<forall>j<CONSOLE_CNT. typed (con d j) = [])"

lemma turn_idle:
  assumes "j \<noteq> current_console d" and "typed (con d j) = []"
  shows "console_task_turn j (kb, d) = Some (kb, d)"
proof -
  have "ring_count (con_in (con d j)) = 0"
    using assms(2) length_ring_contents [of CONSOLE_BUF_LENGTH "con_in (con d j)"] by (simp add: typed_def)
  then show ?thesis using assms(1) by (simp add: console_task_turn_def console_write_key_def)
qed

lemma turn_types:
  assumes kb: "kb_wf kb" "codes kb = x # xs" "plain_code kb x"
    and d: "i = current_console d" "i < CONSOLE_CNT" "length (consoles d) = CONSOLE_CNT"
      "shows_at i l p (con d i)" "typed (con d i) = []"
    and c: "c = char_of_code kb x"
  shows "\<exists>kb' d' l'. console_task_turn i (kb, d) = Some (kb', d') \<and>
    taken 1 (kb\<lparr>code_e0 := False\<rparr>) kb' \<and> own_change i d d' \<and>
    shows_at i l' (next_cell c p) (con d' i) \<and> typed (con d' i) = [] \<and>
    (\<forall>q<5461. own_cells i d' q = write_cell c p (own_cells i d) q)"
proof -
  let ?d = "upd_con i (type_key c) d"
  obtain kb' where kb': "read_keyboard i (kb, d) = Some (kb', ?d)" "taken 1 (kb\<lparr>code_e0 := False\<rparr>) kb'"
    using read_keyboard_plain(1) [OF kb, of i d] c by blast
  have con: "con ?d i = type_key c (con d i)" using d(2,3) by (simp add: con_upd_con)
  have "shows_at i l p (con ?d i)" unfolding con by (rule type_key_shows_at [OF d(4)])
  moreover have "typed (con ?d i) = c # []"
    unfolding con using typed_keys.put_contents [of "con d i" c] d(4,5) by (simp add: shows_at_def)
  moreover have "length (consoles ?d) = CONSOLE_CNT" using d(3) by simp
  ultimately obtain d' l' where "console_write_key i ?d = Some d'" "own_change i ?d d'"
      "shows_at i l' (next_cell c p) (con d' i)" "typed (con d' i) = []"
      "\<forall>q<5461. own_cells i d' q = write_cell c p (own_cells i ?d) q"
    using console_write_key_result [OF d(2), of ?d l p c "[]"] by blast
  then show ?thesis
    using kb' d(1) own_change_trans [OF own_change_upd_con]
    by (intro exI [of _ kb'] exI [of _ d'] exI [of _ l']) (simp add: console_task_turn_def)
qed

lemma round_types:
  assumes kb: "kb_wf kb" "codes kb = x # xs" "plain_code kb x"
    and d: "i = current_console d" "i < CONSOLE_CNT" "length (consoles d) = CONSOLE_CNT"
      "shows_at i l p (con d i)" "idle d"
    and c: "c = char_of_code kb x"
  shows "\<exists>kb' d' l'. console_task_round (kb, d) = Some (kb', d') \<and>
    taken 1 (kb\<lparr>code_e0 := False\<rparr>) kb' \<and> own_change i d d' \<and> idle d' \<and>
    shows_at i l' (next_cell c p) (con d' i) \<and>
    (\<forall>q<5461. own_cells i d' q = write_cell c p (own_cells i d) q)"
proof -
  have t: "typed (con d i) = []" using d(2,5) by (simp add: idle_def)
  obtain kb' d' l' where r: "console_task_turn i (kb, d) = Some (kb', d')"
      "taken 1 (kb\<lparr>code_e0 := False\<rparr>) kb'" "own_change i d d'"
      "shows_at i l' (next_cell c p) (con d' i)" "typed (con d' i) = []"
      "\<forall>q<5461. own_cells i d' q = write_cell c p (own_cells i d) q"
    using turn_types [OF kb d(1-4) t c] by blast
  have same: "current_console d' = i" "\<And>j. j \<noteq> i \<Longrightarrow> con d' j = con d j"
    using r(3) d(1) by (simp_all add: own_change_def)
  have before: "console_task_turn j (kb, d) = Some (kb, d)" if "j \<noteq> i" "j < CONSOLE_CNT" for j
    using that d(1,5) by (intro turn_idle) (simp_all add: idle_def)
  have after: "console_task_turn j (kb', d') = Some (kb', d')" if "j \<noteq> i" "j < CONSOLE_CNT" for j
    using that same d(5) by (intro turn_idle) (simp_all add: idle_def)
  have "i = 0 \<or> i = 1 \<or> i = 2" using d(2) by linarith
  then have "console_task_round (kb, d) = Some (kb', d')"
    using r(1) before after by (auto simp: console_task_round_def)
  moreover have "idle d'" unfolding idle_def using r(5) same(2) d(5) by (metis idle_def)
  ultimately show ?thesis using r by blast
qed

lemma rounds_type:
  assumes "i < CONSOLE_CNT"
    and "kb_wf kb" "codes kb = xs" "\<forall>x\<in>set xs. plain_code kb x"
    and "i = current_console d" "length (consoles d) = CONSOLE_CNT" "shows_at i l p (con d i)" "idle d"
    and "p + length xs \<le> 5460"
  shows "\<exists>kb' d' l'. console_task_rounds (length xs) (kb, d) = Some (kb', d') \<and> codes kb' = [] \<and>
    own_change i d d' \<and> idle d' \<and> shows_at i l' (p + length xs) (con d' i) \<and>
    (\<forall>j<length xs. own_cells i d' (p + j) = scast (char_of_code kb (xs ! j)) OR 0x0f00) \<and>
    (\<forall>q<5461. q < p \<or> p + length xs \<le> q \<longrightarrow> own_cells i d' q = own_cells i d q)"
  using assms(2-)
proof (induction xs arbitrary: kb d l p)
  case Nil
  then show ?case by auto
next
  case (Cons x xs)
  let ?c = "char_of_code kb x"
  have plain: "plain_code kb x" using Cons.prems(3) by simp
  have p: "p < 5460" using Cons.prems(8) by simp
  have c: "next_cell ?c p = p + 1" "write_cell ?c p f = f(p := scast ?c OR 0x0f00)" for f
    using read_keyboard_plain(2) [OF Cons.prems(1,2) plain] p by (auto simp: next_cell_def write_cell_def)
  obtain kb1 d1 l1 where 1: "console_task_round (kb, d) = Some (kb1, d1)"
      "taken 1 (kb\<lparr>code_e0 := False\<rparr>) kb1" "own_change i d d1" "idle d1" "shows_at i l1 (p + 1) (con d1 i)"
      "\<forall>q<5461. own_cells i d1 q = ((own_cells i d)(p := scast ?c OR 0x0f00)) q"
    using round_types [OF Cons.prems(1,2) plain Cons.prems(4) assms(1) Cons.prems(5-7) refl]
    unfolding c by blast
  have kb1: "kb_wf kb1" "codes kb1 = xs" "\<And>x. key_of x (kb1\<lparr>code_e0 := False\<rparr>) = key_of x (kb\<lparr>code_e0 := False\<rparr>)"
    using taken_wf [OF 1(2)] taken_codes [OF 1(2)] Cons.prems(2) key_of_taken [OF 1(2)]
    by (simp_all add: codes_def)
  then have char: "char_of_code kb1 = char_of_code kb" "plain_code kb1 = plain_code kb"
    by (auto simp: char_of_code_def plain_code_def)
  have d1: "i = current_console d1" "length (consoles d1) = CONSOLE_CNT"
    using 1(3) Cons.prems(4,5) by (simp_all add: own_change_def)
  obtain kb' d' l' where 2: "console_task_rounds (length xs) (kb1, d1) = Some (kb', d')" "codes kb' = []"
      "own_change i d1 d'" "idle d'" "shows_at i l' (p + 1 + length xs) (con d' i)"
      "\<forall>j<length xs. own_cells i d' (p + 1 + j) = scast (char_of_code kb (xs ! j)) OR 0x0f00"
      "\<forall>q<5461. q < p + 1 \<or> p + 1 + length xs \<le> q \<longrightarrow> own_cells i d' q = own_cells i d1 q"
    using Cons.IH [OF kb1(1,2) _ d1 1(5,4)] Cons.prems(3,8) char by auto
  have at_p: "own_cells i d' p = scast ?c OR 0x0f00" using 1(6) 2(7) p by simp
  have other: "own_cells i d' q = own_cells i d q" if "q < 5461" "q < p \<or> p + length (x # xs) \<le> q" for q
    using 1(6) 2(7) that by auto
  have cells: "own_cells i d' (p + j) = scast (char_of_code kb ((x # xs) ! j)) OR 0x0f00"
    if "j < length (x # xs)" for j
    using that 2(6) at_p by (cases j) auto
  have "shows_at i l' (p + length (x # xs)) (con d' i)" using 2(5) by simp
  moreover have "console_task_rounds (length (x # xs)) (kb, d) = Some (kb', d')" using 1(1) 2(1) by simp
  moreover have "own_change i d d'" by (rule own_change_trans [OF 1(3) 2(3)])
  ultimately show ?case using 2(2,4) cells other by (intro exI [of _ kb'] exI [of _ d'] exI [of _ l']) simp
qed


section \<open>Keys that are not typed\<close>

lemma with_flags_bits:
  "with_flags kb False k AND MASK_RAW = k AND MASK_RAW"
  "with_flags kb False k AND FLAG_EXT = k AND FLAG_EXT"
  "l_ctrl kb \<Longrightarrow> with_flags kb False k AND FLAG_CTRL_L \<noteq> 0"
  "r_ctrl kb \<Longrightarrow> with_flags kb False k AND FLAG_CTRL_R \<noteq> 0"
  by (simp_all add: with_flags_def bit.conj_disj_distrib2)

lemma switch_key:
  assumes "k < 3" and "l_ctrl kb \<or> r_ctrl kb"
  shows "store_key_into_console i (key_value kb (F1 + of_nat k)) d = change_current_console k d"
proof -
  have k: "k = 0 \<or> k = 1 \<or> k = 2" using assms(1) by linarith
  have "\<not> PAD_SLASH \<le> F1 + of_nat k" using k by auto
  then have v: "key_value kb (F1 + of_nat k) = with_flags kb False (F1 + of_nat k)"
    by (simp add: key_value_def)
  have raw: "(F1 + of_nat k) AND MASK_RAW = F1 + of_nat k" "(F1 + of_nat k) AND FLAG_EXT \<noteq> (0 :: u32)"
    using k by auto
  have ctrl: "with_flags kb False (F1 + of_nat k) AND FLAG_CTRL_L \<noteq> 0 \<or>
      with_flags kb False (F1 + of_nat k) AND FLAG_CTRL_R \<noteq> 0"
    using assms(2) with_flags_bits(3,4) by blast
  have "F1 + of_nat k \<notin> {ENTER, BACKSPACE, UP, DOWN}" "F1 + of_nat k = F1 \<or> F1 + of_nat k = F1 + 1 \<or> F1 + of_nat k = F1 + 2"
    "unat (F1 + of_nat k - F1 :: u32) = k" using k by auto
  then show ?thesis
    unfolding store_key_into_console_def Let_def v with_flags_bits raw(1)
    using raw(2) ctrl by simp
qed

lemma key_of_cases:
  assumes "\<not> code_e0 kb"
  shows "key_of x kb = key_map ! (unat (x AND 0x7f) * 3) \<or> key_of x kb = key_map ! (unat (x AND 0x7f) * 3 + 1)"
  using assms by (simp add: key_of_def Let_def)

lemma function_key_rows:
  "key_map ! 177 = F1" "key_map ! 178 = F1" "key_map ! 180 = F1 + 1" "key_map ! 181 = F1 + 1"
  "key_map ! 183 = F1 + 2" "key_map ! 184 = F1 + 2"
  by (simp_all add: key_map_def)

lemma note_key_function:
  "note_key F1 m kb = Some kb" "note_key (F1 + 1) m kb = Some kb" "note_key (F1 + 2) m kb = Some kb"
  by (simp_all add: note_key_def)

lemma read_keyboard_switch:
  assumes "kb_wf kb" and "codes kb = (0x3b + of_nat k) # xs" and "k < 3" and "l_ctrl kb \<or> r_ctrl kb"
  shows "\<exists>kb'. read_keyboard i (kb, d) = Some (kb', change_current_console k d) \<and>
    taken 1 (kb\<lparr>code_e0 := False\<rparr>) kb'"
proof -
  have k: "k = 0 \<or> k = 1 \<or> k = 2" using assms(3) by linarith
  have "(0x3b + of_nat k :: u8) \<noteq> 0xe0" "(0x3b + of_nat k :: u8) \<noteq> 0xe1" using k by auto
  from read_keyboard_simple [OF assms(1,2) this, of i d]
  obtain kb1 where kb1: "taken 1 (kb\<lparr>code_e0 := False\<rparr>) kb1"
    "read_keyboard i (kb, d) = map_option (\<lambda>kb'. (kb', if (0x3b + of_nat k) AND FLAG_BREAK = 0
        then store_key_into_console i (key_value kb' (key_of (0x3b + of_nat k) kb1)) d else d))
      (note_key (key_of (0x3b + of_nat k) kb1) ((0x3b + of_nat k) AND FLAG_BREAK = 0) kb1)" by blast
  have e0: "\<not> code_e0 kb1" "l_ctrl kb1 \<or> r_ctrl kb1" using taken_same [OF kb1(1)] assms(4) by simp_all
  have key: "key_of (0x3b + of_nat k) kb1 = F1 + of_nat k"
    using key_of_cases [OF e0(1), of "0x3b + of_nat k"] function_key_rows k by auto
  moreover have "note_key (F1 + of_nat k) m kb1 = Some kb1" for m
    using k note_key_function by auto
  moreover have "(0x3b + of_nat k :: u8) AND FLAG_BREAK = 0" using k by auto
  ultimately show ?thesis
    using kb1 switch_key [OF assms(3) e0(2)] by simp
qed

text \<open>
  With NumLock on the keyboard sends 0xE0 0x2A in front of the code of a grey key. The code
  takes this for the start of PrintScreen, swallows the two bytes that follow and then decodes
  0x2A itself after the prefix 0xE0, which is no key.
\<close>

lemma read_keyboard_fake_shift:
  assumes "kb_wf kb" and "codes kb = 0xe0 # 0x2a # 0xe0 # x # xs" and "x \<noteq> 0x37"
  shows "\<exists>kb'. read_keyboard i (kb, d) = Some (kb', upd_con i (type_key 0) d) \<and> codes kb' = xs"
proof -
  let ?kb = "kb\<lparr>code_e0 := False\<rparr>"
  have "kb_wf ?kb" "codes ?kb = 0xe0 # 0x2a # 0xe0 # x # xs" using assms by (simp_all add: kb_wf_def codes_def)
  then obtain kb1 where 1: "get_byte_from_kb_buf ?kb = Some (0xe0, kb1)" "taken 1 ?kb kb1"
    "kb_wf kb1" "codes kb1 = 0x2a # 0xe0 # x # xs"
    using get_byte_ready [of ?kb "0xe0"] taken_wf taken_codes by fastforce
  obtain kb2 where 2: "get_byte_from_kb_buf kb1 = Some (0x2a, kb2)" "taken 1 kb1 kb2"
    "kb_wf kb2" "codes kb2 = 0xe0 # x # xs"
    using get_byte_ready [OF 1(3,4)] taken_wf taken_codes 1(4) by fastforce
  obtain kb3 where 3: "get_byte_from_kb_buf kb2 = Some (0xe0, kb3)" "taken 1 kb2 kb3"
    "kb_wf kb3" "codes kb3 = x # xs"
    using get_byte_ready [OF 2(3,4)] taken_wf taken_codes 2(4) by fastforce
  obtain kb4 where 4: "get_byte_from_kb_buf kb3 = Some (x, kb4)" "taken 1 kb3 kb4" "codes kb4 = xs"
    using get_byte_ready [OF 3(3,4)] taken_codes 3(4) by fastforce
  have "read_scan_code kb = Some ((0, False, 0x2a), kb4\<lparr>code_e0 := True\<rparr>)"
    using 1(1) 2(1) 3(1) 4(1) assms(3) by (simp add: read_scan_code_def)
  moreover have "key_of 0x2a (kb4\<lparr>code_e0 := True\<rparr>) = 0" by (simp add: key_of_def key_map_def)
  moreover have "ring_count (kb_in kb) \<noteq> 0" using assms(1,2) codes_empty_iff by simp
  moreover have "store_key_into_console i (key_value k 0) d = upd_con i (type_key (ucast (0 :: u32))) d" for k
    by (rule key_value_plain) (simp_all add: key_entry_def)
  ultimately have "read_keyboard i (kb, d) = Some (kb4\<lparr>code_e0 := True\<rparr>, upd_con i (type_key 0) d)"
    by (simp add: read_keyboard_def note_key_plain)
  moreover have "codes (kb4\<lparr>code_e0 := True\<rparr>) = xs" using 4(3) by (simp add: codes_def)
  ultimately show ?thesis by blast
qed


section \<open>The start\<close>

lemma init_keyboard_result:
  assumes "leds_answer kb" and "length (ring_buf (kb_in kb)) = KB_IN_BUF_LENGTH"
  shows "\<exists>kb'. init_keyboard kb = Some kb' \<and> kb_wf kb' \<and> codes kb' = [] \<and>
    sent kb' = sent kb @ [LED_CODE, 2] \<and> l_shift kb' = l_shift kb \<and> r_shift kb' = r_shift kb \<and>
    num_lock kb' \<and> \<not> caps_lock kb'"
proof -
  let ?kb = "kb\<lparr>kb_in := (kb_in kb)\<lparr>ring_count := 0, ring_head := 0, ring_tail := 0\<rparr>,
    num_lock := True, caps_lock := False, scroll_lock := False\<rparr>"
  have "leds_answer ?kb" using assms(1) by (simp add: leds_answer_def)
  moreover have "led_byte ?kb = 2" by (simp add: led_byte_def)
  ultimately obtain ss xs where "set_kb_led ?kb =
      Some (?kb\<lparr>status_port := ss, data_port := xs, sent := sent ?kb @ [LED_CODE, 2]\<rparr>)"
    using set_kb_led_returns [of ?kb] by metis
  then show ?thesis
    using assms(2) by (simp add: init_keyboard_def kb_wf_def codes_def ring_inv_def ring_contents_def)
qed


section \<open>Properties\<close>

text \<open>A keyboard that acknowledges the two bytes for the lamps, and what has arrived from it.\<close>

definition sample_keyboard :: "u8 list \<Rightarrow> keyboard" where
  "sample_keyboard xs = fold keyboard_int_handler xs
     \<lparr>kb_in = \<lparr>ring_buf = replicate KB_IN_BUF_LENGTH 0, ring_head = 0, ring_tail = 0, ring_count = 0\<rparr>,
      num_lock = True, caps_lock = False, scroll_lock = False, code_e0 = False,
      l_shift = False, r_shift = False, l_alt = False, r_alt = False, l_ctrl = False, r_ctrl = False,
      data_port = [KB_ACK, KB_ACK], status_port = [0, 0], sent = []\<rparr>"

lemma sample_keyboard_wf:
  "kb_wf (sample_keyboard xs)" "codes (sample_keyboard xs) = take 32 xs" "leds_answer (sample_keyboard xs)"
proof -
  let ?kb = "\<lparr>kb_in = \<lparr>ring_buf = replicate KB_IN_BUF_LENGTH (0 :: u8), ring_head = 0, ring_tail = 0, ring_count = 0\<rparr>,
      num_lock = True, caps_lock = False, scroll_lock = False, code_e0 = False,
      l_shift = False, r_shift = False, l_alt = False, r_alt = False, l_ctrl = False, r_ctrl = False,
      data_port = [KB_ACK, KB_ACK], status_port = [0, 0], sent = []\<rparr>"
  have kb: "kb_wf ?kb" "codes ?kb = []" by (simp_all add: kb_wf_def codes_def ring_inv_def ring_contents_def)
  show "kb_wf (sample_keyboard xs)" "codes (sample_keyboard xs) = take 32 xs"
    unfolding sample_keyboard_def using keyboard_interrupts_codes [OF kb(1), of xs] kb(2) by simp_all
  show "leds_answer (sample_keyboard xs)"
    by (simp add: sample_keyboard_def keyboard_interrupts leds_answer_def)
qed

lemma sample_keyboard_fields [simp]:
  "\<not> l_shift (sample_keyboard xs)" "\<not> r_shift (sample_keyboard xs)" "\<not> caps_lock (sample_keyboard xs)"
  "\<not> l_ctrl (sample_keyboard xs)" "\<not> l_alt (sample_keyboard xs)"
  by (simp_all add: sample_keyboard_def keyboard_interrupts)

lemma sample_display_idle:
  obtains d where "display_wf d" "synced d" "current_console d = 0" "idle d" "cursor_pos (con d 0) = of_nat (5461 * 0 + 320)"
proof -
  obtain d where "display_wf (change_current_console 0 d)" "synced (change_current_console 0 d)"
    "cursor_pos (con d 0) = position sample_display div 2" "\<forall>j<CONSOLE_CNT. typed (con d j) = []"
    using init_consoles_result [OF sample_display_raw(1)] sample_display_raw(2) by auto
  then show thesis using that [of "change_current_console 0 d"] sample_display_raw(2)
    by (simp add: change_current_console_def idle_def)
qed

text \<open>
  C34. The console task starts: the keyboard's buffer is empty and its lamps have been set to
  NumLock, the three consoles have well-formed windows with no character typed, console 0 goes
  on where the boot messages ended, the others show their prompt, and the controller shows
  console 0. This needs a keyboard that answers and a boot cursor inside the first console.
\<close>

theorem console_task_start_establishes:
  assumes "leds_answer kb" and "length (ring_buf (kb_in kb)) = KB_IN_BUF_LENGTH"
    and "display_raw d" and "position d < 10922"
  shows "\<exists>kb' d'. console_task_start (kb, d) = Some (kb', d') \<and>
    kb_wf kb' \<and> codes kb' = [] \<and> sent kb' = sent kb @ [LED_CODE, 2] \<and>
    display_wf d' \<and> synced d' \<and> idle d' \<and> current_console d' = 0 \<and>
    cursor_pos (con d' 0) = position d div 2 \<and>
    (\<forall>i\<in>{1, 2}. cursor_pos (con d' i) = of_nat (5461 * i + 3) \<and>
       map (own_cells i d') [0..<3] = [0x0f30 + of_nat i, 0x0f23, 0x0f20])"
proof -
  obtain kb' where kb': "init_keyboard kb = Some kb'" "kb_wf kb'" "codes kb' = []"
      "sent kb' = sent kb @ [LED_CODE, 2]"
    using init_keyboard_result [OF assms(1,2)] by blast
  obtain d1 where d1: "init_consoles d = Some d1" "display_wf (change_current_console 0 d1)"
      "synced (change_current_console 0 d1)" "cursor_pos (con d1 0) = position d div 2"
      "\<forall>j<CONSOLE_CNT. typed (con d1 j) = []"
      "\<forall>i\<in>{1, 2}. cursor_pos (con d1 i) = of_nat (5461 * i + 3) \<and>
        map (own_cells i d1) [0..<3] = [0x0f30 + of_nat i, 0x0f23, 0x0f20]"
    using init_consoles_result [OF assms(3,4)] by blast
  have "con (change_current_console 0 d1) j = con d1 j"
    "own_cells j (change_current_console 0 d1) = own_cells j d1"
    "current_console (change_current_console 0 d1) = 0" for j
    by (simp_all add: change_current_console_def own_cells_def fun_eq_iff set_cursor_def set_start_address_def con_def)
  then show ?thesis
    using kb' d1 by (intro exI [of _ kb'] exI [of _ "change_current_console 0 d1"])
      (simp add: console_task_start_def idle_def)
qed

theorem console_task_start_establishes_witness:
  "\<exists>kb' d'. console_task_start (sample_keyboard [], sample_display) = Some (kb', d') \<and>
     display_wf d' \<and> cursor_pos (con d' 0) = 320"
proof -
  have "length (ring_buf (kb_in (sample_keyboard []))) = KB_IN_BUF_LENGTH" by (simp add: sample_keyboard_def)
  then show ?thesis
    using console_task_start_establishes [OF sample_keyboard_wf(3) _ sample_display_raw(1)]
      sample_display_raw(2) by force
qed

text \<open>
  C22. What is typed appears on the screen: when at most 32 key presses that stand for
  characters have come in from the keyboard while the console task was away, then as many
  rounds of its loop take them out of the buffer and put their characters, in order, in white
  into the window of the current console from its cursor on. Nothing else in that console's
  memory changes.
\<close>

theorem typed_text_appears:
  assumes "display_wf d" and "idle d" and "kb_wf kb" and "codes kb = []"
    and "length xs \<le> KB_IN_BUF_LENGTH" and "\<forall>x\<in>set xs. plain_code kb x"
    and "cursor_pos (con d (current_console d)) = of_nat (5461 * current_console d + p)"
    and "p + length xs \<le> 5460"
  shows "\<exists>kb' d'. console_task_rounds (length xs) (fold keyboard_int_handler xs kb, d) = Some (kb', d') \<and>
    codes kb' = [] \<and> idle d' \<and>
    cursor_pos (con d' (current_console d)) = of_nat (5461 * current_console d + p + length xs) \<and>
    (\<forall>j<length xs. own_cells (current_console d) d' (p + j) = scast (char_of_code kb (xs ! j)) OR 0x0f00) \<and>
    (\<forall>q<5461. q < p \<or> p + length xs \<le> q \<longrightarrow>
       own_cells (current_console d) d' q = own_cells (current_console d) d q)"
proof -
  let ?i = "current_console d" and ?kb = "fold keyboard_int_handler xs kb"
  have i: "?i < CONSOLE_CNT" and len: "length (consoles d) = CONSOLE_CNT" using assms(1) by (simp_all add: display_wf_def)
  obtain l q where s: "shows_at ?i l q (con d ?i)"
    using assms(1) i by (auto simp: display_wf_def console_wf_shows_at)
  have "q < 5461" "of_nat (5461 * ?i + q) = (of_nat (5461 * ?i + p) :: u32)"
    using s assms(7) by (simp_all add: shows_at_def)
  then have "q = p" using i assms(8) by (subst (asm) of_nat_u32_eq_iff) simp_all
  have kb: "kb_wf ?kb" "codes ?kb = xs" using keyboard_interrupts_codes [OF assms(3), of xs] assms(4,5) by simp_all
  have "plain_code ?kb x = plain_code kb x" "char_of_code ?kb x = char_of_code kb x" for x
    by (simp_all add: plain_code_def char_of_code_def key_of_def keyboard_interrupts)
  then show ?thesis
    using rounds_type [OF i kb _ refl len _ assms(2), of l p] s \<open>q = p\<close> assms(6,8)
    by (fastforce simp: shows_at_def add.assoc)
qed

theorem typed_text_appears_witness:
  "\<exists>d kb' d'. display_wf d \<and> console_task_rounds 2 (sample_keyboard [0x23, 0x17], d) = Some (kb', d') \<and>
     own_cells 0 d' 320 = 0x0f68 \<and> own_cells 0 d' 321 = 0x0f69"
proof -
  obtain d where d: "display_wf d" "current_console d = 0" "idle d" "cursor_pos (con d 0) = of_nat (5461 * 0 + 320)"
    using sample_display_idle by metis
  let ?kb = "sample_keyboard []"
  have key: "key_of 0x23 (?kb\<lparr>code_e0 := False\<rparr>) = 0x68" "key_of 0x17 (?kb\<lparr>code_e0 := False\<rparr>) = 0x69"
    by (simp_all add: key_of_def key_map_def)
  have plain: "\<forall>x\<in>set [0x23, 0x17]. plain_code ?kb x" by (simp add: plain_code_def key)
  have fold: "fold keyboard_int_handler [0x23, 0x17] ?kb = sample_keyboard [0x23, 0x17]"
    by (simp add: sample_keyboard_def)
  obtain kb' d' where *: "console_task_rounds 2 (sample_keyboard [0x23, 0x17], d) = Some (kb', d')"
      "\<forall>j<2. own_cells 0 d' (320 + j) = scast (char_of_code ?kb ([0x23, 0x17] ! j)) OR 0x0f00"
    using typed_text_appears [OF d(1,3) sample_keyboard_wf(1) _ _ plain, of 320] d(2,4) fold
      sample_keyboard_wf(2) [of "[]"] by (auto simp: numeral_2_eq_2)
  have "own_cells 0 d' 320 = 0x0f68" "own_cells 0 d' 321 = 0x0f69"
    using *(2) [rule_format, of 0] *(2) [rule_format, of 1] by (simp_all add: char_of_code_def key)
  then show ?thesis using d(1) *(1) by blast
qed

text \<open>
  The driver knows which shift, control and alt keys are held down: after reading any
  sequence of codes without prefixes and lock keys, such a key counts as held exactly if the
  last of its codes was the make code, or if none came and it was held before; releasing keys
  changes nothing on the screen.
\<close>

theorem modifiers_follow_keys:
  assumes "kb_wf kb" and "codes kb = xs" and "\<forall>x\<in>set xs. simple_code x"
  shows "\<exists>kb' d'. read_keys (length xs) i (kb, d) = Some (kb', d') \<and> codes kb' = [] \<and>
    l_shift kb' = held 0x2a xs (l_shift kb) \<and> r_shift kb' = held 0x36 xs (r_shift kb) \<and>
    l_ctrl kb' = held 0x1d xs (l_ctrl kb) \<and> l_alt kb' = held 0x38 xs (l_alt kb) \<and>
    ((\<forall>x\<in>set xs. x AND FLAG_BREAK \<noteq> 0) \<longrightarrow> d' = d)"
  by (rule read_keys_modifiers [OF assms])

theorem modifiers_follow_keys_witness:
  "\<exists>kb' d'. read_keys 4 0 (sample_keyboard [0x2a, 0x1e, 0x1d, 0xaa], sample_display) = Some (kb', d') \<and>
     \<not> l_shift kb' \<and> l_ctrl kb'"
proof -
  let ?xs = "[0x2a, 0x1e, 0x1d, 0xaa] :: u8 list"
  have c: "codes (sample_keyboard ?xs) = ?xs" using sample_keyboard_wf(2) [of ?xs] by simp
  have "\<forall>x\<in>set ?xs. simple_code x" by (simp add: simple_code_def)
  then obtain kb' d' where *: "read_keys (length ?xs) 0 (sample_keyboard ?xs, sample_display) = Some (kb', d')"
      "l_shift kb' = held 0x2a ?xs False" "l_ctrl kb' = held 0x1d ?xs False"
    using modifiers_follow_keys [OF sample_keyboard_wf(1) c, of 0 sample_display] by auto
  have "length ?xs = 4" "\<not> l_shift kb'" "l_ctrl kb'"
    using *(2,3) by (simp_all add: held_def held1_def)
  then show ?thesis using *(1) by metis
qed

text \<open>
  Reading the keyboard returns when it has nothing to wait for (no code has come in, or
  six of them, the length of the longest sequence, and the keyboard acknowledges what is sent
  to its lamps), and takes one to six codes. It keeps the buffer of scan codes and the windows
  of all consoles well formed and the controller in step, whatever the codes are.
\<close>

theorem read_keyboard_safe:
  assumes "kb_wf kb" and "leds_answer kb" and "codes kb = [] \<or> 6 \<le> length (codes kb)"
    and "display_wf d" and "i < CONSOLE_CNT"
  shows "\<exists>kb' d' n. read_keyboard i (kb, d) = Some (kb', d') \<and> kb_wf kb' \<and> display_wf d' \<and>
    (synced d \<longrightarrow> synced d') \<and> codes kb' = drop n (codes kb) \<and> n \<le> 6 \<and> (codes kb \<noteq> [] \<longrightarrow> 1 \<le> n)"
  by (rule read_keyboard_result [OF assms])

theorem read_keyboard_safe_witness:
  "\<exists>d kb' d'. read_keyboard 0 (sample_keyboard [0xe1, 0x1d, 0x45, 0xe1, 0x9d, 0xc5], d) = Some (kb', d') \<and>
     kb_wf kb' \<and> display_wf d'"
proof -
  let ?xs = "[0xe1, 0x1d, 0x45, 0xe1, 0x9d, 0xc5] :: u8 list"
  have "codes (sample_keyboard ?xs) = [] \<or> 6 \<le> length (codes (sample_keyboard ?xs))"
    using sample_keyboard_wf(2) [of ?xs] by (simp del: length_codes)
  moreover obtain d where "display_wf d" using sample_display_idle by metis
  ultimately show ?thesis
    using read_keyboard_safe [OF sample_keyboard_wf(1,3), of ?xs d 0] by auto
qed

text \<open>
  Keyboard interrupts append their scan codes to the buffer in order; once 32 are waiting
  the later ones are dropped, and the waiting ones stay as they are.
\<close>

theorem scan_codes_queued:
  assumes "kb_wf kb"
  shows "kb_wf (fold keyboard_int_handler xs kb) \<and>
    codes (fold keyboard_int_handler xs kb) = codes kb @ take (32 - length (codes kb)) xs"
  using keyboard_interrupts_codes [OF assms] by blast

theorem scan_codes_queued_witness:
  "codes (fold keyboard_int_handler (replicate 40 0x1e) (sample_keyboard [])) = replicate 32 0x1e"
  using scan_codes_queued [OF sample_keyboard_wf(1), of "replicate 40 0x1e" "[]"]
    sample_keyboard_wf(2) [of "[]"] by (simp del: length_codes)

text \<open>
  Control with F1, F2 or F3 makes console 0, 1 or 2 the current one, and the controller
  shows it from then on.
\<close>

theorem ctrl_function_key_switches:
  assumes "kb_wf kb" and "codes kb = (0x3b + of_nat k) # xs" and "k < CONSOLE_CNT"
    and "l_ctrl kb \<or> r_ctrl kb" and "display_wf d"
  shows "\<exists>kb' d'. read_keyboard i (kb, d) = Some (kb', d') \<and> codes kb' = xs \<and>
    current_console d' = k \<and> synced d' \<and> display_wf d' \<and> consoles d' = consoles d \<and> cells d' = cells d"
proof -
  obtain kb' where *: "read_keyboard i (kb, d) = Some (kb', change_current_console k d)"
      "taken 1 (kb\<lparr>code_e0 := False\<rparr>) kb'"
    using read_keyboard_switch [OF assms(1-4)] by blast
  have "current_console (change_current_console k d) = k" "synced (change_current_console k d)"
    "consoles (change_current_console k d) = consoles d" "cells (change_current_console k d) = cells d"
    using assms(3) by (simp_all add: change_current_console_def synced_def set_cursor_def
        set_start_address_def two_bytes_eq con_def)
  moreover have "display_wf (change_current_console k d)"
    using change_current_console_wf [OF assms(5)] by blast
  moreover have "codes kb' = xs" using taken_codes [OF *(2)] assms(2) by (simp add: codes_def)
  ultimately show ?thesis using *(1) by blast
qed

theorem ctrl_function_key_switches_witness:
  "\<exists>d kb' d'. read_keyboard 0 ((sample_keyboard [0x3c])\<lparr>r_ctrl := True\<rparr>, d) = Some (kb', d') \<and>
     current_console d' = 1 \<and> synced d'"
proof -
  obtain d where d: "display_wf d" using sample_display_idle by metis
  let ?kb = "(sample_keyboard [0x3c])\<lparr>r_ctrl := True\<rparr>"
  have "kb_wf ?kb" "codes ?kb = (0x3b + of_nat 1) # []"
    using sample_keyboard_wf(1,2) [of "[0x3c]"] by (simp_all add: kb_wf_def codes_def)
  from ctrl_function_key_switches [OF this _ _ d, of 0] show ?thesis by auto
qed

text \<open>
  C35. With NumLock on, which the driver switches on at the start, the keyboard sends 0xE0 0x2A
  in front of the code of an arrow key; the driver then takes all four bytes out, types a NUL
  character and the arrow is lost.
\<close>

theorem fake_shift_swallows_key:
  assumes "kb_wf kb" and "codes kb = 0xe0 # 0x2a # 0xe0 # x # xs" and "x \<noteq> 0x37"
  shows "\<exists>kb'. read_keyboard i (kb, d) = Some (kb', upd_con i (type_key 0) d) \<and> codes kb' = xs"
  by (rule read_keyboard_fake_shift [OF assms])

theorem fake_shift_swallows_key_witness:
  "\<exists>kb'. read_keyboard 0 (sample_keyboard [0xe0, 0x2a, 0xe0, 0x48], sample_display) =
     Some (kb', upd_con 0 (type_key 0) sample_display) \<and> codes kb' = []"
proof -
  have "codes (sample_keyboard [0xe0, 0x2a, 0xe0, 0x48]) = 0xe0 # 0x2a # 0xe0 # 0x48 # []"
    using sample_keyboard_wf(2) [of "[0xe0, 0x2a, 0xe0, 0x48]"] by simp
  from fake_shift_swallows_key [OF sample_keyboard_wf(1) this] show ?thesis by simp
qed
end
