(* ===== verification/Hdd.thy ===== *)
theory Hdd
  imports Message
begin

text \<open>
  The disk driver \<open>kernel/hdd.c\<close> and the one request of \<open>kernel/fs.c\<close>. The disk controller
  is a parameter \<open>dev\<close>: \<open>dev cmd n j\<close> is byte \<open>j\<close> of the \<open>n\<close>-th block of 512 bytes the data
  port gives after the command \<open>cmd\<close> has been written to the registers. What the driver does
  to the ports is recorded in \<open>trace\<close>. \<open>tick_reads\<close> and \<open>status_reads\<close> are the values that
  \<open>get_ticks\<close> and the status port will give; a wait that goes on beyond them is \<open>No_return\<close>.
\<close>

section \<open>Devices and partitions\<close>

abbreviation (input) MAX_PRIM :: c_int where "MAX_PRIM \<equiv> 9"
abbreviation (input) NR_PRIM_PER_DRIVE :: c_int where "NR_PRIM_PER_DRIVE \<equiv> 5"
abbreviation (input) NR_PART_PER_DRIVE :: nat where "NR_PART_PER_DRIVE \<equiv> 4"
abbreviation (input) NR_SUB_PER_DRIVE :: c_int where "NR_SUB_PER_DRIVE \<equiv> 64"
abbreviation (input) NR_SUB_PER_PART :: nat where "NR_SUB_PER_PART \<equiv> 16"
abbreviation (input) MINOR_hd1a :: c_int where "MINOR_hd1a \<equiv> 0x10"
abbreviation (input) ROOT_DEV :: c_int where "ROOT_DEV \<equiv> 0x320"
abbreviation (input) EXT_PART :: u8 where "EXT_PART \<equiv> 5"
abbreviation (input) NO_PART :: u8 where "NO_PART \<equiv> 0"
abbreviation (input) SECTOR_SIZE :: c_int where "SECTOR_SIZE \<equiv> 512"
abbreviation (input) PARTITION_TABLE_OFFSET :: u32 where "PARTITION_TABLE_OFFSET \<equiv> 0x1be"
abbreviation (input) HDD_REG_FEATURES :: u16 where "HDD_REG_FEATURES \<equiv> 0x1f1"
abbreviation (input) HDD_REG_NSECTOR :: u16 where "HDD_REG_NSECTOR \<equiv> 0x1f2"
abbreviation (input) HDD_REG_LBA_LOW :: u16 where "HDD_REG_LBA_LOW \<equiv> 0x1f3"
abbreviation (input) HDD_REG_LBA_MID :: u16 where "HDD_REG_LBA_MID \<equiv> 0x1f4"
abbreviation (input) HDD_REG_LBA_HIGH :: u16 where "HDD_REG_LBA_HIGH \<equiv> 0x1f5"
abbreviation (input) HDD_REG_DEV :: u16 where "HDD_REG_DEV \<equiv> 0x1f6"
abbreviation (input) HDD_REG_CMD :: u16 where "HDD_REG_CMD \<equiv> 0x1f7"
abbreviation (input) HDD_REG_DEV_CTRL :: u16 where "HDD_REG_DEV_CTRL \<equiv> 0x3f6"
abbreviation (input) HDD_TIMEOUT :: c_int where "HDD_TIMEOUT \<equiv> 10000"
abbreviation (input) STATUS_BUSY :: u8 where "STATUS_BUSY \<equiv> 0x80"
abbreviation (input) STATUS_DRQ :: u8 where "STATUS_DRQ \<equiv> 8"
abbreviation (input) ATA_IDENTIFY :: u8 where "ATA_IDENTIFY \<equiv> 0xec"
abbreviation (input) ATA_READ :: u8 where "ATA_READ \<equiv> 0x20"
abbreviation (input) ATA_WRITE :: u8 where "ATA_WRITE \<equiv> 0x30"

definition DEV_TO_DRV :: "c_int \<Rightarrow> c_int" where
  "DEV_TO_DRV d =
     (if d \<le>s MAX_PRIM then c_div d NR_PRIM_PER_DRIVE else c_div (d - MINOR_hd1a) NR_SUB_PER_DRIVE)"

record partition_info =
  base :: u32
  sec_cnt :: u32

record hdd_info =
  open_cnt :: c_int
  primary :: "partition_info list"
  logical :: "partition_info list"

record partition_entry =
  indicator :: u8
  start_head :: u8
  start_sector :: u8
  start_cylinder :: u8
  system_id :: u8
  end_head :: u8
  end_sector :: u8
  end_cylinder :: u8
  starting_sector :: u32
  sector_cnt :: u32

record hdd_cmd =
  feature :: u8
  n_sector :: u8
  lba_low :: u8
  lba_mid :: u8
  lba_high :: u8
  device :: u8
  command :: u8

definition MAKE_CMD_DEVICE :: "c_int \<Rightarrow> c_int \<Rightarrow> c_int \<Rightarrow> u8" where
  "MAKE_CMD_DEVICE lba drv lba_highest =
     ucast (push_bit 6 lba OR push_bit 4 drv OR (lba_highest AND 0xf) OR 0xa0)"

section \<open>The driver's state\<close>

datatype hdd_event =
    Outb u16 u8        \<comment> \<open>a byte written to a port\<close>
  | Read_block         \<comment> \<open>a block read from the data port\<close>
  | Write_block "u8 list"   \<comment> \<open>what was written to the data port\<close>
  | Interrupt          \<comment> \<open>the message of a disk interrupt received\<close>

record hdd =
  hk :: kernel
  hd_buf :: addr
  hdd_infos :: "hdd_info list"
  selected :: hdd_cmd
  given :: nat
  tick_reads :: "c_int list"
  status_reads :: "u8 list"
  esi :: "nat \<Rightarrow> addr"
  written :: nat
  trace :: "hdd_event list"

type_synonym controller = "hdd_cmd \<Rightarrow> nat \<Rightarrow> nat \<Rightarrow> u8"

definition mem_of :: "hdd \<Rightarrow> mem" where
  "mem_of h = memory (hk h)"

definition upd_mem :: "(mem \<Rightarrow> mem) \<Rightarrow> hdd \<Rightarrow> hdd" where
  "upd_mem f h = h\<lparr>hk := (hk h)\<lparr>memory := f (memory (hk h))\<rparr>\<rparr>"

text \<open>\<open>hdd_info[drive]\<close>; the array has one element.\<close>

definition drive_index :: "c_int \<Rightarrow> hdd \<Rightarrow> stop + nat" where
  "drive_index drive h =
     (if unat drive < length (hdd_infos h) then Inr (unat drive) else Inl (Out_of_table drive))"

definition upd_info :: "c_int \<Rightarrow> (hdd_info \<Rightarrow> hdd_info) \<Rightarrow> hdd \<Rightarrow> stop + hdd" where
  "upd_info drive f h =
     andThen (drive_index drive h) (\<lambda>i.
       Inr (h\<lparr>hdd_infos := (hdd_infos h)[i := f (hdd_infos h ! i)]\<rparr>))"

text \<open>An element of \<open>primary\<close> or \<open>logical\<close>.\<close>

definition entry_at :: "partition_info list \<Rightarrow> c_int \<Rightarrow> stop + partition_info" where
  "entry_at ps i = (if unat i < length ps then Inr (ps ! unat i) else Inl (Out_of_table i))"

section \<open>Ports\<close>

definition outb :: "u8 \<Rightarrow> u16 \<Rightarrow> hdd \<Rightarrow> hdd" where
  "outb v p h = h\<lparr>trace := trace h @ [Outb p v]\<rparr>"

text \<open>\<open>(get_ticks() - t) * 1000 / HZ\<close>.\<close>

definition elapsed :: "c_int \<Rightarrow> c_int \<Rightarrow> c_int" where
  "elapsed t now = c_div ((now - t) * 1000) 100"

fun get_status_loop :: "u8 \<Rightarrow> u8 \<Rightarrow> c_int \<Rightarrow> c_int \<Rightarrow> c_int list \<Rightarrow> u8 list \<Rightarrow> (bool \<times> c_int list \<times> u8 list) option" where
  "get_status_loop st_mask val timeout t [] ss = None"
| "get_status_loop st_mask val timeout t (now # ts) ss =
     (if elapsed t now <s timeout then
        (case ss of
           [] \<Rightarrow> None
         | s # ss' \<Rightarrow> (if s AND st_mask = val then Some (True, ts, ss')
                     else get_status_loop st_mask val timeout t ts ss'))
      else Some (False, ts, ss))"

definition get_status :: "u8 \<Rightarrow> u8 \<Rightarrow> c_int \<Rightarrow> hdd \<Rightarrow> stop + (bool \<times> hdd)" where
  "get_status st_mask val timeout h =
     (case tick_reads h of
        [] \<Rightarrow> Inl No_return
      | t # ts \<Rightarrow>
          (case get_status_loop st_mask val timeout t ts (status_reads h) of
             None \<Rightarrow> Inl No_return
           | Some (ok, ts', ss') \<Rightarrow> Inr (ok, h\<lparr>tick_reads := ts', status_reads := ss'\<rparr>)))"

definition hdd_cmd_out :: "hdd_cmd \<Rightarrow> hdd \<Rightarrow> stop + hdd" where
  "hdd_cmd_out cmd h =
     andThen (get_status STATUS_BUSY 0 HDD_TIMEOUT h) (\<lambda>(ok, h).
       if \<not> ok then Inl (Critical ''fuck, hard drive always busy'')
       else Inr ((outb (command cmd) HDD_REG_CMD (outb (device cmd) HDD_REG_DEV
              (outb (lba_high cmd) HDD_REG_LBA_HIGH (outb (lba_mid cmd) HDD_REG_LBA_MID
              (outb (lba_low cmd) HDD_REG_LBA_LOW (outb (n_sector cmd) HDD_REG_NSECTOR
              (outb (feature cmd) HDD_REG_FEATURES (outb 0 HDD_REG_DEV_CTRL h))))))))\<lparr>selected := cmd, given := 0\<rparr>))"

text \<open>\<open>read_port(HDD_REG_DATA, buf, length)\<close>: \<open>length >> 1\<close> words from the port.\<close>

definition read_port :: "controller \<Rightarrow> addr \<Rightarrow> u32 \<Rightarrow> hdd \<Rightarrow> hdd" where
  "read_port dev buf len h =
     (let n = 2 * unat (drop_bit 1 len) in
      (upd_mem (\<lambda>m a. if in_block a buf n then dev (selected h) (given h) (unat (a - buf)) else m a) h)
        \<lparr>given := given h + 1, trace := trace h @ [Read_block]\<rparr>)"

text \<open>
  \<open>write_port(HDD_REG_DATA, buf, length)\<close> loads the address into \<open>EDI\<close>, but \<open>outsw\<close> reads
  from \<open>ESI\<close>, which the code does not set: \<open>esi h n\<close> is what the compiled program happens to
  have there at the \<open>n\<close>-th \<open>outsw\<close>.
\<close>

definition write_port :: "addr \<Rightarrow> u32 \<Rightarrow> hdd \<Rightarrow> hdd" where
  "write_port buf len h =
     h\<lparr>written := written h + 1, trace := trace h @
       [Write_block (map (\<lambda>j. mem_of h (esi h (written h) + of_nat j)) [0..<2 * unat (drop_bit 1 len)])]\<rparr>"

text \<open>\<open>send_recv(MSG_RECEIVE, MSG_SOURCE_INTERRUPT, &msg)\<close>.\<close>

definition receive_interrupt :: "hdd \<Rightarrow> hdd" where
  "receive_interrupt h = h\<lparr>trace := trace h @ [Interrupt]\<rparr>"

text \<open>\<open>hdd_interrupt_wait\<close> has an empty body.\<close>

definition hdd_interrupt_wait :: "hdd \<Rightarrow> hdd" where
  "hdd_interrupt_wait h = h"

section \<open>Identification\<close>

text \<open>\<open>junk\<close> is what the registers' fields of the uninitialised local \<open>cmd\<close> hold.\<close>

definition handle_identify :: "controller \<Rightarrow> hdd_cmd \<Rightarrow> c_int \<Rightarrow> hdd \<Rightarrow> stop + hdd" where
  "handle_identify dev junk drive h =
     andThen (hdd_cmd_out (junk\<lparr>device := MAKE_CMD_DEVICE 0 drive 0, command := ATA_IDENTIFY\<rparr>) h) (\<lambda>h.
       let h = read_port dev (hd_buf h) 512 (receive_interrupt h) in
       upd_info drive (\<lambda>f. f\<lparr>primary := (primary f)[0 :=
         \<lparr>base = 0, sec_cnt = push_bit 16 (load16 (mem_of h) (hd_buf h + 122)) + load16 (mem_of h) (hd_buf h + 120)\<rparr>]\<rparr>) h)"

section \<open>Partition tables\<close>

definition load_entry :: "mem \<Rightarrow> addr \<Rightarrow> partition_entry" where
  "load_entry m a =
     \<lparr>indicator = m a, start_head = m (a + 1), start_sector = m (a + 2), start_cylinder = m (a + 3),
      system_id = m (a + 4), end_head = m (a + 5), end_sector = m (a + 6), end_cylinder = m (a + 7),
      starting_sector = load32 m (a + 8), sector_cnt = load32 m (a + 12)\<rparr>"

definition sector_cmd :: "c_int \<Rightarrow> c_int \<Rightarrow> hdd_cmd" where
  "sector_cmd drive sector =
     \<lparr>feature = 0, n_sector = 1, lba_low = ucast (sector AND 0xff),
      lba_mid = ucast (signed_drop_bit 8 sector AND 0xff),
      lba_high = ucast (signed_drop_bit 16 sector AND 0xff),
      device = MAKE_CMD_DEVICE 1 drive (signed_drop_bit 24 sector AND 0xf), command = ATA_READ\<rparr>"

text \<open>The four entries of the table in the sector, copied into the caller's array.\<close>

definition get_partition_table ::
  "controller \<Rightarrow> c_int \<Rightarrow> c_int \<Rightarrow> hdd \<Rightarrow> stop + (partition_entry list \<times> hdd)" where
  "get_partition_table dev drive sector h =
     andThen (hdd_cmd_out (sector_cmd drive sector) h) (\<lambda>h.
       let h = read_port dev (hd_buf h) 512 (receive_interrupt h) in
       Inr (map (\<lambda>i. load_entry (mem_of h) (hd_buf h + PARTITION_TABLE_OFFSET + 16 * of_nat i))
              [0..<NR_PART_PER_DRIVE], h))"

definition set_logical :: "c_int \<Rightarrow> c_int \<Rightarrow> partition_info \<Rightarrow> hdd \<Rightarrow> stop + hdd" where
  "set_logical drive dev_nr p h =
     andThen (drive_index drive h) (\<lambda>n.
     andThen (entry_at (logical (hdd_infos h ! n)) dev_nr) (\<lambda>_.
       upd_info drive (\<lambda>f. f\<lparr>logical := (logical f)[unat dev_nr := p]\<rparr>) h))"

text \<open>
  The \<open>for\<close> loop over the logical partitions of an extended one: each of its sectors has a
  table with the partition and a link to the next sector. The first argument counts the rounds
  left.
\<close>

fun extended_loop ::
  "nat \<Rightarrow> c_int \<Rightarrow> controller \<Rightarrow> c_int \<Rightarrow> c_int \<Rightarrow> c_int \<Rightarrow> c_int \<Rightarrow> hdd \<Rightarrow> stop + hdd" where
  "extended_loop 0 i dev drive extend_base sub_signature next_sub h = Inr h"
| "extended_loop (Suc left) i dev drive extend_base sub_signature next_sub h =
     andThen (get_partition_table dev drive next_sub h) (\<lambda>(tbl, h).
     andThen (set_logical drive (sub_signature + i)
         \<lparr>base = next_sub + starting_sector (tbl ! 0), sec_cnt = sector_cnt (tbl ! 0)\<rparr> h) (\<lambda>h.
       if system_id (tbl ! 1) = NO_PART then Inr h
       else extended_loop left (i + 1) dev drive extend_base sub_signature
              (extend_base + starting_sector (tbl ! 1)) h))"

definition handle_extended :: "controller \<Rightarrow> c_int \<Rightarrow> hdd \<Rightarrow> stop + hdd" where
  "handle_extended dev d h =
     (let drive = DEV_TO_DRV d;
          j = c_mod d NR_PRIM_PER_DRIVE
      in andThen (drive_index drive h) (\<lambda>n.
         andThen (entry_at (primary (hdd_infos h ! n)) j) (\<lambda>p.
           extended_loop NR_SUB_PER_PART 0 dev drive (base p) ((j - 1) * of_nat NR_SUB_PER_PART) (base p) h)))"

text \<open>The \<open>for\<close> loop over the entries of the first sector, from entry \<open>i\<close> on.\<close>

fun primary_loop :: "nat \<Rightarrow> partition_entry list \<Rightarrow> controller \<Rightarrow> c_int \<Rightarrow> c_int \<Rightarrow> hdd \<Rightarrow> stop + hdd" where
  "primary_loop i [] dev drive d h = Inr h"
| "primary_loop i (e # es) dev drive d h =
     (if system_id e = NO_PART then primary_loop (i + 1) es dev drive d h
      else
        andThen (upd_info drive (\<lambda>f. f\<lparr>primary := (primary f)[i + 1 :=
            \<lparr>base = starting_sector e, sec_cnt = sector_cnt e\<rparr>]\<rparr>) h) (\<lambda>h.
        andThen (if system_id e = EXT_PART then handle_extended dev (d + of_nat (i + 1)) h else Inr h)
          (primary_loop (i + 1) es dev drive d)))"

definition handle_primary :: "controller \<Rightarrow> c_int \<Rightarrow> hdd \<Rightarrow> stop + hdd" where
  "handle_primary dev d h =
     (let drive = DEV_TO_DRV d in
      andThen (get_partition_table dev drive drive h) (\<lambda>(tbl, h). primary_loop 0 tbl dev drive d h))"

section \<open>Requests\<close>

definition hdd_open :: "controller \<Rightarrow> hdd_cmd \<Rightarrow> c_int \<Rightarrow> hdd \<Rightarrow> stop + hdd" where
  "hdd_open dev junk d h =
     (let drive = DEV_TO_DRV d in
      andThen (handle_identify dev junk drive h) (\<lambda>h.
      andThen (drive_index drive h) (\<lambda>n.
      let first = (open_cnt (hdd_infos h ! n) = 0) in
      andThen (upd_info drive (\<lambda>f. f\<lparr>open_cnt := open_cnt f + 1\<rparr>) h) (\<lambda>h.
        if first then handle_primary dev (drive * NR_PRIM_PER_DRIVE) h else Inr h))))"

definition hdd_close :: "c_int \<Rightarrow> hdd \<Rightarrow> stop + hdd" where
  "hdd_close d h = upd_info (DEV_TO_DRV d) (\<lambda>f. f\<lparr>open_cnt := open_cnt f - 1\<rparr>) h"

text \<open>The fields of the request, at their offsets in the message.\<close>

definition CNT :: "addr \<Rightarrow> hdd \<Rightarrow> c_int" where "CNT msg h = load32 (mem_of h) (msg + 12)"
definition PROC_NR :: "addr \<Rightarrow> hdd \<Rightarrow> c_int" where "PROC_NR msg h = load32 (mem_of h) (msg + 16)"
definition DEVICE :: "addr \<Rightarrow> hdd \<Rightarrow> c_int" where "DEVICE msg h = load32 (mem_of h) (msg + 20)"
definition POSITION :: "addr \<Rightarrow> hdd \<Rightarrow> 64 word" where
  "POSITION msg h = ucast (load32 (mem_of h) (msg + 24)) OR push_bit 32 (ucast (load32 (mem_of h) (msg + 28)))"
definition BUF :: "addr \<Rightarrow> hdd \<Rightarrow> addr" where "BUF msg h = load32 (mem_of h) (msg + 44)"
definition msg_type :: "addr \<Rightarrow> hdd \<Rightarrow> c_int" where "msg_type msg h = load32 (mem_of h) (msg + 4)"

abbreviation (input) MSG_DEV_OPEN :: c_int where "MSG_DEV_OPEN \<equiv> 1001"
abbreviation (input) MSG_DEV_CLOSE :: c_int where "MSG_DEV_CLOSE \<equiv> 1002"
abbreviation (input) MSG_DEV_READ :: c_int where "MSG_DEV_READ \<equiv> 1003"
abbreviation (input) MSG_DEV_WRITE :: c_int where "MSG_DEV_WRITE \<equiv> 1004"
abbreviation (input) MSG_DEV_IO_CONTROL :: c_int where "MSG_DEV_IO_CONTROL \<equiv> 1005"
abbreviation (input) DIOCTL_GET_GEO :: c_int where "DIOCTL_GET_GEO \<equiv> 1"

text \<open>The partition a minor device number stands for.\<close>

definition partition_of :: "c_int \<Rightarrow> hdd \<Rightarrow> stop + partition_info" where
  "partition_of d h =
     andThen (drive_index (DEV_TO_DRV d) h) (\<lambda>n.
       if d <s MAX_PRIM then entry_at (primary (hdd_infos h ! n)) d
       else entry_at (logical (hdd_infos h ! n)) (c_mod (d - MINOR_hd1a) NR_SUB_PER_DRIVE))"

definition read_write_cmd :: "c_int \<Rightarrow> c_int \<Rightarrow> u32 \<Rightarrow> c_int \<Rightarrow> hdd_cmd" where
  "read_write_cmd type drive sect_num cnt =
     \<lparr>feature = 0, n_sector = ucast (c_div (cnt + SECTOR_SIZE - 1) SECTOR_SIZE),
      lba_low = ucast (sect_num AND 0xff), lba_mid = ucast (drop_bit 8 sect_num AND 0xff),
      lba_high = ucast (drop_bit 16 sect_num AND 0xff),
      device = MAKE_CMD_DEVICE 1 drive (drop_bit 24 sect_num AND 0xff),
      command = (if type = MSG_DEV_READ then ATA_READ else ATA_WRITE)\<rparr>"

text \<open>
  One round of the \<open>while (left)\<close> loop. The type of the request is read again from the message,
  which a transfer can overwrite.
\<close>

definition transfer :: "controller \<Rightarrow> addr \<Rightarrow> addr \<Rightarrow> c_int \<Rightarrow> hdd \<Rightarrow> stop + hdd" where
  "transfer dev msg liner_addr left h =
     (let bytes = (if SECTOR_SIZE <s left then SECTOR_SIZE else left) in
      if msg_type msg h = MSG_DEV_READ then
        (let h = read_port dev (hd_buf h) 512 (hdd_interrupt_wait h) in
         andThen (vir_to_linear (of_nat HDD_TASK) (hd_buf h) (hk h)) (\<lambda>src.
           if bytes <s 0 then Inl (Wild_copy bytes)
           else Inr (upd_mem (memcpy liner_addr src bytes) h)))
      else
        andThen (get_status STATUS_DRQ STATUS_DRQ HDD_TIMEOUT h) (\<lambda>(ok, h).
          if \<not> ok then Inl (Critical ''fuck, hard drive always busy when read/write'')
          else Inr (hdd_interrupt_wait (write_port liner_addr bytes h))))"

partial_function (option) transfer_loop ::
  "controller \<Rightarrow> addr \<Rightarrow> addr \<Rightarrow> c_int \<Rightarrow> hdd \<Rightarrow> (stop + hdd) option" where
  "transfer_loop dev msg liner_addr left h =
     (if left = 0 then Some (Inr h)
      else (case transfer dev msg liner_addr left h of
              Inl e \<Rightarrow> Some (Inl e)
            | Inr h \<Rightarrow> transfer_loop dev msg (liner_addr + 512) (left - SECTOR_SIZE) h))"

definition hdd_read_write :: "controller \<Rightarrow> addr \<Rightarrow> hdd \<Rightarrow> stop + hdd" where
  "hdd_read_write dev msg h =
     (let type = msg_type msg h; d = DEVICE msg h; cnt = CNT msg h in
      andThen (partition_of d h) (\<lambda>p.
      let sect_num = ucast (drop_bit 9 (POSITION msg h)) + base p in
      andThen (hdd_cmd_out (read_write_cmd type (DEV_TO_DRV d) sect_num cnt) h) (\<lambda>h.
      andThen (vir_to_linear (PROC_NR msg h) (BUF msg h) (hk h)) (\<lambda>liner_addr.
        returns_or_stops (transfer_loop dev msg liner_addr cnt h)))))"

text \<open>
  The source of the copy is an element of \<open>hdd_info\<close>; what \<open>vir_to_linear\<close> asserts about it
  does not depend on the address.
\<close>

definition hdd_io_control :: "addr \<Rightarrow> hdd \<Rightarrow> stop + hdd" where
  "hdd_io_control msg h =
     (if CNT msg h = DIOCTL_GET_GEO then
        andThen (vir_to_linear (PROC_NR msg h) (BUF msg h) (hk h)) (\<lambda>dest.
        andThen (vir_to_linear (of_nat HDD_TASK) 0 (hk h)) (\<lambda>_.
        andThen (partition_of (DEVICE msg h) h) (\<lambda>p.
          Inr (upd_mem (\<lambda>m. store32 (dest + 4) (sec_cnt p) (store32 dest (base p) m)) h))))
      else Inr h)"

definition hdd_serve :: "controller \<Rightarrow> hdd_cmd \<Rightarrow> addr \<Rightarrow> hdd \<Rightarrow> stop + hdd" where
  "hdd_serve dev junk msg h =
     (let type = msg_type msg h in
      if type = MSG_DEV_OPEN then hdd_open dev junk (DEVICE msg h) h
      else if type = MSG_DEV_CLOSE then hdd_close (DEVICE msg h) h
      else if type = MSG_DEV_READ \<or> type = MSG_DEV_WRITE then hdd_read_write dev msg h
      else if type = MSG_DEV_IO_CONTROL then hdd_io_control msg h
      else Inl (Critical ''hdd_task''))"

text \<open>The start: at least one drive in the BIOS data area; the table is cleared.\<close>

definition hdd_init :: "hdd \<Rightarrow> stop + hdd" where
  "hdd_init h =
     ASSERT (mem_of h 0x475 \<noteq> 0) ''*drives''
       (Inr (h\<lparr>hdd_infos := [\<lparr>open_cnt = 0, primary = replicate 5 \<lparr>base = 0, sec_cnt = 0\<rparr>,
                              logical = replicate 64 \<lparr>base = 0, sec_cnt = 0\<rparr>\<rparr>]\<rparr>))"

section \<open>The file system task\<close>

definition DEV_MAJOR :: "c_int \<Rightarrow> c_int" where "DEV_MAJOR a = signed_drop_bit 8 a AND 0xff"
definition DEV_MINOR :: "c_int \<Rightarrow> c_int" where "DEV_MINOR a = a AND 0xff"

definition drive_map :: "c_int list" where
  "drive_map = [- 20, - 20, - 20, of_nat HDD_TASK, of_nat CONSOLE_TASK, - 20]"

text \<open>The message, and the task it is sent to.\<close>

definition fs_request :: "addr \<Rightarrow> mem \<Rightarrow> mem \<times> c_int" where
  "fs_request msg m =
     (store32 (msg + 20) (DEV_MINOR ROOT_DEV) (store32 (msg + 4) MSG_DEV_OPEN m),
      drive_map ! unat (DEV_MAJOR ROOT_DEV))"


section \<open>Device numbers\<close>

lemma small_device: "d < 5 \<Longrightarrow> d = 0 \<or> d = 1 \<or> d = 2 \<or> d = 3 \<or> d = 4" for d :: c_int
proof -
  assume "d < 5"
  then have "unat d < 5" by (simp add: word_less_nat_alt)
  then have "unat d \<in> {0, 1, 2, 3, 4}" by auto
  then show ?thesis by (auto simp: word_unat_eq_iff)
qed

lemma DEV_TO_DRV_primary:
  assumes "d < 5"
  shows "DEV_TO_DRV d = 0"
  using small_device [OF assms]
  by (elim disjE) (simp_all add: DEV_TO_DRV_def c_div_def word_sle_eq signed_divide_int_def)

section \<open>Sector numbers in the registers\<close>

text \<open>The sector a command names: 28 bits, the highest four in the device register.\<close>

definition lba_of :: "hdd_cmd \<Rightarrow> u32" where
  "lba_of c = ucast (lba_low c) OR push_bit 8 (ucast (lba_mid c)) OR push_bit 16 (ucast (lba_high c)) OR
     push_bit 24 (ucast (device c) AND 0xf)"

lemma lba_masks: "(0xff :: u32) = mask 8" "(0xf :: u32) = mask 4"
  by (simp_all add: mask_eq_exp_minus_1)

lemma bit_0xa0:
  assumes "bit (0xa0 :: int) n"
  shows "4 \<le> n"
proof (rule ccontr)
  assume "\<not> 4 \<le> n"
  then have "n \<in> {0, 1, 2, 3}" by auto
  then show False using assms by auto
qed

lemma lba_bits:
  assumes "\<And>n. n < 8 \<Longrightarrow> bit (lba_low c) n = bit s n"
    and "\<And>n. n < 8 \<Longrightarrow> bit (lba_mid c) n = bit s (n + 8)"
    and "\<And>n. n < 8 \<Longrightarrow> bit (lba_high c) n = bit s (n + 16)"
    and "\<And>n. n < 4 \<Longrightarrow> bit (device c) n = bit s (n + 24)"
  shows "lba_of c = take_bit 28 (s :: u32)"
proof (rule bit_word_eqI)
  fix n assume "n < LENGTH(32)"
  then consider "n < 8" | "8 \<le> n" "n < 16" | "16 \<le> n" "n < 24" | "24 \<le> n" "n < 28" | "28 \<le> n" "n < 32"
    by fastforce
  then show "bit (lba_of c) n = bit (take_bit 28 s) n"
    unfolding lba_of_def lba_masks
    by cases (use assms(1) [of n] assms(2) [of "n - 8"] assms(3) [of "n - 16"] assms(4) [of "n - 24"]
        in \<open>auto simp: bit_simps dest: bit_imp_le_length\<close>)
qed

lemma bit_MAKE_CMD_DEVICE: "n < 4 \<Longrightarrow> bit (MAKE_CMD_DEVICE lba drv hi) n = bit hi n"
  unfolding MAKE_CMD_DEVICE_def lba_masks by (auto simp: bit_simps dest: bit_0xa0)

lemma lba_of_sector_cmd: "lba_of (sector_cmd drive s) = take_bit 28 s"
  by (rule lba_bits)
    (auto simp: sector_cmd_def bit_MAKE_CMD_DEVICE bit_simps lba_masks add.commute min_def)

lemma lba_of_read_write_cmd: "lba_of (read_write_cmd type drive s cnt) = take_bit 28 s"
  by (rule lba_bits)
    (auto simp: read_write_cmd_def bit_MAKE_CMD_DEVICE bit_simps lba_masks add.commute)


section \<open>Waiting for the controller\<close>

text \<open>
  The loop ends with the first status that matches, provided the clock readings before it are
  in time; it gives up with the first clock reading that is not.
\<close>

lemma get_status_loop_match:
  assumes "length ts = Suc (length ss)" and "\<forall>u\<in>set ts. elapsed t u <s timeout"
    and "\<forall>s\<in>set ss. s AND st_mask \<noteq> val" and "s AND st_mask = val"
  shows "get_status_loop st_mask val timeout t (ts @ ts') (ss @ s # ss') = Some (True, ts', ss')"
  using assms
proof (induction ts arbitrary: ss)
  case (Cons u ts)
  then show ?case by (cases ss) auto
qed simp

lemma get_status_loop_timeout:
  assumes "length ts = length ss" and "\<forall>u\<in>set ts. elapsed t u <s timeout"
    and "\<forall>s\<in>set ss. s AND st_mask \<noteq> val" and "\<not> elapsed t u <s timeout"
  shows "get_status_loop st_mask val timeout t (ts @ u # ts') (ss @ ss') = Some (False, ts', ss')"
  using assms
proof (induction ts arbitrary: ss)
  case (Cons u ts)
  then show ?case by (cases ss) auto
qed simp

text \<open>
  A controller that is never busy for the next \<open>n\<close> commands, while all clock readings lie
  within the time limit of each other.
\<close>

definition quiet :: "nat \<Rightarrow> hdd \<Rightarrow> bool" where
  "quiet n h \<longleftrightarrow> 2 * n \<le> length (tick_reads h) \<and> n \<le> length (status_reads h) \<and>
     (\<forall>t\<in>set (tick_reads h). \<forall>u\<in>set (tick_reads h). elapsed t u <s HDD_TIMEOUT) \<and>
     (\<forall>s\<in>set (status_reads h). s AND STATUS_BUSY = 0)"

lemma quiet_mono: "quiet n h \<Longrightarrow> m \<le> n \<Longrightarrow> quiet m h"
  by (simp add: quiet_def)

text \<open>What the driver has seen of the hardware may change, and a block of its memory.\<close>

definition hw_step :: "hdd \<Rightarrow> hdd \<Rightarrow> bool" where
  "hw_step h h' \<longleftrightarrow> hd_buf h' = hd_buf h \<and> hdd_infos h' = hdd_infos h \<and> esi h' = esi h \<and>
     (\<forall>a. \<not> in_block a (hd_buf h) 512 \<longrightarrow> mem_of h' a = mem_of h a) \<and>
     (\<exists>m. hk h' = (hk h)\<lparr>memory := m\<rparr>)"

lemma hw_step_trans: "hw_step h h1 \<Longrightarrow> hw_step h1 h2 \<Longrightarrow> hw_step h h2"
  by (auto simp: hw_step_def)

definition cmd_bytes :: "hdd_cmd \<Rightarrow> hdd_event list" where
  "cmd_bytes c = [Outb HDD_REG_DEV_CTRL 0, Outb HDD_REG_FEATURES (feature c), Outb HDD_REG_NSECTOR (n_sector c),
     Outb HDD_REG_LBA_LOW (lba_low c), Outb HDD_REG_LBA_MID (lba_mid c), Outb HDD_REG_LBA_HIGH (lba_high c),
     Outb HDD_REG_DEV (device c), Outb HDD_REG_CMD (command c)]"

lemma hdd_cmd_out_quiet:
  assumes "quiet (Suc n) h"
  shows "\<exists>ts ss. hdd_cmd_out cmd h = Inr (h\<lparr>tick_reads := ts, status_reads := ss,
      selected := cmd, given := 0, trace := trace h @ cmd_bytes cmd\<rparr>) \<and>
    quiet n (h\<lparr>tick_reads := ts, status_reads := ss\<rparr>) \<and> set ss \<subseteq> set (status_reads h)"
proof -
  obtain t u ts where ts: "tick_reads h = t # u # ts"
    using assms by (cases "tick_reads h"; cases "tl (tick_reads h)") (auto simp: quiet_def)
  obtain s ss where ss: "status_reads h = s # ss" using assms by (cases "status_reads h") (auto simp: quiet_def)
  have "s AND STATUS_BUSY = 0" "elapsed t u <s HDD_TIMEOUT"
    using assms by (simp_all add: quiet_def ts ss)
  then have "get_status STATUS_BUSY 0 HDD_TIMEOUT h = Inr (True, h\<lparr>tick_reads := ts, status_reads := ss\<rparr>)"
    by (simp add: get_status_def ts ss)
  then have "hdd_cmd_out cmd h = Inr (h\<lparr>tick_reads := ts, status_reads := ss,
      selected := cmd, given := 0, trace := trace h @ cmd_bytes cmd\<rparr>)"
    by (simp add: hdd_cmd_out_def andThen_def outb_def cmd_bytes_def)
  moreover have "quiet n (h\<lparr>tick_reads := ts, status_reads := ss\<rparr>)"
    using assms by (simp add: quiet_def ts ss)
  ultimately show ?thesis using ss by auto
qed

text \<open>A command, its interrupt and its block of data.\<close>

lemma command_block:
  assumes "quiet (Suc n) h"
  shows "\<exists>h1 h'. hdd_cmd_out cmd h = Inr h1 \<and>
    h' = read_port dev (hd_buf h1) 512 (receive_interrupt h1) \<and> quiet n h' \<and> hw_step h h' \<and>
    (\<forall>j<512. mem_of h' (hd_buf h + of_nat j) = dev cmd 0 j) \<and>
    trace h' = trace h @ cmd_bytes cmd @ [Interrupt, Read_block] \<and> hd_buf h1 = hd_buf h"
proof -
  obtain ts ss where c: "hdd_cmd_out cmd h = Inr (h\<lparr>tick_reads := ts, status_reads := ss,
      selected := cmd, given := 0, trace := trace h @ cmd_bytes cmd\<rparr>)"
    "quiet n (h\<lparr>tick_reads := ts, status_reads := ss\<rparr>)"
    using hdd_cmd_out_quiet [OF assms] by blast
  let ?h1 = "h\<lparr>tick_reads := ts, status_reads := ss, selected := cmd, given := 0,
    trace := trace h @ cmd_bytes cmd\<rparr>"
  let ?h' = "read_port dev (hd_buf ?h1) 512 (receive_interrupt ?h1)"
  have n: "2 * unat (drop_bit 1 (512 :: u32)) = 512" by (simp add: drop_bit_eq_div)
  have mem: "mem_of ?h' = (\<lambda>a. if in_block a (hd_buf h) 512 then dev cmd 0 (unat (a - hd_buf h)) else mem_of h a)"
    unfolding read_port_def n by (simp add: mem_of_def upd_mem_def receive_interrupt_def cong: if_cong)
  have "hw_step h ?h'"
    unfolding hw_step_def mem by (auto simp: read_port_def upd_mem_def receive_interrupt_def)
  moreover have "quiet n ?h'"
    using c(2) by (simp add: quiet_def read_port_def upd_mem_def receive_interrupt_def)
  moreover have "\<forall>j<512. mem_of ?h' (hd_buf h + of_nat j) = dev cmd 0 j"
    unfolding mem by (simp add: in_block_def)
  ultimately show ?thesis
    using c(1) by (intro exI [of _ ?h1] exI [of _ ?h'])
      (simp add: read_port_def upd_mem_def receive_interrupt_def)
qed

end
