(* ===== verification/Partitions.thy ===== *)
theory Partitions
  imports Hdd Init
begin

text \<open>
  What \<open>hdd_open\<close> makes of a disk: the partition table of its first sector and the chains of
  logical partitions, read sector by sector into \<open>hdd_info\<close>. The bytes of the disk are taken
  as data here (\<open>entry_of\<close>, \<open>chain_of\<close>), and the driver's loops are shown to compute them.
\<close>

section \<open>Partition tables as data\<close>

text \<open>The bytes of a sector as a partition table.\<close>

definition le32 :: "(nat \<Rightarrow> u8) \<Rightarrow> nat \<Rightarrow> u32" where
  "le32 sec n = ucast (sec n) OR push_bit 8 (ucast (sec (n + 1)))
     OR push_bit 16 (ucast (sec (n + 2))) OR push_bit 24 (ucast (sec (n + 3)))"

definition entry_of :: "(nat \<Rightarrow> u8) \<Rightarrow> nat \<Rightarrow> partition_entry" where
  "entry_of sec i =
     (let b = 446 + 16 * i in
      \<lparr>indicator = sec b, start_head = sec (b + 1), start_sector = sec (b + 2), start_cylinder = sec (b + 3),
       system_id = sec (b + 4), end_head = sec (b + 5), end_sector = sec (b + 6), end_cylinder = sec (b + 7),
       starting_sector = le32 sec (b + 8), sector_cnt = le32 sec (b + 12)\<rparr>)"

lemma load_entry_sector:
  assumes "\<forall>j<512. m (b + of_nat j) = sec j" and "i < 4"
  shows "load_entry m (b + PARTITION_TABLE_OFFSET + 16 * of_nat i) = entry_of sec i"
proof -
  define a where "a = b + PARTITION_TABLE_OFFSET + 16 * of_nat i"
  have at: "m (a + of_nat k) = sec (446 + 16 * i + k)" if "k < 16" for k
  proof -
    have "a + of_nat k = b + of_nat (446 + 16 * i + k)" by (simp add: a_def add.assoc)
    then show ?thesis using assms that by (simp only:)
  qed
  show ?thesis
    using at [of 0] at [of 1] at [of 2] at [of 3] at [of 4] at [of 5] at [of 6] at [of 7] at [of 8]
      at [of 9] at [of 10] at [of 11] at [of 12] at [of 13] at [of 14] at [of 15]
    unfolding a_def [symmetric] by (simp add: load_entry_def entry_of_def load32_def le32_def add.assoc)
qed

lemma get_partition_table_result:
  assumes "quiet (Suc n) h"
  shows "\<exists>h'. get_partition_table dev drive s h =
      Inr (map (entry_of (dev (sector_cmd drive s) 0)) [0..<4], h') \<and>
    quiet n h' \<and> hw_step h h' \<and> trace h' = trace h @ cmd_bytes (sector_cmd drive s) @ [Interrupt, Read_block]"
proof -
  obtain h1 h' where c: "hdd_cmd_out (sector_cmd drive s) h = Inr h1"
    "h' = read_port dev (hd_buf h1) 512 (receive_interrupt h1)" "quiet n h'" "hw_step h h'"
    "\<forall>j<512. mem_of h' (hd_buf h + of_nat j) = dev (sector_cmd drive s) 0 j"
    "trace h' = trace h @ cmd_bytes (sector_cmd drive s) @ [Interrupt, Read_block]"
    using command_block [OF assms, of "sector_cmd drive s"] by blast
  have "hd_buf h' = hd_buf h" using c(4) by (simp add: hw_step_def)
  then have "get_partition_table dev drive s h =
      Inr (map (entry_of (dev (sector_cmd drive s) 0)) [0..<4], h')"
    using load_entry_sector [OF c(5)] c(1)
    by (simp add: get_partition_table_def andThen_def Let_def c(2) [symmetric])
  then show ?thesis using c by blast
qed

text \<open>The chain of logical partitions: a table with the partition and a link to the next table.\<close>

fun chain_of :: "(c_int \<Rightarrow> nat \<Rightarrow> u8) \<Rightarrow> nat \<Rightarrow> c_int \<Rightarrow> c_int \<Rightarrow> partition_info list" where
  "chain_of rd 0 ext s = []"
| "chain_of rd (Suc n) ext s =
     \<lparr>base = s + starting_sector (entry_of (rd s) 0), sec_cnt = sector_cnt (entry_of (rd s) 0)\<rparr> #
     (if system_id (entry_of (rd s) 1) = NO_PART then []
      else chain_of rd n ext (ext + starting_sector (entry_of (rd s) 1)))"

lemma length_chain_of: "length (chain_of rd n ext s) \<le> n"
  by (induction n arbitrary: s) auto

fun overwrite :: "nat \<Rightarrow> 'a list \<Rightarrow> 'a list \<Rightarrow> 'a list" where
  "overwrite n [] ys = ys"
| "overwrite n (x # xs) ys = overwrite (n + 1) xs (ys[n := x])"

lemma length_overwrite [simp]: "length (overwrite n xs ys) = length ys"
  by (induction n xs ys rule: overwrite.induct) auto

lemma overwrite_nth:
  "n + length xs \<le> length ys \<Longrightarrow> j < length ys \<Longrightarrow>
   overwrite n xs ys ! j = (if n \<le> j \<and> j < n + length xs then xs ! (j - n) else ys ! j)"
proof (induction n xs ys rule: overwrite.induct)
  case (2 n x xs ys)
  then show ?case by (cases "j = n") (auto simp: nth_Cons' Suc_diff_Suc)
qed auto

text \<open>A driver with its one drive.\<close>

definition one_drive :: "hdd_info \<Rightarrow> hdd \<Rightarrow> bool" where
  "one_drive f h \<longleftrightarrow> hdd_infos h = [f] \<and> length (primary f) = 5 \<and> length (logical f) = 64"

lemma one_drive_hw_step: "one_drive f h \<Longrightarrow> hw_step h h' \<Longrightarrow> one_drive f h'"
  by (simp add: one_drive_def hw_step_def)

lemma upd_info_one_drive:
  assumes "one_drive f h" and "length (primary (g f)) = 5" and "length (logical (g f)) = 64"
  shows "upd_info 0 g h = Inr (h\<lparr>hdd_infos := [g f]\<rparr>)" and "one_drive (g f) (h\<lparr>hdd_infos := [g f]\<rparr>)"
  using assms by (simp_all add: one_drive_def upd_info_def drive_index_def andThen_def)

lemma quiet_infos [simp]: "quiet n (h\<lparr>hdd_infos := fs\<rparr>) = quiet n h"
  by (simp add: quiet_def)

text \<open>The same, when \<open>hdd_info\<close> has changed too.\<close>

definition moved :: "hdd \<Rightarrow> hdd \<Rightarrow> bool" where
  "moved h h' \<longleftrightarrow> hd_buf h' = hd_buf h \<and> esi h' = esi h \<and>
     (\<forall>a. \<not> in_block a (hd_buf h) 512 \<longrightarrow> mem_of h' a = mem_of h a) \<and>
     (\<exists>m. hk h' = (hk h)\<lparr>memory := m\<rparr>)"

lemma moved_trans: "moved h h1 \<Longrightarrow> moved h1 h2 \<Longrightarrow> moved h h2"
  by (auto simp: moved_def)

lemma moved_refl [simp]: "moved h h"
  unfolding moved_def by (simp add: exI [of _ "memory (hk h)"])

lemma hw_step_moved: "hw_step h h' \<Longrightarrow> moved h h'"
  by (simp add: hw_step_def moved_def)

lemma moved_infos [simp]: "moved h (h'\<lparr>hdd_infos := fs\<rparr>) = moved h h'"
  by (simp add: moved_def mem_of_def)

lemma set_logical_one_drive:
  assumes "one_drive f h" and "unat nr < 64"
  shows "\<exists>h'. set_logical 0 nr p h = Inr h' \<and> one_drive (f\<lparr>logical := (logical f)[unat nr := p]\<rparr>) h' \<and>
    (\<forall>n. quiet n h' = quiet n h) \<and> moved h h'"
proof -
  let ?g = "\<lambda>f. f\<lparr>logical := (logical f)[unat nr := p]\<rparr>"
  have "length (primary (?g f)) = 5" "length (logical (?g f)) = 64" using assms(1) by (simp_all add: one_drive_def)
  note u = upd_info_one_drive [of f h ?g, OF assms(1) this]
  have "set_logical 0 nr p h = upd_info 0 ?g h"
    using assms by (simp add: set_logical_def drive_index_def entry_at_def andThen_def one_drive_def)
  then show ?thesis using u by simp
qed

lemma extended_loop_result:
  "one_drive f h \<Longrightarrow> quiet (left + m) h \<Longrightarrow> s + k + left \<le> 64 \<Longrightarrow>
   \<exists>h'. extended_loop left (of_nat k) dev 0 ext (of_nat s) next h = Inr h' \<and> quiet m h' \<and> moved h h' \<and>
     one_drive (f\<lparr>logical := overwrite (s + k)
       (chain_of (\<lambda>s. dev (sector_cmd 0 s) 0) left ext next) (logical f)\<rparr>) h'"
proof (induction left arbitrary: k "next" f h)
  case 0
  then show ?case by simp
next
  case (Suc left)
  let ?rd = "\<lambda>s. dev (sector_cmd 0 s) 0"
  let ?p = "\<lparr>base = next + starting_sector (entry_of (?rd next) 0), sec_cnt = sector_cnt (entry_of (?rd next) 0)\<rparr>"
  let ?f1 = "f\<lparr>logical := (logical f)[s + k := ?p]\<rparr>"
  obtain h1 where h1: "get_partition_table dev 0 next h = Inr (map (entry_of (?rd next)) [0..<4], h1)"
    "quiet (left + m) h1" "hw_step h h1"
    using get_partition_table_result [of "left + m" h dev 0 "next"] Suc.prems(2) by auto
  have nr: "unat (of_nat s + of_nat k :: u32) = s + k"
    using Suc.prems(3) unat_of_nat_u32 [of "s + k"] by simp
  obtain h2 where h2: "set_logical 0 (of_nat s + of_nat k) ?p h1 = Inr h2" "one_drive ?f1 h2"
    "quiet (left + m) h2" "moved h1 h2"
    using set_logical_one_drive [OF one_drive_hw_step [OF Suc.prems(1) h1(3)], of "of_nat s + of_nat k" ?p]
      h1(2) Suc.prems(3) unfolding nr by auto
  have mv: "moved h h2" using hw_step_moved [OF h1(3)] h2(4) by (rule moved_trans)
  have tbl: "map (entry_of (?rd next)) [0..<4] ! 0 = entry_of (?rd next) 0"
    "map (entry_of (?rd next)) [0..<4] ! 1 = entry_of (?rd next) 1" by (simp_all add: upt_rec)
  show ?case
  proof (cases "system_id (entry_of (?rd next) 1) = NO_PART")
    case True
    then have "extended_loop (Suc left) (of_nat k) dev 0 ext (of_nat s) next h = Inr h2"
      using h1(1) h2(1) tbl by (simp add: andThen_def)
    then show ?thesis using True h2(2,3) mv quiet_mono [OF h2(3)] by auto
  next
    case False
    have k1: "(of_nat k + 1 :: c_int) = of_nat (k + 1)" by simp
    let ?next = "ext + starting_sector (entry_of (?rd next) 1)"
    obtain h' where h': "extended_loop left (of_nat (k + 1)) dev 0 ext (of_nat s) ?next h2 = Inr h'" "quiet m h'"
      "moved h2 h'" "one_drive (?f1\<lparr>logical := overwrite (s + (k + 1)) (chain_of ?rd left ext ?next) (logical ?f1)\<rparr>) h'"
      using Suc.IH [OF h2(2,3), of "k + 1" ?next] Suc.prems(3) by auto
    have "extended_loop (Suc left) (of_nat k) dev 0 ext (of_nat s) next h = Inr h'"
      using h1(1) h2(1) tbl False h'(1) by (simp add: andThen_def add.commute)
    then show ?thesis using False h'(2,4) moved_trans [OF mv h'(3)] by auto
  qed
qed

lemma extended_index:
  assumes "i < 4"
  shows "DEV_TO_DRV (1 + of_nat i) = 0" and "c_mod (1 + of_nat i) NR_PRIM_PER_DRIVE = 1 + of_nat i"
    and "unat (1 + of_nat i :: c_int) = i + 1"
proof -
  have i: "i = 0 \<or> i = 1 \<or> i = 2 \<or> i = 3" using assms by linarith
  show "unat (1 + of_nat i :: c_int) = i + 1" using i by auto
  show "DEV_TO_DRV (1 + of_nat i) = 0" using i by (intro DEV_TO_DRV_primary) auto
  show "c_mod (1 + of_nat i) NR_PRIM_PER_DRIVE = 1 + of_nat i"
    using i by (elim disjE) (simp_all add: c_mod_def signed_modulo_int_def)
qed

lemma handle_extended_result:
  assumes "one_drive f h" and "quiet (16 + m) h" and "i < 4" and b: "b = base (primary f ! (i + 1))"
  shows "\<exists>h'. handle_extended dev (1 + of_nat i) h = Inr h' \<and> quiet m h' \<and> moved h h' \<and>
    one_drive (f\<lparr>logical := overwrite (16 * i) (chain_of (\<lambda>s. dev (sector_cmd 0 s) 0) 16 b b) (logical f)\<rparr>) h'"
proof -
  have "handle_extended dev (1 + of_nat i) h =
      extended_loop 16 (of_nat 0) dev 0 b (of_nat (16 * i)) b h"
    using assms(1,3) b unfolding handle_extended_def Let_def extended_index [OF assms(3)]
    by (simp add: one_drive_def drive_index_def entry_at_def andThen_def extended_index ac_simps)
  then show ?thesis
    using extended_loop_result [OF assms(1,2), of "16 * i" 0 dev b b] assms(3) by simp
qed

definition fill_entry :: "(c_int \<Rightarrow> nat \<Rightarrow> u8) \<Rightarrow> nat \<Rightarrow> partition_entry \<Rightarrow> hdd_info \<Rightarrow> hdd_info" where
  "fill_entry rd i e f =
     (if system_id e = NO_PART then f
      else let f1 = f\<lparr>primary := (primary f)[i + 1 := \<lparr>base = starting_sector e, sec_cnt = sector_cnt e\<rparr>]\<rparr> in
        if system_id e = EXT_PART
        then f1\<lparr>logical := overwrite (16 * i) (chain_of rd 16 (starting_sector e) (starting_sector e)) (logical f1)\<rparr>
        else f1)"

fun fill_primary :: "(c_int \<Rightarrow> nat \<Rightarrow> u8) \<Rightarrow> nat \<Rightarrow> partition_entry list \<Rightarrow> hdd_info \<Rightarrow> hdd_info" where
  "fill_primary rd i [] f = f"
| "fill_primary rd i (e # es) f = fill_primary rd (i + 1) es (fill_entry rd i e f)"

lemma primary_loop_result:
  "one_drive f h \<Longrightarrow> quiet (16 * length es + m) h \<Longrightarrow> i + length es \<le> 4 \<Longrightarrow>
   \<exists>h'. primary_loop i es dev 0 0 h = Inr h' \<and> quiet m h' \<and> moved h h' \<and>
     one_drive (fill_primary (\<lambda>s. dev (sector_cmd 0 s) 0) i es f) h'"
proof (induction es arbitrary: i f h)
  case Nil
  then show ?case by auto
next
  case (Cons e es)
  let ?rd = "\<lambda>s. dev (sector_cmd 0 s) 0"
  have i: "i < 4" using Cons.prems(3) by simp
  show ?case
  proof (cases "system_id e = NO_PART")
    case True
    have "quiet (16 * length es + m) h" using Cons.prems(2) by (rule quiet_mono) simp
    from Cons.IH [OF Cons.prems(1) this, of "i + 1"] show ?thesis
      using True Cons.prems(3) by (simp add: fill_entry_def)
  next
    case False
    let ?p = "\<lparr>base = starting_sector e, sec_cnt = sector_cnt e\<rparr>"
    let ?g = "\<lambda>f. f\<lparr>primary := (primary f)[i + 1 := ?p]\<rparr>"
    have "length (primary (?g f)) = 5" "length (logical (?g f)) = 64"
      using Cons.prems(1) by (simp_all add: one_drive_def)
    note u = upd_info_one_drive [of f h ?g, OF Cons.prems(1) this]
    let ?h1 = "h\<lparr>hdd_infos := [?g f]\<rparr>"
    have b: "base (primary (?g f) ! (i + 1)) = starting_sector e"
      using Cons.prems(1) i by (simp add: one_drive_def)
    have q: "quiet (16 + (16 * length es + m)) ?h1" using Cons.prems(2) by (simp add: add.assoc)
    show ?thesis
    proof (cases "system_id e = EXT_PART")
      case True
      let ?f2 = "(?g f)\<lparr>logical := overwrite (16 * i)
        (chain_of ?rd 16 (starting_sector e) (starting_sector e)) (logical (?g f))\<rparr>"
      obtain h2 where h2: "handle_extended dev (1 + of_nat i) ?h1 = Inr h2" "quiet (16 * length es + m) h2"
        "moved ?h1 h2" "one_drive ?f2 h2"
        using handle_extended_result [OF u(2) q i b [symmetric], of dev] by blast
      obtain h' where h': "primary_loop (i + 1) es dev 0 0 h2 = Inr h'" "quiet m h'" "moved h2 h'"
        "one_drive (fill_primary ?rd (i + 1) es ?f2) h'"
        using Cons.IH [OF h2(4,2), of "i + 1"] Cons.prems(3) by auto
      have "primary_loop i (e # es) dev 0 0 h = Inr h'"
        using False True u(1) h2(1) h'(1) by (simp add: andThen_def)
      moreover have "moved h h2" using h2(3) by (simp add: moved_def mem_of_def)
      ultimately show ?thesis using False True h'(2,4) moved_trans [OF _ h'(3)] by (auto simp: fill_entry_def Let_def)
    next
      case no_ext: False
      obtain h' where h': "primary_loop (i + 1) es dev 0 0 ?h1 = Inr h'" "quiet m h'" "moved ?h1 h'"
        "one_drive (fill_primary ?rd (i + 1) es (?g f)) h'"
        using Cons.IH [OF u(2) quiet_mono [OF q], of "i + 1"] Cons.prems(3) by auto
      have "primary_loop i (e # es) dev 0 0 h = Inr h'"
        using False no_ext u(1) h'(1) by (simp add: andThen_def)
      moreover have "moved h h'" using h'(3) by (simp add: moved_def mem_of_def)
      ultimately show ?thesis using False no_ext h'(2,4) by (auto simp: fill_entry_def Let_def)
    qed
  qed
qed

lemma length_fill_entry [simp]:
  "length (primary (fill_entry rd i e f)) = length (primary f)"
  "length (logical (fill_entry rd i e f)) = length (logical f)"
  by (simp_all add: fill_entry_def Let_def)

lemma fill_entry_primary:
  assumes "length (primary f) = 5" and "i < 4"
  shows "primary (fill_entry rd i e f) ! j =
    (if j = i + 1 \<and> system_id e \<noteq> NO_PART then \<lparr>base = starting_sector e, sec_cnt = sector_cnt e\<rparr>
     else primary f ! j)"
  using assms by (simp add: fill_entry_def Let_def nth_list_update)

lemma fill_entry_logical:
  assumes "length (logical f) = 64" and "i < 4" and "l < 64"
  shows "logical (fill_entry rd i e f) ! l =
    (let c = chain_of rd 16 (starting_sector e) (starting_sector e) in
     if system_id e = EXT_PART \<and> 16 * i \<le> l \<and> l < 16 * i + length c then c ! (l - 16 * i) else logical f ! l)"
proof -
  have "16 * i + length (chain_of rd 16 (starting_sector e) (starting_sector e)) \<le> 64"
    using length_chain_of [of rd 16 "starting_sector e" "starting_sector e"] assms(2) by linarith
  then show ?thesis using assms by (simp add: fill_entry_def Let_def overwrite_nth)
qed

lemma fill_primary_before:
  "length (primary f) = 5 \<Longrightarrow> i + length es \<le> 4 \<Longrightarrow> j \<le> i \<Longrightarrow>
   primary (fill_primary rd i es f) ! j = primary f ! j"
  by (induction es arbitrary: i f) (simp_all add: fill_entry_primary)

lemma fill_logical_before:
  "length (logical f) = 64 \<Longrightarrow> i + length es \<le> 4 \<Longrightarrow> l < 16 * i \<Longrightarrow>
   logical (fill_primary rd i es f) ! l = logical f ! l"
  by (induction es arbitrary: i f) (simp_all add: fill_entry_logical Let_def)

lemma fill_primary_nth:
  "length (primary f) = 5 \<Longrightarrow> i + length es \<le> 4 \<Longrightarrow> j < length es \<Longrightarrow>
   primary (fill_primary rd i es f) ! (i + j + 1) =
     (if system_id (es ! j) = NO_PART then primary f ! (i + j + 1)
      else \<lparr>base = starting_sector (es ! j), sec_cnt = sector_cnt (es ! j)\<rparr>)"
proof (induction es arbitrary: i j f)
  case (Cons e es)
  show ?case
  proof (cases j)
    case 0
    then show ?thesis
      using fill_primary_before [of "fill_entry rd i e f" "i + 1" es "i + 1" rd] Cons.prems(1,2)
      by (simp add: fill_entry_primary)
  next
    case (Suc j')
    then show ?thesis
      using Cons.IH [of "fill_entry rd i e f" "i + 1" j'] Cons.prems by (simp add: fill_entry_primary)
  qed
qed simp

lemma fill_logical_nth:
  "length (logical f) = 64 \<Longrightarrow> i + length es \<le> 4 \<Longrightarrow> j < length es \<Longrightarrow> n < 16 \<Longrightarrow>
   logical (fill_primary rd i es f) ! (16 * (i + j) + n) =
     (let c = chain_of rd 16 (starting_sector (es ! j)) (starting_sector (es ! j)) in
      if system_id (es ! j) = EXT_PART \<and> n < length c then c ! n else logical f ! (16 * (i + j) + n))"
proof (induction es arbitrary: i j f)
  case (Cons e es)
  show ?case
  proof (cases j)
    case 0
    then show ?thesis
      using fill_logical_before [of "fill_entry rd i e f" "i + 1" es "16 * i + n" rd] Cons.prems(1,2,4)
      by (simp add: fill_entry_logical Let_def)
  next
    case (Suc j')
    let ?c = "chain_of rd 16 (starting_sector e) (starting_sector e)"
    have "length ?c \<le> 16" by (rule length_chain_of)
    then have "logical (fill_entry rd i e f) ! (16 * (i + j) + n) = logical f ! (16 * (i + j) + n)"
      using Cons.prems Suc by (subst fill_entry_logical) (simp_all add: Let_def)
    then show ?thesis
      using Cons.IH [of "fill_entry rd i e f" "i + 1" j'] Cons.prems Suc by (simp add: Let_def)
  qed
qed simp


section \<open>Opening a drive\<close>

definition identify_cmd :: "hdd_cmd \<Rightarrow> hdd_cmd" where
  "identify_cmd junk = junk\<lparr>device := MAKE_CMD_DEVICE 0 0 0, command := ATA_IDENTIFY\<rparr>"

text \<open>The number of sectors in the identification block: its words 60 and 61.\<close>

definition size_of :: "(nat \<Rightarrow> u8) \<Rightarrow> u32" where
  "size_of sec = push_bit 16 (ucast (sec 122) OR push_bit 8 (ucast (sec 123))) +
     (ucast (sec 120) OR push_bit 8 (ucast (sec 121)))"

definition identified :: "controller \<Rightarrow> hdd_cmd \<Rightarrow> hdd_info \<Rightarrow> hdd_info" where
  "identified dev junk f = f\<lparr>primary := (primary f)[0 :=
     \<lparr>base = 0, sec_cnt = size_of (dev (identify_cmd junk) 0)\<rparr>]\<rparr>"

lemma identified_simps [simp]:
  "length (primary (identified dev junk f)) = length (primary f)"
  "logical (identified dev junk f) = logical f" "open_cnt (identified dev junk f) = open_cnt f"
  by (simp_all add: identified_def)

lemma handle_identify_result:
  assumes "one_drive f h" and "quiet (Suc n) h"
  shows "\<exists>h'. handle_identify dev junk 0 h = Inr h' \<and> one_drive (identified dev junk f) h' \<and>
    quiet n h' \<and> moved h h'"
proof -
  obtain h1 h2 where c: "hdd_cmd_out (identify_cmd junk) h = Inr h1"
    "h2 = read_port dev (hd_buf h1) 512 (receive_interrupt h1)" "quiet n h2" "hw_step h h2"
    "\<forall>j<512. mem_of h2 (hd_buf h + of_nat j) = dev (identify_cmd junk) 0 j"
    using command_block [OF assms(2), of "identify_cmd junk"] by blast
  have buf: "hd_buf h2 = hd_buf h" using c(4) by (simp add: hw_step_def)
  have size: "push_bit 16 (load16 (mem_of h2) (hd_buf h + 122)) + load16 (mem_of h2) (hd_buf h + 120) =
      size_of (dev (identify_cmd junk) 0)"
    using c(5) [rule_format, of 120] c(5) [rule_format, of 121] c(5) [rule_format, of 122]
      c(5) [rule_format, of 123] by (simp add: load16_def size_of_def add.assoc)
  have one: "one_drive f h2" by (rule one_drive_hw_step [OF assms(1) c(4)])
  have "length (primary (identified dev junk f)) = 5" "length (logical (identified dev junk f)) = 64"
    using assms(1) by (simp_all add: one_drive_def)
  note u = upd_info_one_drive [of f h2 "identified dev junk", OF one this]
  have "handle_identify dev junk 0 h = upd_info 0 (identified dev junk) h2"
    unfolding handle_identify_def identify_cmd_def [symmetric] c(1)
    by (simp add: andThen_def Let_def c(2) [symmetric] buf size identified_def [abs_def])
  then show ?thesis using u c(3) hw_step_moved [OF c(4)] by simp
qed

text \<open>What \<open>hdd_info\<close> holds after the first opening.\<close>

definition opened :: "controller \<Rightarrow> hdd_cmd \<Rightarrow> hdd_info \<Rightarrow> hdd_info" where
  "opened dev junk f =
     (let rd = (\<lambda>s. dev (sector_cmd 0 s) 0) in
      fill_primary rd 0 (map (entry_of (rd 0)) [0..<4]) ((identified dev junk f)\<lparr>open_cnt := 1\<rparr>))"

lemma hdd_open_first:
  assumes "one_drive f h" and "quiet 66 h" and "open_cnt f = 0" and "DEV_TO_DRV d = 0"
  shows "\<exists>h'. hdd_open dev junk d h = Inr h' \<and> one_drive (opened dev junk f) h' \<and> moved h h'"
proof -
  let ?g = "\<lambda>f. f\<lparr>open_cnt := open_cnt f + 1\<rparr>" and ?rd = "\<lambda>s. dev (sector_cmd 0 s) 0"
  have "quiet (Suc 65) h" using assms(2) by (simp add: numeral_eq_Suc)
  then obtain h1 where h1: "handle_identify dev junk 0 h = Inr h1" "one_drive (identified dev junk f) h1"
    "quiet 65 h1" "moved h h1"
    using handle_identify_result [OF assms(1)] by blast
  let ?f1 = "?g (identified dev junk f)"
  have "length (primary ?f1) = 5" "length (logical ?f1) = 64" using assms(1) by (simp_all add: one_drive_def)
  note u = upd_info_one_drive [of _ _ ?g, OF h1(2) this]
  let ?h2 = "h1\<lparr>hdd_infos := [?f1]\<rparr>"
  have "quiet (Suc 64) ?h2" using h1(3) by (simp add: numeral_eq_Suc)
  then obtain h3 where h3: "get_partition_table dev 0 0 ?h2 = Inr (map (entry_of (?rd 0)) [0..<4], h3)"
    "quiet 64 h3" "hw_step ?h2 h3"
    using get_partition_table_result [of 64 ?h2 dev 0 0] by auto
  have q: "quiet (16 * length (map (entry_of (?rd 0)) [0..<4]) + 0) h3" using h3(2) by simp
  have four: "0 + length (map (entry_of (?rd 0)) [0..<4]) \<le> 4" by simp
  obtain h' where h': "primary_loop 0 (map (entry_of (?rd 0)) [0..<4]) dev 0 0 h3 = Inr h'" "moved h3 h'"
    "one_drive (fill_primary ?rd 0 (map (entry_of (?rd 0)) [0..<4]) ?f1) h'"
    using primary_loop_result [OF one_drive_hw_step [OF u(2) h3(3)] q four, of dev] by blast
  have "DEV_TO_DRV 0 = 0" by (rule DEV_TO_DRV_primary) simp
  then have "handle_primary dev 0 ?h2 = Inr h'"
    using h3(1) h'(1) by (simp add: handle_primary_def andThen_def)
  moreover have "drive_index 0 h1 = Inr 0" "hdd_infos h1 = [identified dev junk f]"
    using h1(2) by (simp_all add: drive_index_def one_drive_def)
  ultimately have "hdd_open dev junk d h = Inr h'"
    using h1(1) u(1) assms(3,4) by (simp add: hdd_open_def andThen_def Let_def)
  moreover have "moved ?h2 h'" by (rule moved_trans [OF hw_step_moved [OF h3(3)] h'(2)])
  then have "moved h1 h'" by (simp add: moved_def mem_of_def)
  moreover have "?f1 = (identified dev junk f)\<lparr>open_cnt := 1\<rparr>" using assms(3) by simp
  ultimately show ?thesis
    using h'(3) moved_trans [OF h1(4)] by (simp add: opened_def Let_def)
qed

text \<open>Opening it again only counts.\<close>

lemma hdd_open_again:
  assumes "one_drive f h" and "quiet 1 h" and "open_cnt f \<noteq> 0" and "DEV_TO_DRV d = 0"
  shows "\<exists>h'. hdd_open dev junk d h = Inr h' \<and>
    one_drive ((identified dev junk f)\<lparr>open_cnt := open_cnt f + 1\<rparr>) h' \<and> moved h h'"
proof -
  let ?g = "\<lambda>f. f\<lparr>open_cnt := open_cnt f + 1\<rparr>"
  obtain h1 where h1: "handle_identify dev junk 0 h = Inr h1" "one_drive (identified dev junk f) h1" "moved h h1"
    using handle_identify_result [OF assms(1), of 0 dev junk] assms(2) by auto
  have "length (primary (?g (identified dev junk f))) = 5" "length (logical (?g (identified dev junk f))) = 64"
    using assms(1) by (simp_all add: one_drive_def)
  note u = upd_info_one_drive [of _ _ ?g, OF h1(2) this]
  have "drive_index 0 h1 = Inr 0" "hdd_infos h1 = [identified dev junk f]"
    using h1(2) by (simp_all add: drive_index_def one_drive_def)
  then show ?thesis
    using h1(1,3) u assms(3,4) by (simp add: hdd_open_def andThen_def Let_def)
qed


section \<open>A disk\<close>

text \<open>
  What a controller does with a read command for its first drive: it gives as many blocks as
  the register for the number of sectors says, and they are the sectors of the disk, from the
  one the registers name on. Each is there when the driver reads it: \<open>handle_identify\<close> and
  \<open>get_partition_table\<close> wait for the interrupt, \<open>hdd_read_write\<close> does not.
\<close>

definition serves :: "controller \<Rightarrow> (u32 \<Rightarrow> nat \<Rightarrow> u8) \<Rightarrow> bool" where
  "serves dev disk \<longleftrightarrow> (\<forall>c n j. command c = ATA_READ \<and> \<not> bit (device c) 4 \<and> n < unat (n_sector c) \<and> j < 512 \<longrightarrow>
     dev c n j = disk (lba_of c + of_nat n) j)"

lemma drive_bit_0: "\<not> bit (MAKE_CMD_DEVICE 1 0 x) 4"
proof -
  have "\<not> bit (160 :: int) 4" by simp
  then show ?thesis unfolding MAKE_CMD_DEVICE_def lba_masks by (simp add: bit_simps)
qed

lemma serves_sector: "serves dev disk \<Longrightarrow> j < 512 \<Longrightarrow> dev (sector_cmd 0 s) 0 j = disk (take_bit 28 s) j"
  using drive_bit_0 by (auto simp: serves_def sector_cmd_def lba_of_sector_cmd [unfolded sector_cmd_def])

lemma entry_of_cong: "(\<And>j. j < 512 \<Longrightarrow> sec j = sec' j) \<Longrightarrow> i < 4 \<Longrightarrow> entry_of sec i = entry_of sec' i"
  by (simp add: entry_of_def le32_def Let_def)

lemma chain_of_cong:
  assumes "\<And>s i. i < 4 \<Longrightarrow> entry_of (rd s) i = entry_of (rd' s) i"
  shows "chain_of rd n ext s = chain_of rd' n ext s"
  by (induction n arbitrary: s) (simp_all add: assms)

text \<open>The chain of the extended partition that starts at sector \<open>s\<close>.\<close>

definition logical_partitions :: "(u32 \<Rightarrow> nat \<Rightarrow> u8) \<Rightarrow> u32 \<Rightarrow> partition_info list" where
  "logical_partitions disk s = chain_of (\<lambda>s. disk (take_bit 28 s)) 16 s s"

lemma serves_entries:
  assumes "serves dev disk"
  shows "i < 4 \<Longrightarrow> entry_of (dev (sector_cmd 0 s) 0) i = entry_of (disk (take_bit 28 s)) i"
    and "chain_of (\<lambda>s. dev (sector_cmd 0 s) 0) 16 s s = logical_partitions disk s"
proof -
  show e: "i < 4 \<Longrightarrow> entry_of (dev (sector_cmd 0 s) 0) i = entry_of (disk (take_bit 28 s)) i" for s i
    using serves_sector [OF assms] by (intro entry_of_cong)
  show "chain_of (\<lambda>s. dev (sector_cmd 0 s) 0) 16 s s = logical_partitions disk s"
    unfolding logical_partitions_def by (rule chain_of_cong) (rule e)
qed

lemma open_cnt_fill [simp]: "open_cnt (fill_primary rd i es f) = open_cnt f"
  by (induction es arbitrary: i f) (simp_all add: fill_entry_def Let_def)

lemma opened_table:
  assumes "serves dev disk" and "length (primary f) = 5" and "length (logical f) = 64" and "i < 4"
  defines "e \<equiv> entry_of (disk 0) i"
  shows "primary (opened dev junk f) ! (i + 1) = (if system_id e = NO_PART then primary f ! (i + 1)
      else \<lparr>base = starting_sector e, sec_cnt = sector_cnt e\<rparr>)"
    and "n < 16 \<Longrightarrow> logical (opened dev junk f) ! (16 * i + n) =
      (if system_id e = EXT_PART \<and> n < length (logical_partitions disk (starting_sector e))
       then logical_partitions disk (starting_sector e) ! n else logical f ! (16 * i + n))"
    and "open_cnt (opened dev junk f) = 1"
    and "sec_cnt (primary (opened dev junk f) ! 0) = size_of (dev (identify_cmd junk) 0)"
proof -
  let ?f = "(identified dev junk f)\<lparr>open_cnt := 1\<rparr>" and ?rd = "\<lambda>s. dev (sector_cmd 0 s) 0"
  let ?es = "map (entry_of (?rd 0)) [0..<4]"
  have len: "length (primary ?f) = 5" "length (logical ?f) = 64" "0 + length ?es \<le> 4" "i < length ?es"
    using assms(2-4) by simp_all
  have e: "?es ! i = e" using serves_entries(1) [OF assms(1,4)] assms(4) by (simp add: e_def)
  have same: "primary ?f ! (i + 1) = primary f ! (i + 1)" "logical ?f = logical f"
    by (simp_all add: identified_def)
  show "primary (opened dev junk f) ! (i + 1) = (if system_id e = NO_PART then primary f ! (i + 1)
      else \<lparr>base = starting_sector e, sec_cnt = sector_cnt e\<rparr>)"
    using fill_primary_nth [OF len(1,3,4), of ?rd] same unfolding e by (simp add: opened_def)
  show "logical (opened dev junk f) ! (16 * i + n) =
      (if system_id e = EXT_PART \<and> n < length (logical_partitions disk (starting_sector e))
       then logical_partitions disk (starting_sector e) ! n else logical f ! (16 * i + n))" if "n < 16"
    using fill_logical_nth [OF len(2,3,4) that, of ?rd] same
    unfolding e serves_entries(2) [OF assms(1)] by (simp add: opened_def Let_def)
  show "open_cnt (opened dev junk f) = 1" by (simp add: opened_def)
  show "sec_cnt (primary (opened dev junk f) ! 0) = size_of (dev (identify_cmd junk) 0)"
    using fill_primary_before [OF len(1,3), of 0 ?rd] assms(2) by (simp add: opened_def identified_def)
qed

section \<open>Properties\<close>

text \<open>
  C23. Opening a drive for the first time returns, if the controller is never busy, and leaves
  in \<open>hdd_info\<close> what the disk says: the size from the identification block, each used entry
  of the partition table in sector 0, and for each extended partition the chain of its logical
  partitions (at most 16), found by following the links. Unused entries and the places behind
  the end of a chain stay as they were, and no memory outside the driver's buffer changes.
\<close>

theorem hdd_open_reads_partitions:
  assumes "one_drive f h" and "quiet 66 h" and "open_cnt f = 0" and "DEV_TO_DRV d = 0" and "serves dev disk"
  shows "\<exists>h' f'. hdd_open dev junk d h = Inr h' \<and> one_drive f' h' \<and> open_cnt f' = 1 \<and>
    sec_cnt (primary f' ! 0) = size_of (dev (identify_cmd junk) 0) \<and>
    (\<forall>i<4. let e = entry_of (disk 0) i in
       primary f' ! (i + 1) = (if system_id e = NO_PART then primary f ! (i + 1)
         else \<lparr>base = starting_sector e, sec_cnt = sector_cnt e\<rparr>)) \<and>
    (\<forall>i<4. \<forall>n<16. let e = entry_of (disk 0) i; c = logical_partitions disk (starting_sector e) in
       logical f' ! (16 * i + n) = (if system_id e = EXT_PART \<and> n < length c then c ! n
         else logical f ! (16 * i + n))) \<and>
    (\<forall>a. \<not> in_block a (hd_buf h) 512 \<longrightarrow> mem_of h' a = mem_of h a)"
proof -
  obtain h' where h': "hdd_open dev junk d h = Inr h'" "one_drive (opened dev junk f) h'" "moved h h'"
    using hdd_open_first [OF assms(1-4)] by blast
  have len: "length (primary f) = 5" "length (logical f) = 64" using assms(1) by (simp_all add: one_drive_def)
  note t = opened_table [OF assms(5) len]
  show ?thesis
    using h' t(1,2) t(3,4) [of 0] by (intro exI [of _ h'] exI [of _ "opened dev junk f"]) (simp add: moved_def Let_def)
qed

text \<open>
  A disk with one ordinary partition and one extended partition that holds one logical one,
  its controller, and a driver in front of it.
\<close>

definition sample_disk :: "u32 \<Rightarrow> nat \<Rightarrow> u8" where
  "sample_disk s =
     (if s = 0 then (\<lambda>_. 0)(450 := 0x83, 454 := 63, 458 := 100, 466 := 5, 470 := 200, 474 := 250)
      else if s = 200 then (\<lambda>_. 0)(450 := 0x83, 454 := 1, 458 := 50)
      else (\<lambda>j. ucast s + of_nat j))"

definition sample_controller :: controller where
  "sample_controller c n j = sample_disk (lba_of c + of_nat n) j"

definition sample_cmd :: hdd_cmd where
  "sample_cmd = \<lparr>feature = 0, n_sector = 0, lba_low = 0, lba_mid = 0, lba_high = 0, device = 0, command = 0\<rparr>"

definition sample_info :: hdd_info where
  "sample_info = \<lparr>open_cnt = 0, primary = replicate 5 \<lparr>base = 0, sec_cnt = 0\<rparr>,
     logical = replicate 64 \<lparr>base = 0, sec_cnt = 0\<rparr>\<rparr>"

definition sample_hdd :: "hdd_info \<Rightarrow> mem \<Rightarrow> hdd" where
  "sample_hdd f m = \<lparr>hk = sample_boot\<lparr>memory := m\<rparr>, hd_buf = 0x40000, hdd_infos = [f], selected = sample_cmd,
     given = 0, tick_reads = replicate 132 0, status_reads = replicate 66 0, esi = (\<lambda>n. 0x30000 + 512 * of_nat n), written = 0, trace = []\<rparr>"

lemma sample_serves: "serves sample_controller sample_disk"
  by (simp add: serves_def sample_controller_def)

lemma sample_one_drive: "length (primary f) = 5 \<Longrightarrow> length (logical f) = 64 \<Longrightarrow> one_drive f (sample_hdd f m)"
  by (simp add: one_drive_def sample_hdd_def)

lemma sample_quiet: "quiet 66 (sample_hdd f m)"
  by (simp add: quiet_def sample_hdd_def elapsed_def c_div_def word_sless_alt)

lemma root_device: "DEV_TO_DRV 0x20 = 0"
  by (simp add: DEV_TO_DRV_def c_div_def signed_divide_int_def word_sle_eq)

theorem hdd_open_reads_partitions_witness:
  "\<exists>h' f'. hdd_open sample_controller sample_cmd 0x20 (sample_hdd sample_info (\<lambda>_. 0)) = Inr h' \<and>
     one_drive f' h' \<and> primary f' ! 1 = \<lparr>base = 63, sec_cnt = 100\<rparr> \<and>
     logical f' ! 16 = \<lparr>base = 201, sec_cnt = 50\<rparr>"
proof -
  have one: "one_drive sample_info (sample_hdd sample_info (\<lambda>_. 0))"
    by (rule sample_one_drive) (simp_all add: sample_info_def)
  have e: "system_id (entry_of (sample_disk 0) 1) = 5" "starting_sector (entry_of (sample_disk 0) 1) = 200"
    by (simp_all add: entry_of_def sample_disk_def le32_def)
  have "starting_sector (entry_of (sample_disk 200) 0) = 1" "sector_cnt (entry_of (sample_disk 200) 0) = 50"
    "system_id (entry_of (sample_disk 200) 1) = NO_PART"
    by (simp_all add: entry_of_def sample_disk_def le32_def)
  moreover have "take_bit 28 (200 :: u32) = 200" by (simp add: take_bit_eq_mod)
  moreover have "chain_of rd 16 s s = chain_of rd (Suc 15) s s" for rd s by simp
  ultimately have c: "logical_partitions sample_disk 200 = [\<lparr>base = 201, sec_cnt = 50\<rparr>]"
    unfolding logical_partitions_def by (simp only: chain_of.simps if_True) simp
  obtain h' f' where *: "hdd_open sample_controller sample_cmd 0x20 (sample_hdd sample_info (\<lambda>_. 0)) = Inr h'" "one_drive f' h'"
    "\<forall>i<4. let e = entry_of (sample_disk 0) i in
       primary f' ! (i + 1) = (if system_id e = NO_PART then primary sample_info ! (i + 1)
         else \<lparr>base = starting_sector e, sec_cnt = sector_cnt e\<rparr>)"
    "\<forall>i<4. \<forall>n<16. let e = entry_of (sample_disk 0) i; c = logical_partitions sample_disk (starting_sector e) in
       logical f' ! (16 * i + n) = (if system_id e = EXT_PART \<and> n < length c then c ! n
         else logical sample_info ! (16 * i + n))"
    using hdd_open_reads_partitions [OF one sample_quiet _ root_device sample_serves, of sample_cmd]
    by (auto simp: sample_info_def)
  have "primary f' ! 1 = \<lparr>base = 63, sec_cnt = 100\<rparr>"
    using *(3) [rule_format, of 0] by (simp add: entry_of_def sample_disk_def le32_def Let_def)
  moreover have "logical f' ! 16 = \<lparr>base = 201, sec_cnt = 50\<rparr>"
    using *(4) [rule_format, of 1 0] e c by (simp add: Let_def)
  ultimately show ?thesis using *(1,2) by blast
qed
end
