(* ===== verification/Disk_Io.thy ===== *)
theory Disk_Io
  imports Partitions
begin

text \<open>
  The other requests of the disk driver: reading, writing and the geometry of a device, and
  the request of the file system task. A read request is traced from the message through the
  registers of the controller to the memory of the process that asked.
\<close>

section \<open>Transfers\<close>

text \<open>Every process has a data segment that starts at address 0.\<close>

definition flat :: "kernel \<Rightarrow> bool" where
  "flat k \<longleftrightarrow> (\<forall>i<TOTAL_TASK_CNT. ldt_linear_addr (proc k i) INDEX_LDT_RW = 0)"

lemma ipc_wf_flat: "ipc_wf k \<Longrightarrow> flat k"
  using ipc_wf_proc by (auto simp: flat_def proc_wf_def)

lemma flat_memory [simp]: "flat (k\<lparr>memory := m\<rparr>) = flat k"
  by (simp add: flat_def proc_def)

lemma flat_upd_mem [simp]: "flat (hk (upd_mem f h)) = flat (hk h)"
  by (simp add: upd_mem_def)

lemma vir_to_linear_flat_process:
  "flat k \<Longrightarrow> unat pid < TOTAL_TASK_CNT \<Longrightarrow> vir_to_linear pid a k = Inr a"
  by (simp add: vir_to_linear_def proc_index_def flat_def ASSERT_def Let_def)

lemma upd_mem_simps [simp]:
  "hd_buf (upd_mem f h) = hd_buf h" "hdd_infos (upd_mem f h) = hdd_infos h" "selected (upd_mem f h) = selected h"
  "given (upd_mem f h) = given h" "esi (upd_mem f h) = esi h" "trace (upd_mem f h) = trace h"
  "mem_of (upd_mem f h) = f (mem_of h)"
  by (simp_all add: upd_mem_def mem_of_def)

text \<open>A round of a read: a block through the driver's buffer.\<close>

definition block_read :: "controller \<Rightarrow> hdd \<Rightarrow> hdd" where
  "block_read dev h = read_port dev (hd_buf h) 512 h"

lemma block_read_simps [simp]:
  "hd_buf (block_read dev h) = hd_buf h" "hdd_infos (block_read dev h) = hdd_infos h"
  "selected (block_read dev h) = selected h" "given (block_read dev h) = given h + 1"
  "esi (block_read dev h) = esi h" "flat (hk (block_read dev h)) = flat (hk h)"
  by (simp_all add: block_read_def read_port_def upd_mem_def)

lemma block_read_mem:
  "mem_of (block_read dev h) =
     (\<lambda>a. if in_block a (hd_buf h) 512 then dev (selected h) (given h) (unat (a - hd_buf h)) else mem_of h a)"
proof -
  have n: "2 * unat (drop_bit 1 (512 :: u32)) = 512" by (simp add: drop_bit_eq_div)
  show ?thesis
    unfolding block_read_def read_port_def n by (simp add: mem_of_def upd_mem_def cong: if_cong)
qed

lemma transfer_read:
  assumes "flat (hk h)" and "msg_type msg h = MSG_DEV_READ"
  shows "transfer dev msg a left h =
    (let bytes = (if SECTOR_SIZE <s left then SECTOR_SIZE else left) in
     if bytes <s 0 then Inl (Wild_copy bytes)
     else Inr (upd_mem (memcpy a (hd_buf h) bytes) (block_read dev h)))"
proof -
  have "vir_to_linear (of_nat HDD_TASK) (hd_buf h) (hk (block_read dev h)) = Inr (hd_buf h)"
    using assms(1) by (intro vir_to_linear_flat_process) simp_all
  then show ?thesis using assms(2)
    by (simp add: transfer_def hdd_interrupt_wait_def andThen_def Let_def flip: block_read_def)
qed

text \<open>The type of a request, when neither the buffer of the driver nor the copy touches the message.\<close>

definition msg_kept :: "addr \<Rightarrow> addr \<Rightarrow> nat \<Rightarrow> hdd \<Rightarrow> bool" where
  "msg_kept msg a n h \<longleftrightarrow>
     (\<forall>i<48. \<not> in_block (msg + of_nat i) a n \<and> \<not> in_block (msg + of_nat i) (hd_buf h) 512)"

lemma msg_kept_less: "msg_kept msg a n h \<Longrightarrow> k \<le> n \<Longrightarrow> msg_kept msg a k h"
  unfolding msg_kept_def using in_block_less by blast

lemma msg_type_round:
  assumes "msg_kept msg a n h" and "unat bytes \<le> n"
  shows "msg_type msg (upd_mem (memcpy a (hd_buf h) bytes) (block_read dev h)) = msg_type msg h"
  unfolding msg_type_def
proof (rule load32_cong)
  fix i :: nat assume i: "i < 4"
  then have "\<not> in_block (msg + of_nat (4 + i)) a n" "\<not> in_block (msg + of_nat (4 + i)) (hd_buf h) 512"
    using assms(1) unfolding msg_kept_def by (simp_all only:) simp_all
  then have "\<not> in_block (msg + 4 + of_nat i) a (unat bytes)" "\<not> in_block (msg + 4 + of_nat i) (hd_buf h) 512"
    using in_block_less [OF _ assms(2)] by (auto simp: add.assoc)
  then show "mem_of (upd_mem (memcpy a (hd_buf h) bytes) (block_read dev h)) (msg + 4 + of_nat i) = mem_of h (msg + 4 + of_nat i)"
    by (simp add: memcpy_frame block_read_mem)
qed

lemma unat_minus_512: "512 dvd unat (left - 512) \<longleftrightarrow> 512 dvd unat left" for left :: u32
proof -
  have "unat (left - 512) mod 512 = unat left mod 512"
  proof (cases "512 \<le> unat left")
    case True
    then show ?thesis by (simp add: unat_sub_if' le_mod_geq)
  next
    case False
    then have "unat (left - 512) = unat left + 512 * 8388607" by (simp add: unat_sub_if')
    then show ?thesis by (metis mod_mult_self2)
  qed
  then show ?thesis by (simp add: dvd_eq_mod_eq_0)
qed

text \<open>
  A read ends if the number of bytes is a multiple of the sector size. From any other number it
  goes below zero, and the next copy is given a negative number of bytes.
\<close>

lemma read_loop_negative:
  assumes "flat (hk h)" and "msg_type msg h = MSG_DEV_READ" and "sint left < 0"
  shows "transfer_loop dev msg a left h = Some (Inl (Wild_copy left))"
proof -
  have "left \<noteq> 0" "left <s 0" "\<not> SECTOR_SIZE <s left" using assms(3) by (auto simp: word_sless_alt)
  then show ?thesis
    using transfer_read [OF assms(1,2), of dev a left] by (simp add: transfer_loop.simps [of dev msg a left h])
qed

lemma read_round:
  assumes "flat (hk h)" and "msg_type msg h = MSG_DEV_READ" and "0 < unat left" and "unat left < 2147483648"
    and "msg_kept msg a (unat left) h"
  shows "\<exists>h'. transfer_loop dev msg a left h = transfer_loop dev msg (a + 512) (left - 512) h' \<and>
    h' = upd_mem (memcpy a (hd_buf h) (if 512 < unat left then 512 else left)) (block_read dev h) \<and>
    flat (hk h') \<and> msg_type msg h' = MSG_DEV_READ \<and>
    msg_kept msg (a + 512) (unat left - 512) h'"
proof -
  define bytes where "bytes = (if 512 < unat left then 512 else left)"
  let ?h = "upd_mem (memcpy a (hd_buf h) bytes) (block_read dev h)"
  have s: "sint left = int (unat left)" using assms(4) by (rule sint_small)
  have "SECTOR_SIZE <s left \<longleftrightarrow> 512 < sint left" "\<not> left <s 0" using s by (simp_all add: word_sless_alt)
  then have "SECTOR_SIZE <s left \<longleftrightarrow> 512 < unat left" "\<not> left <s 0" using s by linarith+
  then have min: "(if SECTOR_SIZE <s left then SECTOR_SIZE else left) = bytes" "\<not> bytes <s 0" "unat bytes \<le> unat left"
    by (auto simp: bytes_def word_sless_alt)
  then have t: "transfer dev msg a left h = Inr ?h" using transfer_read [OF assms(1,2), of dev a left] by (simp only: Let_def if_False)
  have "left \<noteq> 0" using assms(3) by auto
  then have "transfer_loop dev msg a left h = transfer_loop dev msg (a + 512) (left - 512) ?h"
    by (subst transfer_loop.simps) (simp add: t)
  moreover have "msg_kept msg (a + 512) (unat left - 512) ?h"
  proof -
    have "in_block x a (unat left)" if "in_block x (a + 512) (unat left - 512)" for x
    proof -
      have "x - a = (x - (a + 512)) + 512" by simp
      then have "unat (x - a) = (unat (x - (a + 512)) + 512) mod 4294967296" by (simp only: unat_word_ariths) simp
      then have "unat (x - a) \<le> unat (x - (a + 512)) + 512" by (metis mod_less_eq_dividend)
      then show ?thesis using that by (simp add: in_block_def)
    qed
    then show ?thesis using assms(5) by (auto simp: msg_kept_def)
  qed
  moreover have "msg_type msg ?h = MSG_DEV_READ" using msg_type_round [OF assms(5) min(3)] assms(2) by simp
  ultimately show ?thesis using assms(1) by (auto simp: bytes_def)
qed

lemma read_loop_result:
  assumes "flat (hk h)" and "msg_type msg h = MSG_DEV_READ" and "unat left < 2147483648"
    and "msg_kept msg a (unat left) h"
  shows "if 512 dvd unat left then \<exists>h'. transfer_loop dev msg a left h = Some (Inr h')
    else \<exists>n. sint n < 0 \<and> transfer_loop dev msg a left h = Some (Inl (Wild_copy n))"
  using assms
proof (induction "unat left" arbitrary: left a h rule: less_induct)
  case less
  show ?case
  proof (cases "left = 0")
    case False
    then have pos: "0 < unat left" by (simp add: unat_gt_0)
    from read_round [OF less.prems(1,2) pos less.prems(3,4), of dev]
    obtain h1 where h1: "transfer_loop dev msg a left h = transfer_loop dev msg (a + 512) (left - 512) h1"
      "flat (hk h1)" "msg_type msg h1 = MSG_DEV_READ" "msg_kept msg (a + 512) (unat left - 512) h1" by blast
    show ?thesis
    proof (cases "512 \<le> unat left")
      case True
      then have u: "unat (left - 512) = unat left - 512" by (simp add: unat_sub_if')
      have "512 dvd unat (left - 512) \<longleftrightarrow> 512 dvd unat left" by (rule unat_minus_512)
      then show ?thesis
        using less.hyps [of "left - 512" h1 "a + 512"] h1 u less.prems(3) pos by simp
    next
      case small: False
      have "unat (left - 512) = unat left + 4294966784" using small by (simp add: unat_sub_if')
      moreover have "sint (left - 512) < 2147483648" using sint_lt [of "left - 512"] by simp
      ultimately have "sint (left - 512) < 0"
        using sint_nonneg [of "left - 512"] by linarith
      moreover have "\<not> 512 dvd unat left" using pos small by (auto dest: dvd_imp_le)
      ultimately show ?thesis using read_loop_negative [OF h1(2,3)] h1(1) by auto
    qed
  qed (simp add: transfer_loop.simps)
qed

text \<open>Whole sectors are moved sector by sector.\<close>

lemma sector_or_rest:
  assumes "unat left = 512 * Suc n" and "512 * Suc n < 2147483648"
  shows "(if SECTOR_SIZE <s left then SECTOR_SIZE else left) = 512"
proof (cases "n = 0")
  case True
  then have "left = 512" using assms(1) by (simp add: word_unat_eq_iff)
  then show ?thesis by simp
next
  case False
  have "sint left = int (unat left)" using assms by (intro sint_small) simp
  then have "SECTOR_SIZE <s left"
    using assms(1) False by (simp add: word_sless_alt)
  then show ?thesis by simp
qed

text \<open>What it leaves in memory.\<close>

lemma read_loop_memory:
  assumes "flat (hk h)" and "unat left = 512 * n" and "512 * n < 2147483648"
    and "\<forall>x. in_block x a (512 * n) \<longrightarrow> \<not> in_block x (hd_buf h) 512"
    and "msg_type msg h = MSG_DEV_READ" and "msg_kept msg a (512 * n) h"
  shows "\<exists>h'. transfer_loop dev msg a left h = Some (Inr h') \<and>
    (\<forall>x. in_block x a (512 * n) \<longrightarrow> mem_of h' x =
       dev (selected h) (given h + unat (x - a) div 512) (unat (x - a) mod 512)) \<and>
    (\<forall>x. \<not> in_block x a (512 * n) \<longrightarrow> \<not> in_block x (hd_buf h) 512 \<longrightarrow> mem_of h' x = mem_of h x) \<and>
    hdd_infos h' = hdd_infos h"
  using assms
proof (induction n arbitrary: left a h)
  case 0
  then have "left = 0" by (simp add: unat_eq_0)
  then show ?case by (simp add: transfer_loop.simps in_block_def)
next
  case (Suc n)
  let ?h = "upd_mem (memcpy a (hd_buf h) 512) (block_read dev h)"
  have "(if 512 < unat left then 512 else left) = 512" using Suc.prems(2) by (auto simp: word_unat_eq_iff)
  then have round: "transfer_loop dev msg a left h = transfer_loop dev msg (a + 512) (left - 512) ?h"
      "msg_type msg ?h = MSG_DEV_READ" "msg_kept msg (a + 512) (512 * n) ?h"
    using read_round [OF Suc.prems(1,5), of left a dev] Suc.prems(2,3,6) by simp_all
  have a: "\<not> in_block a (hd_buf h) 512" using Suc.prems(4) by simp
  then have sep: "a = hd_buf h \<or> 512 \<le> a - hd_buf h" by (simp add: in_block_def word_le_nat_alt)
  have mem: "mem_of ?h x = (if in_block x a 512 then dev (selected h) (given h) (unat (x - a))
      else mem_of (block_read dev h) x)" for x
  proof (cases "in_block x a 512")
    case True
    then have "in_block (hd_buf h + (x - a)) (hd_buf h) 512" by (simp add: in_block_def)
    then show ?thesis using True memcpy_eq [OF sep] by (simp add: block_read_mem)
  next
    case False
    then show ?thesis using memcpy_eq [OF sep] by simp
  qed
  have next_in: "in_block x (a + 512) (512 * n) \<longleftrightarrow> in_block x a (512 * Suc n) \<and> \<not> in_block x a 512"
    and next_unat: "in_block x a (512 * Suc n) \<Longrightarrow> \<not> in_block x a 512 \<Longrightarrow> unat (x - (a + 512)) = unat (x - a) - 512" for x
  proof -
    have e: "x - (a + 512) = (x - a) - 512" by simp
    show "in_block x (a + 512) (512 * n) \<longleftrightarrow> in_block x a (512 * Suc n) \<and> \<not> in_block x a 512"
      unfolding in_block_def e using Suc.prems(3) by (simp add: unat_sub_if' not_less) arith
    show "in_block x a (512 * Suc n) \<Longrightarrow> \<not> in_block x a 512 \<Longrightarrow> unat (x - (a + 512)) = unat (x - a) - 512"
      unfolding in_block_def e by (simp add: unat_sub_if' not_less)
  qed
  have left: "left \<noteq> 0" "unat (left - 512) = 512 * n" using Suc.prems(2) by (auto simp: unat_sub_if')
  have "\<forall>x. in_block x (a + 512) (512 * n) \<longrightarrow> \<not> in_block x (hd_buf ?h) 512"
    using Suc.prems(4) next_in by simp
  then obtain h' where h': "transfer_loop dev msg (a + 512) (left - 512) ?h = Some (Inr h')"
    "\<forall>x. in_block x (a + 512) (512 * n) \<longrightarrow> mem_of h' x =
       dev (selected h) (given h + 1 + unat (x - (a + 512)) div 512) (unat (x - (a + 512)) mod 512)"
    "\<forall>x. \<not> in_block x (a + 512) (512 * n) \<longrightarrow> \<not> in_block x (hd_buf h) 512 \<longrightarrow> mem_of h' x = mem_of ?h x"
    "hdd_infos h' = hdd_infos h"
    using Suc.IH [of ?h "left - 512" "a + 512"] Suc.prems(1,3) left(2) round(2,3) by auto
  have "transfer_loop dev msg a left h = Some (Inr h')"
    using h'(1) round(1) by simp
  moreover have "mem_of h' x = dev (selected h) (given h + unat (x - a) div 512) (unat (x - a) mod 512)"
    if x: "in_block x a (512 * Suc n)" for x
  proof (cases "in_block x a 512")
    case True
    then have "mem_of h' x = mem_of ?h x" using h'(3) next_in Suc.prems(4) x by blast
    then show ?thesis using True mem by (simp add: in_block_def)
  next
    case False
    then have ge: "512 \<le> unat (x - a)" by (simp add: in_block_def)
    then show ?thesis
      using h'(2) next_in x False next_unat [OF x False] by (simp add: le_div_geq le_mod_geq)
  qed
  moreover have "mem_of h' x = mem_of h x" if "\<not> in_block x a (512 * Suc n)" "\<not> in_block x (hd_buf h) 512" for x
  proof -
    have "\<not> in_block x a 512" using that(1) by (auto simp: in_block_def)
    then show ?thesis using that h'(3) next_in mem by (simp add: block_read_mem)
  qed
  ultimately show ?case using h'(4) by blast
qed


section \<open>Read requests\<close>

lemma mem_of_cmd_out: "hdd_cmd_out cmd h = Inr h' \<Longrightarrow> mem_of h' = mem_of h \<and> hk h' = hk h \<and> hdd_infos h' = hdd_infos h \<and>
    hd_buf h' = hd_buf h \<and> selected h' = cmd \<and> given h' = 0"
  by (auto simp: hdd_cmd_out_def andThen_Inr_iff get_status_def outb_def mem_of_def
      split: list.splits option.splits if_splits)

lemma request_fields_cong:
  assumes "mem_of h' = mem_of h"
  shows "PROC_NR msg h' = PROC_NR msg h" "BUF msg h' = BUF msg h"
  using assms by (simp_all add: PROC_NR_def BUF_def)

text \<open>The sector a request starts at.\<close>

definition first_sector :: "addr \<Rightarrow> partition_info \<Rightarrow> hdd \<Rightarrow> u32" where
  "first_sector msg p h = ucast (drop_bit 9 (POSITION msg h)) + base p"

lemma hdd_read_steps:
  assumes "flat (hk h)" and "quiet 1 h" and "partition_of (DEVICE msg h) h = Inr p"
    and "msg_type msg h = MSG_DEV_READ" and "unat (PROC_NR msg h) < TOTAL_TASK_CNT"
  shows "\<exists>h1. flat (hk h1) \<and> mem_of h1 = mem_of h \<and> hdd_infos h1 = hdd_infos h \<and> hd_buf h1 = hd_buf h \<and>
    selected h1 = read_write_cmd MSG_DEV_READ (DEV_TO_DRV (DEVICE msg h)) (first_sector msg p h) (CNT msg h) \<and>
    given h1 = 0 \<and> msg_type msg h1 = MSG_DEV_READ \<and>
    hdd_read_write dev msg h = returns_or_stops (transfer_loop dev msg (BUF msg h) (CNT msg h) h1)"
proof -
  let ?cmd = "read_write_cmd MSG_DEV_READ (DEV_TO_DRV (DEVICE msg h)) (first_sector msg p h) (CNT msg h)"
  obtain h1 where h1: "hdd_cmd_out ?cmd h = Inr h1" using hdd_cmd_out_quiet [of 0 h ?cmd] assms(2) by auto
  note s = mem_of_cmd_out [OF h1]
  have "vir_to_linear (PROC_NR msg h1) (BUF msg h1) (hk h1) = Inr (BUF msg h)"
    using s assms(1,5) request_fields_cong [of h1 h msg] by (simp add: vir_to_linear_flat_process)
  then have "hdd_read_write dev msg h = returns_or_stops (transfer_loop dev msg (BUF msg h) (CNT msg h) h1)"
    using h1 assms(3,4) by (simp add: hdd_read_write_def andThen_def Let_def first_sector_def)
  moreover have "msg_type msg h1 = MSG_DEV_READ" using s assms(4) by (simp add: msg_type_def)
  ultimately show ?thesis using s assms(1) by (intro exI [of _ h1]) simp
qed

lemma read_cmd_sectors:
  assumes "unat cnt = 512 * n" and "n \<le> 255"
  shows "n_sector (read_write_cmd type drive s cnt) = of_nat n"
proof -
  have u: "unat (cnt + SECTOR_SIZE - 1) = 512 * n + 511"
  proof -
    have "cnt = of_nat (unat cnt)" by simp
    then have "cnt + SECTOR_SIZE - 1 = of_nat (512 * n + 511)" unfolding assms(1) by simp
    then show ?thesis using assms(2) unat_of_nat_u32 [of "512 * n + 511"] by (simp only:)
  qed
  then have "sint (cnt + SECTOR_SIZE - 1) = int (512 * n + 511)"
    using assms(2) sint_small [of "cnt + SECTOR_SIZE - 1"] by simp
  then have "c_div (cnt + SECTOR_SIZE - 1) SECTOR_SIZE = of_nat ((512 * n + 511) div 512)"
    using c_div_nonneg(1) [of "cnt + SECTOR_SIZE - 1" SECTOR_SIZE] u by simp
  moreover have "(512 * n + 511) div 512 = n" by simp
  ultimately have "c_div (cnt + SECTOR_SIZE - 1) SECTOR_SIZE = of_nat n" by (simp only:)
  moreover have "(ucast (of_nat n :: u32) :: u8) = of_nat n"
    using assms(2) by (simp add: unsigned_of_nat take_bit_nat_eq_self)
  ultimately show ?thesis by (simp add: read_write_cmd_def)
qed

lemma drive_bit_rw: "\<not> bit (device (read_write_cmd type 0 s cnt)) 4"
  by (simp add: read_write_cmd_def drive_bit_0)

lemma hdd_read_correct:
  assumes "flat (hk h)" and "quiet 1 h" and "serves dev disk"
    and "msg_type msg h = MSG_DEV_READ" and "DEV_TO_DRV (DEVICE msg h) = 0"
    and "partition_of (DEVICE msg h) h = Inr p" and "unat (PROC_NR msg h) < TOTAL_TASK_CNT"
    and "unat (CNT msg h) = 512 * n" and "n \<le> 255"
    and "\<forall>x. in_block x (BUF msg h) (512 * n) \<longrightarrow> \<not> in_block x (hd_buf h) 512"
    and "msg_kept msg (BUF msg h) (512 * n) h"
  shows "\<exists>h'. hdd_read_write dev msg h = Inr h' \<and>
    (\<forall>x. in_block x (BUF msg h) (512 * n) \<longrightarrow> mem_of h' x =
       disk (take_bit 28 (first_sector msg p h) + of_nat (unat (x - BUF msg h) div 512))
         (unat (x - BUF msg h) mod 512)) \<and>
    (\<forall>x. \<not> in_block x (BUF msg h) (512 * n) \<longrightarrow> \<not> in_block x (hd_buf h) 512 \<longrightarrow> mem_of h' x = mem_of h x)"
proof -
  let ?cmd = "read_write_cmd MSG_DEV_READ 0 (first_sector msg p h) (CNT msg h)"
  obtain h1 where h1: "flat (hk h1)" "mem_of h1 = mem_of h" "hd_buf h1 = hd_buf h" "selected h1 = ?cmd" "given h1 = 0"
    "msg_type msg h1 = MSG_DEV_READ" "hdd_read_write dev msg h = returns_or_stops (transfer_loop dev msg (BUF msg h) (CNT msg h) h1)"
    using hdd_read_steps [OF assms(1,2,6,4,7), of dev] unfolding assms(5) by blast
  have "512 * n < 2147483648" using assms(9) by simp
  moreover have "\<forall>x. in_block x (BUF msg h) (512 * n) \<longrightarrow> \<not> in_block x (hd_buf h1) 512"
    using assms(10) h1(3) by simp
  moreover have "msg_kept msg (BUF msg h) (512 * n) h1" using assms(11) h1(3) by (simp add: msg_kept_def)
  ultimately obtain h' where h': "transfer_loop dev msg (BUF msg h) (CNT msg h) h1 = Some (Inr h')"
    "\<forall>x. in_block x (BUF msg h) (512 * n) \<longrightarrow> mem_of h' x =
       dev ?cmd (unat (x - BUF msg h) div 512) (unat (x - BUF msg h) mod 512)"
    "\<forall>x. \<not> in_block x (BUF msg h) (512 * n) \<longrightarrow> \<not> in_block x (hd_buf h) 512 \<longrightarrow> mem_of h' x = mem_of h x"
    using read_loop_memory [OF h1(1) assms(8), of "BUF msg h" msg dev] h1(2-6) by auto
  have "dev ?cmd (unat (x - BUF msg h) div 512) (unat (x - BUF msg h) mod 512) =
      disk (take_bit 28 (first_sector msg p h) + of_nat (unat (x - BUF msg h) div 512)) (unat (x - BUF msg h) mod 512)"
    if "in_block x (BUF msg h) (512 * n)" for x
  proof -
    have "unat (x - BUF msg h) div 512 < n" using that by (simp add: in_block_def less_mult_imp_div_less mult.commute)
    moreover have "unat (n_sector ?cmd) = n" using read_cmd_sectors [OF assms(8,9)] assms(9) by (simp add: unat_of_nat)
    moreover have "command ?cmd = ATA_READ" by (simp add: read_write_cmd_def)
    ultimately show ?thesis
      using assms(3) drive_bit_rw lba_of_read_write_cmd by (simp add: serves_def)
  qed
  then show ?thesis using h1(7) h' by (auto simp: returns_or_stops_def)
qed

section \<open>Properties\<close>

text \<open>
  A read request for whole sectors of a partition on the first drive (at most 255) returns
  and puts the sectors of the disk, from the partition's base plus the position on, into the
  memory of the process that asked: nothing else changes but the driver's own buffer. The
  destination, the buffer and the message must not overlap, and the controller must have each
  sector ready when the driver reads it, for which the driver does not wait.
\<close>

theorem hdd_read_delivers:
  assumes "flat (hk h)" and "quiet 1 h" and "serves dev disk"
    and "msg_type msg h = MSG_DEV_READ" and "DEV_TO_DRV (DEVICE msg h) = 0"
    and "partition_of (DEVICE msg h) h = Inr p" and "unat (PROC_NR msg h) < TOTAL_TASK_CNT"
    and "unat (CNT msg h) = 512 * n" and "n \<le> 255"
    and "\<forall>x. in_block x (BUF msg h) (512 * n) \<longrightarrow> \<not> in_block x (hd_buf h) 512"
    and "msg_kept msg (BUF msg h) (512 * n) h"
  shows "\<exists>h'. hdd_read_write dev msg h = Inr h' \<and>
    (\<forall>x. in_block x (BUF msg h) (512 * n) \<longrightarrow> mem_of h' x =
       disk (take_bit 28 (first_sector msg p h) + of_nat (unat (x - BUF msg h) div 512))
         (unat (x - BUF msg h) mod 512)) \<and>
    (\<forall>x. \<not> in_block x (BUF msg h) (512 * n) \<longrightarrow> \<not> in_block x (hd_buf h) 512 \<longrightarrow> mem_of h' x = mem_of h x)"
  using assms by (rule hdd_read_correct)

text \<open>A request of process 4 at 0x1000: one sector of device 1 to 0x50000.\<close>

definition sample_request :: mem where
  "sample_request = (\<lambda>_. 0)(0x1004 := 0xeb, 0x1005 := 3, 0x100d := 2, 0x1010 := 4, 0x1014 := 1, 0x102e := 5)"

definition sample_table :: hdd_info where
  "sample_table = sample_info\<lparr>primary := (primary sample_info)[1 := \<lparr>base = 63, sec_cnt = 100\<rparr>]\<rparr>"

lemma sample_request_fields:
  "msg_type 0x1000 (sample_hdd f sample_request) = MSG_DEV_READ" "CNT 0x1000 (sample_hdd f sample_request) = 512"
  "PROC_NR 0x1000 (sample_hdd f sample_request) = 4" "DEVICE 0x1000 (sample_hdd f sample_request) = 1"
  "POSITION 0x1000 (sample_hdd f sample_request) = 0" "BUF 0x1000 (sample_hdd f sample_request) = 0x50000"
  by (simp_all add: msg_type_def CNT_def PROC_NR_def DEVICE_def POSITION_def BUF_def mem_of_def sample_hdd_def
      load32_def sample_request_def)

lemma sample_hdd_flat: "flat (hk (sample_hdd f m))"
  using ipc_wf_flat [OF sample_boot_simps(1)] by (simp add: sample_hdd_def)

lemma sample_partition:
  "partition_of 1 (sample_hdd sample_table m) = Inr \<lparr>base = 63, sec_cnt = 100\<rparr>" "DEV_TO_DRV 1 = 0"
proof -
  show d: "DEV_TO_DRV 1 = 0" by (rule DEV_TO_DRV_primary) simp
  show "partition_of 1 (sample_hdd sample_table m) = Inr \<lparr>base = 63, sec_cnt = 100\<rparr>"
    by (simp add: partition_of_def d drive_index_def andThen_def entry_at_def sample_hdd_def sample_table_def
        sample_info_def word_sless_alt)
qed

lemma sample_quiet_1: "quiet 1 (sample_hdd f m)"
  by (rule quiet_mono [OF sample_quiet]) simp

lemma sample_kept:
  assumes "hd_buf h = 0x40000" and "a = 0x50000" and "n \<le> 1024"
  shows "msg_kept 0x1000 a n h"
  unfolding msg_kept_def assms(1,2)
proof (intro allI impI conjI)
  fix i :: nat assume i: "i < 48"
  then have u: "unat (0x1000 + of_nat i :: addr) = 0x1000 + i"
    using unat_of_nat_u32 [of "0x1000 + i"] by simp
  show "\<not> in_block (0x1000 + of_nat i) 0x50000 n"
    using unat_diff_less_iff [of "0x50000" n "0x1000 + of_nat i"] u i assms(3) by (simp add: in_block_def)
  show "\<not> in_block (0x1000 + of_nat i) 0x40000 512"
    using unat_diff_less_iff [of "0x40000" 512 "0x1000 + of_nat i"] u i by (simp add: in_block_def)
qed

theorem hdd_read_delivers_witness:
  "\<exists>h'. hdd_read_write sample_controller 0x1000 (sample_hdd sample_table sample_request) = Inr h' \<and>
     mem_of h' 0x50005 = 68"
proof -
  let ?h = "sample_hdd sample_table sample_request"
  have sep: "\<forall>x. in_block x (BUF 0x1000 ?h) (512 * 1) \<longrightarrow> \<not> in_block x (hd_buf ?h) 512"
  proof (intro allI impI notI)
    fix x assume "in_block x (BUF 0x1000 ?h) (512 * 1)" and x: "in_block x (hd_buf ?h) 512"
    then have "unat (x - of_nat 0x50000) < 512" by (simp add: sample_request_fields in_block_def)
    then have "0x50000 \<le> unat x" by (subst (asm) unat_diff_less_iff) simp_all
    moreover have "unat (x - of_nat 0x40000) < 512" using x by (simp add: sample_hdd_def in_block_def)
    then have "unat x < 0x40000 + 512" by (subst (asm) unat_diff_less_iff) simp_all
    ultimately show False by simp
  qed
  have kept: "msg_kept 0x1000 (BUF 0x1000 ?h) (512 * 1) ?h"
    by (rule sample_kept) (simp_all add: sample_request_fields, simp add: sample_hdd_def)
  have first: "first_sector 0x1000 \<lparr>base = 63, sec_cnt = 100\<rparr> ?h = 63"
    by (simp add: first_sector_def sample_request_fields)
  have p: "partition_of (DEVICE 0x1000 ?h) ?h = Inr \<lparr>base = 63, sec_cnt = 100\<rparr>" "DEV_TO_DRV (DEVICE 0x1000 ?h) = 0"
    unfolding sample_request_fields by (rule sample_partition)+
  obtain h' where h': "hdd_read_write sample_controller 0x1000 ?h = Inr h'"
    "\<forall>x. in_block x (BUF 0x1000 ?h) (512 * 1) \<longrightarrow> mem_of h' x =
       sample_disk (take_bit 28 (first_sector 0x1000 \<lparr>base = 63, sec_cnt = 100\<rparr> ?h) + of_nat (unat (x - BUF 0x1000 ?h) div 512))
         (unat (x - BUF 0x1000 ?h) mod 512)"
    using hdd_read_delivers [OF sample_hdd_flat sample_quiet_1 sample_serves sample_request_fields(1) p(2,1) _ _ _ sep kept]
      sample_request_fields by auto
  have "in_block 0x50005 (BUF 0x1000 ?h) (512 * 1)" by (simp add: sample_request_fields in_block_def)
  then have "mem_of h' 0x50005 = sample_disk 63 5"
    using h'(2) unfolding first by (simp add: sample_request_fields take_bit_eq_mod)
  then show ?thesis using h'(1) by (simp add: sample_disk_def)
qed

text \<open>
  C24. A read request comes back exactly if its number of bytes is a multiple of 512 and not
  negative: the loop subtracts 512 until nothing is left, so any other number goes below zero
  (a negative one is there at once), and the next copy is given a negative number of bytes,
  which \<open>memcpy\<close> takes for almost 4 GiB. The message must lie outside the destination and the
  driver's buffer, since its type is read again in each round; the controller takes the command
  in time, by the tick counts the driver is given (\<open>quiet\<close>).
\<close>

theorem hdd_read_returns_iff:
  assumes "flat (hk h)" and "quiet 1 h" and "partition_of (DEVICE msg h) h = Inr p"
    and "msg_type msg h = MSG_DEV_READ" and "unat (PROC_NR msg h) < TOTAL_TASK_CNT"
    and "msg_kept msg (BUF msg h) (nat (sint (CNT msg h))) h"
  shows "if 0 \<le> sint (CNT msg h) \<and> 512 dvd sint (CNT msg h) then \<exists>h'. hdd_read_write dev msg h = Inr h'
    else \<exists>n. sint n < 0 \<and> hdd_read_write dev msg h = Inl (Wild_copy n)"
proof -
  obtain h1 where h1: "flat (hk h1)" "hd_buf h1 = hd_buf h" "msg_type msg h1 = MSG_DEV_READ"
    "hdd_read_write dev msg h = returns_or_stops (transfer_loop dev msg (BUF msg h) (CNT msg h) h1)"
    using hdd_read_steps [OF assms(1-5), of dev] by blast
  have kept: "msg_kept msg (BUF msg h) (nat (sint (CNT msg h))) h1" using assms(6) h1(2) by (simp add: msg_kept_def)
  show ?thesis
  proof (cases "sint (CNT msg h) < 0")
    case True
    then show ?thesis using read_loop_negative [OF h1(1,3) True, of dev "BUF msg h"] h1(4) by (auto simp: returns_or_stops_def)
  next
    case False
    then have u: "sint (CNT msg h) = int (unat (CNT msg h))" by (intro sint_nonneg) simp
    moreover have "sint (CNT msg h) < 2147483648" using sint_lt [of "CNT msg h"] by simp
    ultimately have "unat (CNT msg h) < 2147483648" by linarith
    moreover have "512 dvd sint (CNT msg h) \<longleftrightarrow> 512 dvd unat (CNT msg h)"
      unfolding u using int_dvd_int_iff [of 512 "unat (CNT msg h)"] by simp
    ultimately show ?thesis
      using read_loop_result [OF h1(1,3), of "CNT msg h" "BUF msg h" dev] kept u h1(4)
      by (auto simp: returns_or_stops_def split: if_splits)
  qed
qed

theorem hdd_read_returns_iff_witness:
  "(\<exists>h'. hdd_read_write sample_controller 0x1000 (sample_hdd sample_table sample_request) = Inr h') \<and>
   (\<exists>n. hdd_read_write sample_controller 0x1000
        (sample_hdd sample_table (sample_request(0x100c := 1))) = Inl (Wild_copy n))"
proof -
  let ?m = "sample_request(0x100c := 1)"
  have f: "msg_type 0x1000 (sample_hdd sample_table ?m) = MSG_DEV_READ" "CNT 0x1000 (sample_hdd sample_table ?m) = 513"
    "PROC_NR 0x1000 (sample_hdd sample_table ?m) = 4" "DEVICE 0x1000 (sample_hdd sample_table ?m) = 1"
    "BUF 0x1000 (sample_hdd sample_table ?m) = 0x50000"
    by (simp_all add: msg_type_def CNT_def PROC_NR_def DEVICE_def BUF_def mem_of_def sample_hdd_def load32_def sample_request_def)
  have k: "msg_kept 0x1000 0x50000 n (sample_hdd sample_table m)" if "n \<le> 1024" for n m
    using that by (intro sample_kept) (simp_all add: sample_hdd_def)
  note r = hdd_read_returns_iff [OF sample_hdd_flat sample_quiet_1, where dev = sample_controller and msg = "0x1000"]
  show ?thesis
    using r [of sample_table sample_request] r [of sample_table ?m] sample_partition(1) f sample_request_fields
      k [of 512 sample_request] k [of 513 ?m]
    by auto
qed


section \<open>Write requests\<close>

lemma get_status_ready:
  assumes "quiet (Suc n) h" and "\<forall>s\<in>set (status_reads h). s AND STATUS_DRQ = STATUS_DRQ"
  shows "\<exists>ts ss. get_status STATUS_DRQ STATUS_DRQ HDD_TIMEOUT h = Inr (True, h\<lparr>tick_reads := ts, status_reads := ss\<rparr>) \<and>
    quiet n (h\<lparr>tick_reads := ts, status_reads := ss\<rparr>) \<and> set ss \<subseteq> set (status_reads h)"
proof -
  obtain t u ts where ts: "tick_reads h = t # u # ts"
    using assms(1) by (cases "tick_reads h"; cases "tl (tick_reads h)") (auto simp: quiet_def)
  obtain s ss where ss: "status_reads h = s # ss" using assms(1) by (cases "status_reads h") (auto simp: quiet_def)
  have "s AND STATUS_DRQ = STATUS_DRQ" "elapsed t u <s HDD_TIMEOUT"
    using assms by (simp_all add: quiet_def ts ss)
  then have "get_status STATUS_DRQ STATUS_DRQ HDD_TIMEOUT h = Inr (True, h\<lparr>tick_reads := ts, status_reads := ss\<rparr>)"
    by (simp add: get_status_def ts ss)
  moreover have "quiet n (h\<lparr>tick_reads := ts, status_reads := ss\<rparr>)" using assms(1) by (simp add: quiet_def ts ss)
  ultimately show ?thesis using ss by auto
qed

text \<open>The block that the \<open>i\<close>-th \<open>outsw\<close> sends: 512 bytes from where \<open>ESI\<close> points.\<close>

definition sent_block :: "hdd \<Rightarrow> nat \<Rightarrow> hdd_event" where
  "sent_block h i = Write_block (map (\<lambda>j. mem_of h (esi h i + of_nat j)) [0..<512])"

lemma write_loop:
  assumes "quiet n h" and "\<forall>s\<in>set (status_reads h). s AND STATUS_DRQ = STATUS_DRQ"
    and "unat left = 512 * n" and "512 * n < 2147483648" and "msg_type msg h = MSG_DEV_WRITE"
  shows "\<exists>h'. transfer_loop dev msg a left h = Some (Inr h') \<and> hk h' = hk h \<and>
    trace h' = trace h @ map (sent_block h) [written h..<written h + n]"
  using assms
proof (induction n arbitrary: left a h)
  case 0
  then have "left = 0" by (simp add: unat_eq_0)
  then show ?case by (simp add: transfer_loop.simps)
next
  case (Suc n)
  obtain ts ss where g: "get_status STATUS_DRQ STATUS_DRQ HDD_TIMEOUT h = Inr (True, h\<lparr>tick_reads := ts, status_reads := ss\<rparr>)"
    "quiet n (h\<lparr>tick_reads := ts, status_reads := ss\<rparr>)" "set ss \<subseteq> set (status_reads h)"
    using get_status_ready [OF Suc.prems(1,2)] by blast
  let ?h = "h\<lparr>tick_reads := ts, status_reads := ss, written := written h + 1,
    trace := trace h @ [sent_block h (written h)]\<rparr>"
  have n: "2 * unat (drop_bit 1 (512 :: u32)) = 512" by (simp add: drop_bit_eq_div)
  have "transfer dev msg a left h = Inr ?h"
    using g(1) sector_or_rest [OF Suc.prems(3,4)] Suc.prems(5)
    by (simp add: transfer_def andThen_def Let_def hdd_interrupt_wait_def write_port_def n sent_block_def mem_of_def
        split del: if_split)
  moreover have "left \<noteq> 0" "unat (left - 512) = 512 * n" using Suc.prems(3) by (auto simp: unat_sub_if')
  moreover have "quiet n ?h" using g(2) by (simp add: quiet_def)
  moreover have "\<forall>s\<in>set (status_reads ?h). s AND STATUS_DRQ = STATUS_DRQ" using g(3) Suc.prems(2) by auto
  moreover have "msg_type msg ?h = MSG_DEV_WRITE" using Suc.prems(5) by (simp add: msg_type_def mem_of_def)
  ultimately obtain h' where h': "transfer_loop dev msg a left h = Some (Inr h')" "hk h' = hk ?h"
    "trace h' = trace ?h @ map (sent_block ?h) [written ?h..<written ?h + n]"
    using Suc.IH [of ?h "left - 512" "a + 512"] Suc.prems(4) transfer_loop.simps [of dev msg a left h] by auto
  have "sent_block ?h = sent_block h" by (simp add: sent_block_def mem_of_def fun_eq_iff)
  then have "trace h' = trace h @ map (sent_block h) [written h..<written h + Suc n]"
    using h'(3) by (simp add: upt_rec [of "written h"] del: upt_Suc)
  then show ?case using h'(1,2) by auto
qed

lemma partition_of_cong: "hdd_infos h = hdd_infos h' \<Longrightarrow> partition_of d h = partition_of d h'"
  by (simp add: partition_of_def drive_index_def)

text \<open>
  C25. A write request for whole sectors programs the command and then sends, for each sector,
  the 512 bytes to which \<open>ESI\<close> happens to point: neither the buffer of the request nor the
  memory of the process that asked has any part in what goes to the disk.
\<close>

theorem hdd_write_sends_esi:
  assumes "flat (hk h)" and "quiet (Suc n) h" and "\<forall>s\<in>set (status_reads h). s AND STATUS_DRQ = STATUS_DRQ"
    and "msg_type msg h = MSG_DEV_WRITE" and "partition_of (DEVICE msg h) h = Inr p"
    and "unat (PROC_NR msg h) < TOTAL_TASK_CNT" and "unat (CNT msg h) = 512 * n" and "512 * n < 2147483648"
  shows "\<exists>h'. hdd_read_write dev msg h = Inr h' \<and> mem_of h' = mem_of h \<and>
    trace h' = trace h @
      cmd_bytes (read_write_cmd MSG_DEV_WRITE (DEV_TO_DRV (DEVICE msg h)) (first_sector msg p h) (CNT msg h)) @
      map (\<lambda>i. Write_block (map (\<lambda>j. mem_of h (esi h i + of_nat j)) [0..<512])) [written h..<written h + n]"
proof -
  let ?cmd = "read_write_cmd MSG_DEV_WRITE (DEV_TO_DRV (DEVICE msg h)) (first_sector msg p h) (CNT msg h)"
  obtain ts ss where c: "hdd_cmd_out ?cmd h = Inr (h\<lparr>tick_reads := ts, status_reads := ss,
      selected := ?cmd, given := 0, trace := trace h @ cmd_bytes ?cmd\<rparr>)" (is "_ = Inr ?h1")
    "quiet n (h\<lparr>tick_reads := ts, status_reads := ss\<rparr>)" "set ss \<subseteq> set (status_reads h)"
    using hdd_cmd_out_quiet [OF assms(2), of ?cmd] by blast
  have "quiet n ?h1" "\<forall>s\<in>set (status_reads ?h1). s AND STATUS_DRQ = STATUS_DRQ"
    using c(2,3) assms(3) by (auto simp: quiet_def)
  moreover have "msg_type msg ?h1 = MSG_DEV_WRITE" using assms(4) by (simp add: msg_type_def mem_of_def)
  ultimately
  obtain h' where h': "transfer_loop dev msg (BUF msg h) (CNT msg h) ?h1 = Some (Inr h')" "hk h' = hk ?h1"
    "trace h' = trace ?h1 @ map (sent_block ?h1) [written ?h1..<written ?h1 + n]"
    using write_loop [OF _ _ assms(7,8), of ?h1 msg dev "BUF msg h"] by blast
  have same: "mem_of ?h1 = mem_of h" by (simp add: mem_of_def)
  have "vir_to_linear (PROC_NR msg ?h1) (BUF msg ?h1) (hk ?h1) = Inr (BUF msg h)"
    unfolding request_fields_cong [OF same] using assms(1,6) by (simp add: vir_to_linear_flat_process)
  then have "hdd_read_write dev msg h = Inr h'"
    using c(1) assms(4,5) h'(1) by (simp add: hdd_read_write_def andThen_def Let_def first_sector_def)
  moreover have "sent_block ?h1 = sent_block h" by (simp add: sent_block_def mem_of_def fun_eq_iff)
  ultimately show ?thesis using h'(2,3) by (simp add: mem_of_def sent_block_def [abs_def])
qed

theorem hdd_write_sends_esi_witness:
  "\<exists>h'. hdd_read_write sample_controller 0x1000
      ((sample_hdd sample_table (sample_request(0x1004 := 0xec)))\<lparr>status_reads := [8, 8]\<rparr>) = Inr h' \<and>
     trace h' ! 8 = Write_block (map (\<lambda>j. (sample_request(0x1004 := 0xec)) (0x30000 + of_nat j)) [0..<512])"
proof -
  let ?m = "sample_request(0x1004 := 0xec)"
  let ?h = "(sample_hdd sample_table ?m)\<lparr>status_reads := [8, 8]\<rparr>"
  have f: "msg_type 0x1000 ?h = MSG_DEV_WRITE" "CNT 0x1000 ?h = 512" "PROC_NR 0x1000 ?h = 4" "DEVICE 0x1000 ?h = 1"
    by (simp_all add: msg_type_def CNT_def PROC_NR_def DEVICE_def mem_of_def sample_hdd_def load32_def sample_request_def)
  have "flat (hk ?h)" using sample_hdd_flat by simp
  moreover have "quiet (Suc 1) ?h" using sample_quiet [of sample_table ?m] by (simp add: quiet_def)
  moreover have "partition_of (DEVICE 0x1000 ?h) ?h = Inr \<lparr>base = 63, sec_cnt = 100\<rparr>"
    using sample_partition(1) [of ?m] partition_of_cong [of ?h "sample_hdd sample_table ?m" 1] unfolding f by simp
  ultimately obtain h' where h': "hdd_read_write sample_controller 0x1000 ?h = Inr h'"
    "trace h' = trace ?h @ cmd_bytes (read_write_cmd MSG_DEV_WRITE (DEV_TO_DRV (DEVICE 0x1000 ?h))
        (first_sector 0x1000 \<lparr>base = 63, sec_cnt = 100\<rparr> ?h) (CNT 0x1000 ?h)) @
      map (\<lambda>i. Write_block (map (\<lambda>j. mem_of ?h (esi ?h i + of_nat j)) [0..<512])) [written ?h..<written ?h + 1]"
    using hdd_write_sends_esi [of ?h 1 "0x1000" "\<lparr>base = 63, sec_cnt = 100\<rparr>" sample_controller] f
    by (auto simp del: upt_Suc)
  have w: "trace ?h = []" "written ?h = 0" "esi ?h 0 = 0x30000" "mem_of ?h = ?m"
    by (simp_all add: sample_hdd_def mem_of_def)
  have "trace h' ! 8 = Write_block (map (\<lambda>j. mem_of ?h (esi ?h 0 + of_nat j)) [0..<512])"
    unfolding h'(2) w(1,2) by (simp add: cmd_bytes_def del: upt_Suc)
  then show ?thesis using h'(1) unfolding w by blast
qed


section \<open>Device numbers\<close>

lemma drive_index_one_drive:
  "one_drive f h \<Longrightarrow> drive_index drive h = (if drive = 0 then Inr 0 else Inl (Out_of_table drive))"
  by (simp add: drive_index_def one_drive_def unat_eq_0)

lemma partition_of_one_drive:
  assumes "one_drive f h"
  shows "partition_of d h =
    (if DEV_TO_DRV d \<noteq> 0 then Inl (Out_of_table (DEV_TO_DRV d))
     else if d <s MAX_PRIM then entry_at (primary f) d
     else entry_at (logical f) (c_mod (d - MINOR_hd1a) NR_SUB_PER_DRIVE))"
  using assms drive_index_one_drive [OF assms] by (simp add: partition_of_def one_drive_def)

lemma entry_at_Inr_iff [simp]: "(\<exists>p. entry_at ps i = Inr p) \<longleftrightarrow> unat i < length ps"
  by (simp add: entry_at_def)

lemma logical_device:
  assumes "16 \<le> unat d" and "unat d < 2147483648"
  shows "DEV_TO_DRV d = of_nat ((unat d - 16) div 64)" and "\<not> d <s MAX_PRIM"
    and "c_mod (d - MINOR_hd1a) NR_SUB_PER_DRIVE = of_nat ((unat d - 16) mod 64)"
proof -
  have u: "unat (d - 16) = unat d - 16" using assms(1) by (simp add: unat_sub_if')
  have "sint d = int (unat d)" "sint (d - 16) = int (unat d - 16)"
    using sint_small [of d] sint_small [of "d - 16"] u assms by (simp_all only:)
  then have "9 < sint d" "0 \<le> sint (d - 16)" using assms(1) by linarith+
  then have s: "\<not> d \<le>s MAX_PRIM" "\<not> d <s MAX_PRIM" "0 \<le> sint (d - 16)"
    by (simp_all add: word_sle_eq word_sless_alt)
  show "\<not> d <s MAX_PRIM" by (rule s(2))
  show "DEV_TO_DRV d = of_nat ((unat d - 16) div 64)"
    using s(1) c_div_nonneg(1) [OF s(3), of 64] u by (simp add: DEV_TO_DRV_def)
  show "c_mod (d - MINOR_hd1a) NR_SUB_PER_DRIVE = of_nat ((unat d - 16) mod 64)"
    using c_div_nonneg(2) [OF s(3), of 64] u by simp
qed

lemma no_such_device:
  assumes "one_drive f h" and "5 \<le> unat d" and "unat d < 16"
  shows "\<exists>e. partition_of d h = Inl e"
proof -
  have "unat d = 5 \<or> unat d = 6 \<or> unat d = 7 \<or> unat d = 8 \<or> unat d = 9 \<or> unat d = 10 \<or> unat d = 11 \<or>
      unat d = 12 \<or> unat d = 13 \<or> unat d = 14 \<or> unat d = 15" using assms(2,3) by presburger
  then have "d \<in> {5, 6, 7, 8, 9, 10, 11, 12, 13, 14, 15}" by (auto simp: word_unat_eq_iff)
  moreover have "length (primary f) = 5" "length (logical f) = 64" using assms(1) by (simp_all add: one_drive_def)
  ultimately show ?thesis
    by (auto simp: partition_of_one_drive [OF assms(1)] DEV_TO_DRV_def c_div_def c_mod_def word_sle_eq word_sless_alt
        signed_divide_int_def signed_modulo_int_def entry_at_def
        unsigned_minus_1_eq_mask mask_eq_exp_minus_1)
qed

lemma negative_device:
  assumes "one_drive f h" and "2147483648 \<le> unat d"
  shows "\<exists>e. partition_of d h = Inl e"
proof -
  have "sint d < 2147483648" using sint_lt [of d] by simp
  then have "sint d < 0" using sint_nonneg [of d] assms(2) by linarith
  then have "d <s MAX_PRIM" by (simp add: word_sless_alt)
  moreover have "length (primary f) = 5" using assms(1) by (simp add: one_drive_def)
  ultimately show ?thesis
    using assms(2) by (simp add: partition_of_one_drive [OF assms(1)] entry_at_def)
qed

text \<open>
  C26. The device numbers that stand for a partition of the one drive are 0 to 4, for the drive
  itself and its primary partitions, and 16 to 79, for its logical partitions; the code keeps
  inside its arrays for these, and for no other number.
\<close>

theorem partition_of_device:
  assumes "one_drive f h"
  shows "partition_of d h = Inr p \<longleftrightarrow>
    unat d < 5 \<and> p = primary f ! unat d \<or> 16 \<le> unat d \<and> unat d < 80 \<and> p = logical f ! (unat d - 16)"
proof -
  have len: "length (primary f) = 5" "length (logical f) = 64" using assms by (simp_all add: one_drive_def)
  consider "unat d < 5" | "5 \<le> unat d" "unat d < 16" | "16 \<le> unat d" "unat d < 2147483648" | "2147483648 \<le> unat d"
    by linarith
  then show ?thesis
  proof cases
    case 1
    then have "sint d = int (unat d)" by (intro sint_small) simp
    then have "sint d < 9" using 1 by linarith
    then have "d <s MAX_PRIM" by (simp add: word_sless_alt)
    moreover have "DEV_TO_DRV d = 0" using 1 by (intro DEV_TO_DRV_primary) (simp add: word_less_nat_alt)
    ultimately show ?thesis using 1 len by (auto simp: partition_of_one_drive [OF assms] entry_at_def)
  next
    case 2
    then show ?thesis using no_such_device [OF assms] by force
  next
    case 3
    have "(of_nat ((unat d - 16) div 64) :: c_int) = 0 \<longleftrightarrow> unat d < 80"
      using 3 of_nat_u32_eq_iff [of "(unat d - 16) div 64" 0] by (auto simp: div_eq_0_iff)
    then show ?thesis
      using 3 len logical_device [OF 3] by (auto simp: partition_of_one_drive [OF assms] entry_at_def unat_sub_if')
  next
    case 4
    then show ?thesis using negative_device [OF assms 4] by force
  qed
qed

theorem partition_of_device_witness:
  "partition_of 0x11 (sample_hdd sample_info (\<lambda>_. 0)) = Inr \<lparr>base = 0, sec_cnt = 0\<rparr>"
proof -
  have "one_drive sample_info (sample_hdd sample_info (\<lambda>_. 0))"
    by (rule sample_one_drive) (simp_all add: sample_info_def)
  from partition_of_device [OF this, of "0x11" "\<lparr>base = 0, sec_cnt = 0\<rparr>"] show ?thesis
    by (simp add: sample_info_def)
qed

text \<open>
  The driver's table has one element, so a request to open, close, read or write a device
  of another drive (the macros and device numbers of the header provide for a second one)
  leaves the table: the code goes on with what lies behind it.
\<close>

theorem hdd_other_drive_stops:
  assumes "one_drive f h" and "quiet 1 h" and "DEV_TO_DRV (DEVICE msg h) \<noteq> 0"
    and "msg_type msg h \<in> {MSG_DEV_OPEN, MSG_DEV_CLOSE, MSG_DEV_READ, MSG_DEV_WRITE}"
  shows "hdd_serve dev junk msg h = Inl (Out_of_table (DEV_TO_DRV (DEVICE msg h)))"
proof -
  let ?drive = "DEV_TO_DRV (DEVICE msg h)"
  have "hdd_open dev junk (DEVICE msg h) h = Inl (Out_of_table ?drive)"
  proof -
    let ?cmd = "junk\<lparr>device := MAKE_CMD_DEVICE 0 ?drive 0, command := ATA_IDENTIFY\<rparr>"
    have "quiet (Suc 0) h" using assms(2) by simp
    then obtain h1 h2 where h: "hdd_cmd_out ?cmd h = Inr h1" "h2 = read_port dev (hd_buf h1) 512 (receive_interrupt h1)"
      "hw_step h h2"
      using command_block [of 0 h ?cmd dev] by blast
    have "upd_info ?drive g h2 = Inl (Out_of_table ?drive)" for g
      using drive_index_one_drive [OF one_drive_hw_step [OF assms(1) h(3)]] assms(3) by (simp add: upd_info_def)
    then show ?thesis
      using h(1) by (simp add: hdd_open_def handle_identify_def andThen_def Let_def h(2) [symmetric])
  qed
  moreover have "hdd_close (DEVICE msg h) h = Inl (Out_of_table ?drive)"
    using drive_index_one_drive [OF assms(1)] assms(3) by (simp add: hdd_close_def upd_info_def)
  moreover have "hdd_read_write dev msg h = Inl (Out_of_table ?drive)"
    using partition_of_one_drive [OF assms(1)] assms(3) by (simp add: hdd_read_write_def Let_def)
  ultimately show ?thesis using assms(4) by (auto simp: hdd_serve_def Let_def)
qed

theorem hdd_other_drive_stops_witness:
  "hdd_serve sample_controller sample_cmd 0x1000
     (sample_hdd sample_info (sample_request(0x1004 := 0xe9, 0x1014 := 5))) = Inl (Out_of_table 1)"
proof -
  let ?h = "sample_hdd sample_info (sample_request(0x1004 := 0xe9, 0x1014 := 5))"
  have one: "one_drive sample_info ?h" by (rule sample_one_drive) (simp_all add: sample_info_def)
  have f: "msg_type 0x1000 ?h = MSG_DEV_OPEN" "DEVICE 0x1000 ?h = 5"
    by (simp_all add: msg_type_def DEVICE_def mem_of_def sample_hdd_def load32_def sample_request_def)
  have "DEV_TO_DRV 5 = 1" by (simp add: DEV_TO_DRV_def c_div_def signed_divide_int_def word_sle_eq)
  then show ?thesis using hdd_other_drive_stops [OF one sample_quiet_1, of "0x1000"] f by simp
qed


section \<open>The geometry of a device, and the root device\<close>

text \<open>
  A request for the geometry of a device stores the first sector and the number of sectors
  of its partition, in this order, in the buffer of the process that asked, and changes no
  other byte.
\<close>

theorem hdd_io_control_geometry:
  assumes "flat (hk h)" and "CNT msg h = DIOCTL_GET_GEO" and "unat (PROC_NR msg h) < TOTAL_TASK_CNT"
    and "partition_of (DEVICE msg h) h = Inr p"
  shows "\<exists>h'. hdd_io_control msg h = Inr h' \<and>
    load32 (mem_of h') (BUF msg h) = base p \<and> load32 (mem_of h') (BUF msg h + 4) = sec_cnt p \<and>
    (\<forall>x. \<not> in_block x (BUF msg h) 8 \<longrightarrow> mem_of h' x = mem_of h x)"
proof -
  have "hdd_io_control msg h = Inr (upd_mem (\<lambda>m. store32 (BUF msg h + 4) (sec_cnt p) (store32 (BUF msg h) (base p) m)) h)"
    using assms by (simp add: hdd_io_control_def vir_to_linear_flat_process)
  then show ?thesis by (auto simp: store32_twice_frame)
qed

theorem hdd_io_control_geometry_witness:
  "\<exists>h'. hdd_io_control 0x1000 (sample_hdd sample_table (sample_request(0x100c := 1, 0x100d := 0))) = Inr h' \<and>
     load32 (mem_of h') 0x50000 = 63"
proof -
  let ?h = "sample_hdd sample_table (sample_request(0x100c := 1, 0x100d := 0))"
  have f: "CNT 0x1000 ?h = DIOCTL_GET_GEO" "PROC_NR 0x1000 ?h = 4" "DEVICE 0x1000 ?h = 1" "BUF 0x1000 ?h = 0x50000"
    by (simp_all add: CNT_def PROC_NR_def DEVICE_def BUF_def mem_of_def sample_hdd_def load32_def sample_request_def)
  have "partition_of (DEVICE 0x1000 ?h) ?h = Inr \<lparr>base = 63, sec_cnt = 100\<rparr>" unfolding f by (rule sample_partition(1))
  from hdd_io_control_geometry [OF sample_hdd_flat f(1) _ this] show ?thesis unfolding f by auto
qed

lemma load32_store32_apart:
  assumes "n + 4 \<le> k" and "k < 1000"
  shows "load32 (store32 (a + of_nat k) v m) (a + of_nat n) = load32 m (a + of_nat n)"
proof (rule load32_cong)
  fix i :: nat assume i: "i < 4"
  have "\<not> in_block (a + of_nat n + of_nat i) (a + of_nat k) 4"
  proof
    assume "in_block (a + of_nat n + of_nat i) (a + of_nat k) 4"
    then obtain j where "j < 4" "a + of_nat n + of_nat i = a + of_nat k + of_nat j"
      using in_block_iff_offset [of 4 "a + of_nat n + of_nat i" "a + of_nat k"] by auto
    then have "j < 4" "(of_nat (n + i) :: u32) = of_nat (k + j)" by (simp_all add: add.assoc)
    then have "n + i = k + j" using assms i by (subst (asm) of_nat_u32_eq_iff) simp_all
    then show False using assms i by simp
  qed
  then show "store32 (a + of_nat k) v m (a + of_nat n + of_nat i) = m (a + of_nat n + of_nat i)"
    by (rule store32_frame)
qed

text \<open>A message of 48 bytes, delivered to another place.\<close>

lemma load32_delivered:
  assumes "\<forall>i<48. m' (msg' + of_nat i) = m (msg + of_nat i)" and "n \<le> 44"
  shows "load32 m' (msg' + of_nat n) = load32 m (msg + of_nat n)"
proof (rule load32_cong)
  fix i :: nat assume "i < 4"
  then show "m' (msg' + of_nat n + of_nat i) = m (msg + of_nat n + of_nat i)"
    using assms(1) [rule_format, of "n + i"] assms(2) by (simp add: add.assoc)
qed

text \<open>
  C27. The request the file system task sends at its start goes to the disk task, and when the
  message has been delivered there, the disk task opens the first drive: it reads the
  partition table, and the drive counts as open once.
\<close>

theorem fs_request_opens_root:
  assumes "\<forall>i<48. mem_of h (msg' + of_nat i) = fst (fs_request msg m) (msg + of_nat i)"
    and "one_drive f h" and "quiet 66 h" and "open_cnt f = 0"
  shows "snd (fs_request msg m) = of_nat HDD_TASK \<and>
    (\<exists>h'. hdd_serve dev junk msg' h = Inr h' \<and> one_drive (opened dev junk f) h' \<and> open_cnt (opened dev junk f) = 1)"
proof -
  have sent: "fst (fs_request msg m) = store32 (msg + 20) 0x20 (store32 (msg + 4) MSG_DEV_OPEN m)"
    by (simp add: fs_request_def DEV_MINOR_def)
  have "load32 (store32 (msg + 20) 0x20 (store32 (msg + 4) MSG_DEV_OPEN m)) (msg + 4) = MSG_DEV_OPEN"
    using load32_store32_apart [of 4 20 msg] by simp
  then have "msg_type msg' h = MSG_DEV_OPEN" "DEVICE msg' h = 0x20"
    using load32_delivered [OF assms(1), of 4] load32_delivered [OF assms(1), of 20]
    by (simp_all add: sent msg_type_def DEVICE_def)
  then have "hdd_serve dev junk msg' h = hdd_open dev junk 0x20 h" by (simp add: hdd_serve_def Let_def)
  moreover have "snd (fs_request msg m) = of_nat HDD_TASK"
    by (simp add: fs_request_def DEV_MAJOR_def drive_map_def)
  moreover have "open_cnt (opened dev junk f) = 1" by (simp add: opened_def Let_def)
  ultimately show ?thesis using hdd_open_first [OF assms(2-4) root_device, of dev junk] by auto
qed

theorem fs_request_opens_root_witness:
  "\<exists>h'. hdd_serve sample_controller sample_cmd 0x2000
     (sample_hdd sample_info (\<lambda>a. fst (fs_request 0x1000 (\<lambda>_. 0)) (a - 0x1000))) = Inr h'"
proof -
  let ?m = "fst (fs_request 0x1000 (\<lambda>_. 0))"
  have "\<forall>i<48. mem_of (sample_hdd sample_info (\<lambda>a. ?m (a - 0x1000))) (0x2000 + of_nat i) = ?m (0x1000 + of_nat i)"
    by (simp add: mem_of_def sample_hdd_def)
  moreover have "one_drive sample_info (sample_hdd sample_info (\<lambda>a. ?m (a - 0x1000)))"
    by (rule sample_one_drive) (simp_all add: sample_info_def)
  ultimately show ?thesis
    using fs_request_opens_root [OF _ _ sample_quiet, of sample_info "\<lambda>a. ?m (a - 0x1000)" "0x2000" "0x1000" "\<lambda>_. 0"
        sample_info sample_controller sample_cmd]
    by (auto simp: sample_info_def)
qed
end
