(* ===== verification/Boot.thy ===== *)
theory Boot
  imports Irq Lib_Common Console Interleaving
begin

text \<open>
  The way from the boot loader to the first process: \<open>init_pm_env\<close> of \<open>kernel/core.c\<close>, which
  \<open>_start\<close> of \<open>kernel/gas/entry.s\<close> calls, and then \<open>init_process_main\<close> with its start of the
  clock. This puts together the descriptor tables of \<open>Core\<close>, the interrupt controller of \<open>Irq\<close>,
  the boot messages of \<open>Lib_Common\<close>, the process table of \<open>Init\<close> and the step relation of
  \<open>Syscall\<close>.
\<close>

section \<open>The environment\<close>

text \<open>The six bytes of \<open>gdt_ptr\<close> and \<open>idt_ptr\<close>.\<close>

record table_ptr =
  tp_limit :: u16
  tp_base :: u32

record pm_env =
  pm_mem :: mem
  pm_screen :: screen
  gdt_ptr :: table_ptr
  idt_ptr :: table_ptr
  pm_gdt :: "descriptor list"
  pm_idt :: "gate list"
  pm_tss :: tss
  pm_irqs :: irqs

abbreviation (input) SIZEOF_GATE :: nat where "SIZEOF_GATE \<equiv> 8"

text \<open>A descriptor in the byte memory.\<close>

definition load_descriptor :: "mem \<Rightarrow> addr \<Rightarrow> descriptor" where
  "load_descriptor m a = \<lparr>limit_low = ucast (load16 m a), base_low = ucast (load16 m (a + 2)),
     base_mid = m (a + 4), attr1 = m (a + 5), limit_high_attr2 = m (a + 6), base_high = m (a + 7)\<rparr>"

text \<open>
  \<open>memcpy\<close> copies the loader's table over the bytes of \<open>gdt\<close>; from there on the table is the
  list of its 128 descriptors.
\<close>

definition copy_loader_gdt :: "symbols \<Rightarrow> pm_env \<Rightarrow> pm_env" where
  "copy_loader_gdt lnk e =
     (let m = memcpy (lnk ''gdt'') (tp_base (gdt_ptr e)) (ucast (tp_limit (gdt_ptr e)) + 1) (pm_mem e)
      in e\<lparr>pm_mem := m,
           pm_gdt := map (\<lambda>i. load_descriptor m (lnk ''gdt'' + of_nat (SIZEOF_DESCRIPTOR * i))) [0..<GDT_SIZE]\<rparr>)"

definition init_pm_env :: "symbols \<Rightarrow> pm_env \<Rightarrow> pm_env" where
  "init_pm_env lnk e =
     (let s = (show_text [10] 0 ^^ 13) (pm_screen e);
          s = show_text (chars ''Prepare GDT'' @ [10]) 0 s;
          e = copy_loader_gdt lnk e;
          e = e\<lparr>gdt_ptr := \<lparr>tp_limit = of_nat (GDT_SIZE * SIZEOF_DESCRIPTOR - 1), tp_base = lnk ''gdt''\<rparr>\<rparr>;
          s = show_text (chars ''Prepare IDT'' @ [10]) 0 s;
          e = e\<lparr>idt_ptr := \<lparr>tp_limit = of_nat (IDT_SIZE * SIZEOF_GATE - 1), tp_base = lnk ''idt''\<rparr>\<rparr>;
          irqs = init_8259a (pm_irqs e);
          idt = init_hw_exception_idt lnk (pm_idt e);
          idt = init_hw_interrupt_idt lnk idt;
          idt = init_sw_interrupt_idt lnk idt;
          gdt = init_ldt_descs (lnk ''proc_table'') (pm_gdt e);
          (tss, gdt) = init_tss (lnk ''tss'') gdt
      in e\<lparr>pm_screen := s, pm_irqs := irqs, pm_idt := idt, pm_gdt := gdt, pm_tss := tss\<rparr>)"

section \<open>The kernel's data in memory\<close>

text \<open>
  What lies at the addresses of the kernel's variables before the kernel writes them: the 18 words of
  \<open>REG_STACK\<close>, and a \<open>PROCESS\<close> of 152 bytes (with two bytes of padding behind the local table and
  three behind \<open>have_int_msg\<close>). A pointer into the table stands for the index of its element.
\<close>

abbreviation (input) SIZEOF_PROCESS :: nat where "SIZEOF_PROCESS \<equiv> 152"

definition load_regs :: "mem \<Rightarrow> addr \<Rightarrow> reg_stack" where
  "load_regs m a = \<lparr>r_gs = load32 m a, r_fs = load32 m (a + 4), r_es = load32 m (a + 8), r_ds = load32 m (a + 12),
     r_edi = load32 m (a + 16), r_esi = load32 m (a + 20), r_ebp = load32 m (a + 24), r_krnl_esp = load32 m (a + 28),
     r_ebx = load32 m (a + 32), r_edx = load32 m (a + 36), r_ecx = load32 m (a + 40), r_eax = load32 m (a + 44),
     r_ret_addr = load32 m (a + 48), r_eip = load32 m (a + 52), r_cs = load32 m (a + 56), r_eflags = load32 m (a + 60),
     r_esp = load32 m (a + 64), r_ss = load32 m (a + 68)\<rparr>"

definition load_pointer :: "addr \<Rightarrow> mem \<Rightarrow> addr \<Rightarrow> nat option" where
  "load_pointer pt m a = (if load32 m a = 0 then None else Some (unat (load32 m a - pt) div SIZEOF_PROCESS))"

definition load_process :: "addr \<Rightarrow> mem \<Rightarrow> addr \<Rightarrow> process" where
  "load_process pt m a = \<lparr>p_regs = load_regs m a, p_ldt_sel = ucast (load16 m (a + 72)),
     p_ldt = [load_descriptor m (a + 74), load_descriptor m (a + 82)],
     p_ticks = load32 m (a + 92), p_priority = load32 m (a + 96), p_id = load32 m (a + 100),
     p_name = map (\<lambda>i. m (a + 104 + of_nat i)) [0..<16],
     p_console_id = load32 m (a + 120), p_flags = load32 m (a + 124), p_msg = load32 m (a + 128),
     p_recv_from = load32 m (a + 132), p_send_to = load32 m (a + 136), p_have_int_msg = (m (a + 140) \<noteq> 0),
     p_current_send = load_pointer pt m (a + 144), p_next_send = load_pointer pt m (a + 148)\<rparr>"

text \<open>\<open>out\<close> is what lies outside the process table.\<close>

definition kernel_in_memory :: "symbols \<Rightarrow> mem \<Rightarrow> (c_int \<Rightarrow> process) \<Rightarrow> kernel" where
  "kernel_in_memory lnk m out = (let pt = lnk ''proc_table'' in
     \<lparr>memory = m,
      proc_table = map (\<lambda>i. load_process pt m (pt + of_nat (SIZEOF_PROCESS * i))) [0..<TOTAL_TASK_CNT],
      outside = out,
      process_ready = (case load_pointer pt m (lnk ''process_ready'') of None \<Rightarrow> 0 | Some i \<Rightarrow> i),
      int_reenter = load32 m (lnk ''int_reenter''), ticks = load32 m (lnk ''ticks'')\<rparr>)"

text \<open>
  \<open>init_process_main\<close> from its first message to its end: the process table, as it lies in memory,
  is filled (\<open>Init.init_process_main\<close> is the body up to \<open>init_clock\<close>), the clock is started, and
  \<open>restart_process\<close> leaves the kernel for the first process.
\<close>

definition start_processes :: "symbols \<Rightarrow> (c_int \<Rightarrow> process) \<Rightarrow> pm_env \<Rightarrow> stop + kernel \<times> pm_env" where
  "start_processes lnk out e =
     (let s = show_text (chars ''kernel main start...'' @ [10]) 0 (pm_screen e);
          k = init_process_main lnk (pm_gdt e) (kernel_in_memory lnk (pm_mem e) out)
      in andThen (init_clock (pm_irqs e)) (\<lambda>irqs.
           Inr (kernel_leave k, e\<lparr>pm_screen := s, pm_irqs := irqs\<rparr>)))"

text \<open>
  The registers of the processor \<open>_start\<close> loads. \<open>lgdtw\<close> and \<open>lidtw\<close> have a 16-bit operand
  size, with which the processor takes 24 bits of the base.
\<close>

record cpu =
  gdtr :: table_ptr
  idtr :: table_ptr
  task_register :: u16

definition load_table :: "table_ptr \<Rightarrow> table_ptr" where
  "load_table p = p\<lparr>tp_base := tp_base p AND 0xffffff\<rparr>"

definition start_kernel :: "symbols \<Rightarrow> (c_int \<Rightarrow> process) \<Rightarrow> pm_env \<Rightarrow> stop + kernel \<times> pm_env \<times> cpu" where
  "start_kernel lnk out e =
     (let e = init_pm_env lnk e;
          c = \<lparr>gdtr = load_table (gdt_ptr e), idtr = load_table (idt_ptr e), task_register = 0x20\<rparr>
      in andThen (start_processes lnk out e) (\<lambda>(k, e). Inr (k, e, c)))"

section \<open>The tables\<close>

text \<open>
  What the loader leaves: its four descriptors at the place \<open>sgdt\<close> reports, not overlapping the
  new table, a cleared screen position and an interrupt table in the bss.
\<close>

definition loader_state :: "symbols \<Rightarrow> pm_env \<Rightarrow> bool" where
  "loader_state lnk e \<longleftrightarrow>
     tp_limit (gdt_ptr e) = of_nat (length loader_gdt * SIZEOF_DESCRIPTOR - 1) \<and>
     (\<forall>i<length loader_gdt. load_descriptor (pm_mem e) (tp_base (gdt_ptr e) + of_nat (SIZEOF_DESCRIPTOR * i)) = loader_gdt ! i) \<and>
     32 \<le> lnk ''gdt'' - tp_base (gdt_ptr e) \<and>
     screen.position (pm_screen e) = 0 \<and>
     length (pm_idt e) = IDT_SIZE \<and> (\<forall>g\<in>set (pm_idt e). \<not> gate_present g)"

lemma load_descriptor_cong:
  assumes "\<And>i. i < 8 \<Longrightarrow> m (a + of_nat i) = m' (b + of_nat i)"
  shows "load_descriptor m a = load_descriptor m' b"
  using assms [of 0] assms [of 1] assms [of 2] assms [of 3] assms [of 4] assms [of 5] assms [of 6] assms [of 7]
  by (simp add: load_descriptor_def load16_def add.assoc)

lemma copy_loader_gdt_entries:
  assumes "loader_state lnk e" and "i < 4"
  shows "pm_gdt (copy_loader_gdt lnk e) ! i = loader_gdt ! i"
proof -
  let ?d = "lnk ''gdt''" and ?s = "tp_base (gdt_ptr e)" and ?m = "pm_mem e"
  have cnt: "(ucast (tp_limit (gdt_ptr e)) + 1 :: u32) = 32"
    using assms(1) by (simp add: loader_state_def loader_gdt_def)
  have len: "length loader_gdt = 4" by (simp add: loader_gdt_def)
  have copy: "memcpy ?d ?s 32 ?m = (\<lambda>a. if in_block a ?d 32 then ?m (?s + (a - ?d)) else ?m a)"
    using memcpy_eq [of ?d ?s 32 ?m] assms(1) by (simp add: loader_state_def)
  have "load_descriptor (memcpy ?d ?s 32 ?m) (?d + of_nat (8 * i)) = load_descriptor ?m (?s + of_nat (8 * i))"
  proof (rule load_descriptor_cong)
    fix j :: nat assume j: "j < 8"
    have "in_block (?d + of_nat (8 * i + j)) ?d 32" using assms(2) j by (intro in_block_offset) simp_all
    then show "memcpy ?d ?s 32 ?m (?d + of_nat (8 * i) + of_nat j) = ?m (?s + of_nat (8 * i) + of_nat j)"
      unfolding copy by (simp add: add.assoc)
  qed
  also have "\<dots> = loader_gdt ! i" using assms len by (simp add: loader_state_def)
  finally show ?thesis using assms(2) cnt by (simp add: copy_loader_gdt_def Let_def)
qed

lemma loader_segments: "desc_base (loader_gdt ! 2) = 0"
  by (simp add: loader_gdt_def loader_Descriptor_def desc_base_def Let_def)

text \<open>The descriptor table after the last two steps, for a table with a flat data segment.\<close>

lemma final_gdt:
  fixes t pt
  assumes "length gdt = GDT_SIZE" and "desc_base (gdt ! 2) = 0"
  defines "gdt' \<equiv> snd (init_tss t (init_ldt_descs pt gdt))"
  shows "length gdt' = GDT_SIZE" and "i < 4 \<Longrightarrow> gdt' ! i = gdt ! i"
    and "desc_base (gdt' ! INDEX_TSS) = t \<and> desc_limit (gdt' ! INDEX_TSS) = 107"
    and "j < TOTAL_TASK_CNT \<Longrightarrow>
      gdt' ! (INDEX_LDT_FIRST + j) = init_ldt_descs pt gdt ! (INDEX_LDT_FIRST + j)"
proof -
  let ?l = "init_ldt_descs pt gdt"
  have len: "length ?l = GDT_SIZE" using assms(1) by (simp add: init_ldt_descs_unfold Let_def)
  have keep: "?l ! i = gdt ! i" if "i < 5" for i
    using init_ldt_descs_installs [OF assms(1), of 0 pt] that by simp
  have g: "gdt' = ?l[4 := init_descriptor t 107 DA_386TSS]"
    using keep [of 2] assms(2) by (simp add: gdt'_def init_tss_def vir2phys_def seg2phys_def)
  show "length gdt' = GDT_SIZE" using len by (simp add: g)
  show "i < 4 \<Longrightarrow> gdt' ! i = gdt ! i" using keep [of i] by (simp add: g)
  show "desc_base (gdt' ! INDEX_TSS) = t \<and> desc_limit (gdt' ! INDEX_TSS) = 107"
    using len by (simp add: g desc_limit_init_descriptor)
  show "gdt' ! (INDEX_LDT_FIRST + j) = ?l ! (INDEX_LDT_FIRST + j)" by (simp add: g)
qed

lemma init_pm_env_fields:
  fixes lnk e
  defines "e' \<equiv> init_pm_env lnk e"
  shows "pm_gdt e' = snd (init_tss (lnk ''tss'') (init_ldt_descs (lnk ''proc_table'') (pm_gdt (copy_loader_gdt lnk e))))"
    and "pm_idt e' = init_idt lnk (pm_idt e)" and "pm_irqs e' = init_8259a (pm_irqs e)"
    and "gdt_ptr e' = \<lparr>tp_limit = 1023, tp_base = lnk ''gdt''\<rparr>"
    and "idt_ptr e' = \<lparr>tp_limit = 2047, tp_base = lnk ''idt''\<rparr>"
    and "tss_ss0 (pm_tss e') = ucast SELECTOR_KERNEL_DS"
    and "pm_screen e' = show_text (chars ''Prepare IDT'' @ [10]) 0
      (show_text (chars ''Prepare GDT'' @ [10]) 0 ((show_text [10] 0 ^^ 13) (pm_screen e)))"
  by (simp_all add: e'_def init_pm_env_def copy_loader_gdt_def init_idt_def init_tss_def Let_def)

lemma line_shown:
  assumes "plain xs" and "length xs < 80" and "k < 1000"
  shows "screen.position (show_text (xs @ [10]) color (s\<lparr>screen.position := of_nat (160 * k)\<rparr>)) = of_nat (160 * Suc k)"
proof -
  let ?s = "s\<lparr>screen.position := of_nat (160 * k)\<rparr>"
  have p: "screen.position (show_text xs color ?s) = of_nat (160 * k + 2 * length xs)"
    using assms(2) by (simp add: show_text_plain [OF assms(1)])
  have "(of_nat n :: u32) div 160 = of_nat (n div 160)" if "n < 4294967296" for n
    using that by (simp add: word_arith_nat_div)
  from this [of "160 * k + 2 * length xs"]
  have "(of_nat (160 * k + 2 * length xs) :: u32) div 160 = of_nat ((160 * k + 2 * length xs) div 160)"
    using assms(2,3) by simp
  moreover have "(160 * k + 2 * length xs) div 160 = k" using assms(2) by simp
  ultimately have "screen.position (show_text xs color ?s) div 160 = of_nat k" unfolding p by simp
  then show ?thesis by (simp add: show_text_append show_text_newline algebra_simps)
qed

lemma boot_position:
  assumes "loader_state lnk e"
  shows "screen.position (pm_screen (init_pm_env lnk e)) = 2400"
proof -
  have nl: "show_text [10] 0 (s\<lparr>screen.position := of_nat (160 * k)\<rparr>) = s\<lparr>screen.position := of_nat (160 * Suc k)\<rparr>"
    if "k < 1000" for k s
    using line_shown [of "[]" k 0 s] that by (simp add: plain_def show_text_newline)
  have rows: "(show_text [10] 0 ^^ n) (s\<lparr>screen.position := 0\<rparr>) = s\<lparr>screen.position := of_nat (160 * n)\<rparr>" if "n < 1000" for n s
    using that by (induction n) (simp_all add: nl del: of_nat_mult of_nat_Suc mult_Suc_right)
  have "(pm_screen e)\<lparr>screen.position := 0\<rparr> = pm_screen e"
    using assms by (intro screen.equality) (simp_all add: loader_state_def)
  then have start: "(show_text [10] 0 ^^ 13) (pm_screen e) = (pm_screen e)\<lparr>screen.position := of_nat (160 * 13)\<rparr>"
    using rows [of 13 "pm_screen e"] by simp
  have pl: "plain (chars ''Prepare GDT'')" "plain (chars ''Prepare IDT'')" by (simp_all add: plain_def chars_def)
  define s1 where "s1 = show_text (chars ''Prepare GDT'' @ [10]) 0 ((pm_screen e)\<lparr>screen.position := of_nat (160 * 13)\<rparr>)"
  have "s1 = s1\<lparr>screen.position := of_nat (160 * 14)\<rparr>"
    using line_shown [OF pl(1), of 13 0 "pm_screen e"] by (simp add: s1_def chars_def)
  moreover have "screen.position (show_text (chars ''Prepare IDT'' @ [10]) 0 (s1\<lparr>screen.position := of_nat (160 * 14)\<rparr>)) = of_nat (160 * 15)"
    using line_shown [OF pl(2), of 14 0 s1] by (simp add: chars_def)
  ultimately show ?thesis unfolding init_pm_env_fields(7) start s1_def [symmetric] by simp
qed

section \<open>Properties\<close>

lemma pm_env_tables:
  assumes "loader_state lnk e"
  defines "e' \<equiv> init_pm_env lnk e"
  shows "(\<forall>i<4. pm_gdt e' ! i = loader_gdt ! i) \<and>
    desc_base (pm_gdt e' ! INDEX_TSS) = lnk ''tss'' \<and> desc_limit (pm_gdt e' ! INDEX_TSS) = 107 \<and>
    (\<forall>i<TOTAL_TASK_CNT. desc_base (pm_gdt e' ! (INDEX_LDT_FIRST + i)) = ldt_addr (lnk ''proc_table'') i \<and>
       desc_limit (pm_gdt e' ! (INDEX_LDT_FIRST + i)) = 15) \<and>
    (\<forall>(v, h, p)\<in>set idt_entries. gate_present (pm_idt e' ! unat v) \<and>
       gate_offset (pm_idt e' ! unat v) = lnk h \<and> gate_dpl (pm_idt e' ! unat v) = p) \<and>
    (\<forall>v. gate_present (pm_idt e' ! unat v) \<and> gate_dpl (pm_idt e' ! unat v) = PRI_USER \<longleftrightarrow>
       v = 0x03 \<or> v = 0x04 \<or> v = (0x90 :: u8)) \<and>
    gdt_ptr e' = \<lparr>tp_limit = 1023, tp_base = lnk ''gdt''\<rparr> \<and>
    idt_ptr e' = \<lparr>tp_limit = 2047, tp_base = lnk ''idt''\<rparr> \<and>
    programmed (pm_irqs e') \<and> (\<forall>i. \<not> enabled (pm_irqs e') i)"
proof -
  let ?g = "pm_gdt (copy_loader_gdt lnk e)"
  have len: "length ?g = GDT_SIZE" by (simp add: copy_loader_gdt_def Let_def)
  have flat: "desc_base (?g ! 2) = 0" using copy_loader_gdt_entries [OF assms(1), of 2] loader_segments by simp
  note g = final_gdt [OF len flat, where t = "lnk ''tss''" and pt = "lnk ''proc_table''"]
  have "seg2phys ?g SELECTOR_KERNEL_DS = 0" using flat by (simp add: seg2phys_def)
  then have ldt: "desc_base (pm_gdt e' ! (INDEX_LDT_FIRST + i)) = ldt_addr (lnk ''proc_table'') i \<and>
       desc_limit (pm_gdt e' ! (INDEX_LDT_FIRST + i)) = 15" if "i < TOTAL_TASK_CNT" for i
    using g(4) [OF that] init_ldt_descs_entry [OF len that, of "lnk ''proc_table''"]
    by (simp add: e'_def init_pm_env_fields(1))
  have idt: "length (pm_idt e) = IDT_SIZE" "\<forall>x\<in>set (pm_idt e). \<not> gate_present x"
    using assms(1) by (simp_all add: loader_state_def)
  have gates: "\<forall>(v, h, p)\<in>set idt_entries. gate_present (pm_idt e' ! unat v) \<and>
       gate_offset (pm_idt e' ! unat v) = lnk h \<and> gate_dpl (pm_idt e' ! unat v) = p"
    using init_idt_gate [OF _ idt(1)] by (auto simp: e'_def init_pm_env_fields(2))
  have loader: "\<forall>i<4. pm_gdt e' ! i = loader_gdt ! i"
    using g(2) copy_loader_gdt_entries [OF assms(1)] by (simp add: e'_def init_pm_env_fields(1))
  show ?thesis
    using loader ldt gates g(3) idt_user_vectors [OF idt, of lnk] init_8259a_state
    by (simp add: e'_def init_pm_env_fields)
qed

text \<open>A loader's table in memory at \<open>0x90200\<close>.\<close>

definition sample_env :: pm_env where
  "sample_env = \<lparr>
     pm_mem = (\<lambda>a. if unat (a - 0x90200) < 32
       then [0, 0, 0, 0, 0, 0, 0, 0, 0xff, 0xff, 0, 0, 0, 0x9a, 0xcf, 0,
             0xff, 0xff, 0, 0, 0, 0x92, 0xcf, 0, 0xff, 0xff, 0, 0x80, 0x0b, 0xf2, 0, 0] ! unat (a - 0x90200) else 0),
     pm_screen = \<lparr>screen.position = 0, video = \<lambda>_. 0\<rparr>,
     gdt_ptr = \<lparr>tp_limit = 31, tp_base = 0x90200\<rparr>, idt_ptr = \<lparr>tp_limit = 0, tp_base = 0\<rparr>,
     pm_gdt = [], pm_idt = replicate 256 \<lparr>offset_low = 0, selector = 0, d_count = 0, gate_attr = 0, offset_high = 0\<rparr>,
     pm_tss = zero_tss, pm_irqs = sample_irqs\<rparr>"

definition sample_symbols :: symbols where
  "sample_symbols n = (if n = ''gdt'' then 0x31000 else if n = ''idt'' then 0x32000 else if n = ''tss'' then 0x33000 else 0x34000)"

lemma sample_loader_state: "loader_state sample_symbols sample_env"
proof -
  have "load_descriptor (pm_mem sample_env) (0x90200 + of_nat (8 * i)) = loader_gdt ! i" if i: "i < 4" for i
  proof -
    have "i = 0 \<or> i = 1 \<or> i = 2 \<or> i = 3" using i by linarith
    then show ?thesis
      by (elim disjE) (simp_all add: sample_env_def load_descriptor_def load16_def loader_gdt_def loader_Descriptor_def Let_def)
  qed
  then show ?thesis
    by (simp add: loader_state_def sample_env_def sample_symbols_def loader_gdt_def gate_present_def)
qed

text \<open>
  C36. From the loader's state \<open>init_pm_env\<close> builds the tables the kernel runs with: the four
  descriptors of the loader, the task state segment and one local table per process at their linked
  addresses with their sizes; gates for all exceptions, interrupts and the system call, of which
  user code can raise the vectors 3, 4 and 0x90 only; the pointers for \<open>lgdt\<close> and \<open>lidt\<close>; and the
  interrupt chips programmed with every line masked.
\<close>

theorem init_pm_env_tables:
  assumes "loader_state lnk e"
  defines "e' \<equiv> init_pm_env lnk e"
  shows "(\<forall>i<4. pm_gdt e' ! i = loader_gdt ! i) \<and>
    desc_base (pm_gdt e' ! INDEX_TSS) = lnk ''tss'' \<and> desc_limit (pm_gdt e' ! INDEX_TSS) = 107 \<and>
    (\<forall>i<TOTAL_TASK_CNT. desc_base (pm_gdt e' ! (INDEX_LDT_FIRST + i)) = ldt_addr (lnk ''proc_table'') i \<and>
       desc_limit (pm_gdt e' ! (INDEX_LDT_FIRST + i)) = 15) \<and>
    (\<forall>(v, h, p)\<in>set idt_entries. gate_present (pm_idt e' ! unat v) \<and>
       gate_offset (pm_idt e' ! unat v) = lnk h \<and> gate_dpl (pm_idt e' ! unat v) = p) \<and>
    (\<forall>v. gate_present (pm_idt e' ! unat v) \<and> gate_dpl (pm_idt e' ! unat v) = PRI_USER \<longleftrightarrow>
       v = 0x03 \<or> v = 0x04 \<or> v = (0x90 :: u8)) \<and>
    gdt_ptr e' = \<lparr>tp_limit = 1023, tp_base = lnk ''gdt''\<rparr> \<and>
    idt_ptr e' = \<lparr>tp_limit = 2047, tp_base = lnk ''idt''\<rparr> \<and>
    programmed (pm_irqs e') \<and> (\<forall>i. \<not> enabled (pm_irqs e') i)"
  unfolding e'_def using assms(1) by (rule pm_env_tables)

theorem init_pm_env_tables_witness:
  "let e' = init_pm_env sample_symbols sample_env
   in desc_base (pm_gdt e' ! INDEX_TSS) = 0x33000 \<and> desc_base (pm_gdt e' ! 3) = 0xb8000 \<and>
      gate_offset (pm_idt e' ! 0x90) = 0x34000 \<and> \<not> enabled (pm_irqs e') 0"
proof -
  note t = init_pm_env_tables [OF sample_loader_state]
  have "pm_gdt (init_pm_env sample_symbols sample_env) ! 3 = loader_gdt ! 3" using t by simp
  moreover have "(0x90, ''sys_call'', PRI_USER) \<in> set idt_entries" by (simp add: idt_entries_def)
  then have "gate_offset (pm_idt (init_pm_env sample_symbols sample_env) ! unat (0x90 :: u8)) = sample_symbols ''sys_call''"
    using t by blast
  ultimately show ?thesis
    using t by (simp add: Let_def sample_symbols_def loader_gdt_def loader_Descriptor_def desc_base_def)
qed

text \<open>
  What the start needs of its parts: the table registers keep a base below 16 MB, and the first
  process to run leaves the process table as it was made, with its selectors and stacks.
\<close>

lemma load_zero:
  assumes "\<And>i. i < n \<Longrightarrow> m (a + of_nat i) = 0"
  shows "k + 4 \<le> n \<Longrightarrow> load32 m (a + of_nat k) = 0" and "k + 2 \<le> n \<Longrightarrow> load16 m (a + of_nat k) = 0"
    and "k + 8 \<le> n \<Longrightarrow> load_descriptor m (a + of_nat k) = zero_descriptor"
proof -
  have z: "m (a + of_nat k + of_nat j) = 0" if "k + j < n" for j
    using assms [OF that] by (simp add: add.assoc)
  show "k + 4 \<le> n \<Longrightarrow> load32 m (a + of_nat k) = 0" "k + 2 \<le> n \<Longrightarrow> load16 m (a + of_nat k) = 0"
    "k + 8 \<le> n \<Longrightarrow> load_descriptor m (a + of_nat k) = zero_descriptor"
    using z [of 0] z [of 1] z [of 2] z [of 3] z [of 4] z [of 5] z [of 6] z [of 7]
    by (simp_all add: load32_def load16_def load_descriptor_def zero_descriptor_def add.assoc)
qed

lemma load_process_zero:
  assumes "\<And>i. i < SIZEOF_PROCESS \<Longrightarrow> m (a + of_nat i) = 0"
  shows "load_process pt m a = bss_process"
proof -
  note z = load_zero [of 152 m a, OF assms]
  have "m (a + 140) = 0" using assms [of 140] by simp
  moreover have "m (a + 104 + of_nat i) = 0" if "i < 16" for i
    using assms [of "104 + i"] that by (simp add: add.assoc)
  then have "map (\<lambda>i. m (a + 104 + of_nat i)) [0..<16] = replicate 16 0"
    by (intro nth_equalityI) simp_all
  ultimately show ?thesis
    using z(1) [of 0] z(1) [of 4] z(1) [of 8] z(1) [of 12] z(1) [of 16] z(1) [of 20] z(1) [of 24] z(1) [of 28] z(1) [of 32]
      z(1) [of 36] z(1) [of 40] z(1) [of 44] z(1) [of 48] z(1) [of 52] z(1) [of 56] z(1) [of 60] z(1) [of 64] z(1) [of 68]
      z(2) [of 72] z(3) [of 74] z(3) [of 82] z(1) [of 92] z(1) [of 96] z(1) [of 100] z(1) [of 120] z(1) [of 124]
      z(1) [of 128] z(1) [of 132] z(1) [of 136] z(1) [of 144] z(1) [of 148]
    by (simp add: load_process_def load_regs_def load_pointer_def bss_process_def zero_regs_def numeral_2_eq_2)
qed

text \<open>Zeros where the process table is linked.\<close>

definition table_zero :: "symbols \<Rightarrow> mem \<Rightarrow> bool" where
  "table_zero lnk m \<longleftrightarrow> (\<forall>x. in_block x (lnk ''proc_table'') (SIZEOF_PROCESS * TOTAL_TASK_CNT) \<longrightarrow> m x = 0)"

lemma start_from_zeros:
  assumes "table_zero lnk m"
  shows "init_process_main lnk gdt (kernel_in_memory lnk m out) = boot_kernel lnk gdt m out"
proof -
  let ?pt = "lnk ''proc_table''"
  have "load_process ?pt m (?pt + of_nat (SIZEOF_PROCESS * i)) = bss_process" if i: "i < TOTAL_TASK_CNT" for i
  proof (rule load_process_zero)
    fix j :: nat assume j: "j < SIZEOF_PROCESS"
    then have "in_block (?pt + of_nat (SIZEOF_PROCESS * i + j)) ?pt (SIZEOF_PROCESS * TOTAL_TASK_CNT)"
      using i by (intro in_block_offset) simp_all
    then show "m (?pt + of_nat (SIZEOF_PROCESS * i) + of_nat j) = 0"
      using assms by (simp add: table_zero_def add.assoc)
  qed
  then have "map (\<lambda>i. load_process ?pt m (?pt + of_nat (SIZEOF_PROCESS * i))) [0..<TOTAL_TASK_CNT] =
      replicate TOTAL_TASK_CNT bss_process"
    by (intro nth_equalityI) simp_all
  then have "kernel_in_memory lnk m out = (bss_kernel m out)\<lparr>process_ready := process_ready (kernel_in_memory lnk m out),
      int_reenter := int_reenter (kernel_in_memory lnk m out), ticks := ticks (kernel_in_memory lnk m out)\<rparr>"
    by (simp add: kernel_in_memory_def bss_kernel_def Let_def)
  then show ?thesis unfolding boot_kernel_def by (metis init_process_main_globals)
qed

text \<open>The copy of the loader's table does not reach the process table.\<close>

lemma table_zero_init:
  assumes "table_zero lnk (pm_mem e)" and "tp_limit (gdt_ptr e) = 31"
    and "\<forall>x. in_block x (lnk ''proc_table'') (SIZEOF_PROCESS * TOTAL_TASK_CNT) \<longrightarrow> \<not> in_block x (lnk ''gdt'') 32"
  shows "table_zero lnk (pm_mem (init_pm_env lnk e))"
proof -
  have "pm_mem (init_pm_env lnk e) = memcpy (lnk ''gdt'') (tp_base (gdt_ptr e)) 32 (pm_mem e)"
    using assms(2) by (simp add: init_pm_env_def copy_loader_gdt_def init_tss_def Let_def)
  then show ?thesis using assms(1,3) by (simp add: table_zero_def memcpy_frame)
qed

lemma load_table_low:
  assumes "b < 0x1000000"
  shows "load_table \<lparr>tp_limit = l, tp_base = b\<rparr> = \<lparr>tp_limit = l, tp_base = b\<rparr>"
proof -
  have "b AND 0xffffff = b" using assms less_mask_eq [of b 24] by (simp add: mask_eq_exp_minus_1)
  then show ?thesis by (simp add: load_table_def)
qed

lemma first_process_selector:
  assumes "i < TOTAL_TASK_CNT"
  shows "unat (drop_bit 3 (p_ldt_sel (proc (kernel_leave (boot_kernel lnk g m out)) i))) = INDEX_LDT_FIRST + i"
proof -
  have "proc (kernel_leave (boot_kernel lnk g m out)) i = proc (boot_kernel lnk g m out) i"
    by (simp add: kernel_leave_def proc_def)
  then show ?thesis using less_TOTAL [OF assms] by (auto simp: proc_boot_kernel init_process_def Let_def)
qed

lemma first_process_stacks:
  assumes "i < TOTAL_TASK_CNT" "j < TOTAL_TASK_CNT" "i \<noteq> j"
    and "stack_of (kernel_leave (boot_kernel lnk g m out)) i a"
  shows "\<not> stack_of (kernel_leave (boot_kernel lnk g m out)) j a"
proof -
  have "stack_of (kernel_leave (boot_kernel lnk g m out)) n a = stack_of (boot_kernel lnk g m out) n a" for n
    by (simp add: stack_of_def kernel_leave_def proc_def)
  then show ?thesis using init_process_main_stacks_disjoint [OF assms(1-3)] assms(4) by blast
qed

lemma start_kernel_steps:
  fixes out
  assumes "loader_state lnk e" and "table_zero lnk (pm_mem e)"
    and "\<forall>x. in_block x (lnk ''proc_table'') (SIZEOF_PROCESS * TOTAL_TASK_CNT) \<longrightarrow> \<not> in_block x (lnk ''gdt'') 32"
  defines "e1 \<equiv> init_pm_env lnk e"
  defines "k \<equiv> kernel_leave (boot_kernel lnk (pm_gdt e1) (pm_mem e1) out)"
  shows "\<exists>e' c. start_kernel lnk out e = Inr (k, e', c) \<and> pm_gdt e' = pm_gdt e1 \<and> desc_base (pm_gdt e1 ! 2) = 0 \<and>
    reachable lnk (pm_gdt e1) k \<and> process_ready k = 0 \<and> kernel_inv k \<and>
    gdtr c = load_table (gdt_ptr e1) \<and> idtr c = load_table (idt_ptr e1) \<and> task_register c = 0x20 \<and>
    (\<forall>i<16. enabled (pm_irqs e') i \<longleftrightarrow> i = 0) \<and> irq_table (pm_irqs e') ! 0 = ''clock_int_handler'' \<and>
    screen.position (pm_screen e') = 2560"
proof -
  have flat: "desc_base (pm_gdt e1 ! 2) = 0" using pm_env_tables [OF assms(1), folded e1_def] loader_segments by simp
  obtain q where q: "init_clock (pm_irqs e1) = Inr q" "\<forall>i<16. enabled q i \<longleftrightarrow> i = 0"
    "irq_table q ! 0 = ''clock_int_handler''"
    using init_clock_first [of "pm_irqs e"] by (auto simp: e1_def init_pm_env_fields(3))
  define s where "s = show_text (chars ''kernel main start...'' @ [10]) 0 (pm_screen e1)"
  have "tp_limit (gdt_ptr e) = 31" using assms(1) by (simp add: loader_state_def loader_gdt_def)
  then have "table_zero lnk (pm_mem e1)" unfolding e1_def using assms(2,3) by (intro table_zero_init)
  then have k: "k = kernel_leave (init_process_main lnk (pm_gdt e1) (kernel_in_memory lnk (pm_mem e1) out))"
    by (simp add: start_from_zeros k_def)
  have "screen.position s = 2560"
  proof -
    have "(pm_screen e1)\<lparr>screen.position := of_nat (160 * 15)\<rparr> = pm_screen e1"
      using boot_position [OF assms(1)] by (intro screen.equality) (simp_all add: e1_def)
    moreover have "plain (chars ''kernel main start...'')" by (simp add: plain_def chars_def)
    ultimately show ?thesis
      using line_shown [of "chars ''kernel main start...''" 15 0 "pm_screen e1"] by (simp add: s_def chars_def)
  qed
  moreover have "start_kernel lnk out e = Inr (k, e1\<lparr>pm_screen := s, pm_irqs := q\<rparr>,
      \<lparr>gdtr = load_table (gdt_ptr e1), idtr = load_table (idt_ptr e1), task_register = 0x20\<rparr>)"
    using q(1) by (simp add: start_kernel_def start_processes_def Let_def e1_def [symmetric] s_def k)
  moreover have "reachable lnk (pm_gdt e1) k" unfolding k_def by (rule reachable.start)
  moreover have "kernel_inv k" unfolding k_def using boot_kernel_inv [OF flat] .
  moreover have "process_ready k = 0" by (simp add: k_def)
  ultimately show ?thesis using q(2,3) flat by simp
qed

text \<open>
  C16. From the loader's state, with the kernel linked below 16 MB and zeros where its process table
  lies, the start loads the processor with the new tables and the task state segment and reaches
  the first process in a state of the step relation with a flat data segment, so that its invariants hold
  from then on; the local table each process selects is its own and the stacks are disjoint;
  the clock's line is enabled, with its handler, and no other; and the boot messages, of which
  \<open>kernel main start...\<close> is the last, leave the cursor at the start of row 16, where the console task
  takes it over.
\<close>

theorem boot_reaches_first_process:
  assumes "loader_state lnk e" and "lnk ''gdt'' < 0x1000000" and "lnk ''idt'' < 0x1000000"
    and "table_zero lnk (pm_mem e)"
    and "\<forall>x. in_block x (lnk ''proc_table'') (SIZEOF_PROCESS * TOTAL_TASK_CNT) \<longrightarrow> \<not> in_block x (lnk ''gdt'') 32"
  shows "\<exists>k e' c. start_kernel lnk out e = Inr (k, e', c) \<and>
    gdtr c = \<lparr>tp_limit = 1023, tp_base = lnk ''gdt''\<rparr> \<and> idtr c = \<lparr>tp_limit = 2047, tp_base = lnk ''idt''\<rparr> \<and>
    desc_base (pm_gdt e' ! unat (drop_bit 3 (task_register c))) = lnk ''tss'' \<and> reachable lnk (pm_gdt e') k \<and> desc_base (pm_gdt e' ! 2) = 0 \<and>
    process_ready k = 0 \<and> kernel_inv k \<and>
    (\<forall>i<TOTAL_TASK_CNT. desc_base (pm_gdt e' ! unat (drop_bit 3 (p_ldt_sel (proc k i)))) = ldt_addr (lnk ''proc_table'') i) \<and>
    (\<forall>i<TOTAL_TASK_CNT. \<forall>j<TOTAL_TASK_CNT. \<forall>a. i \<noteq> j \<and> stack_of k i a \<longrightarrow> \<not> stack_of k j a) \<and>
    (\<forall>i<16. enabled (pm_irqs e') i \<longleftrightarrow> i = 0) \<and> irq_table (pm_irqs e') ! 0 = ''clock_int_handler'' \<and>
    (\<forall>d. display_raw d \<and> display.position d = screen.position (pm_screen e') \<longrightarrow>
       (\<exists>d'. init_consoles d = Some d' \<and> display_wf d' \<and> cursor_pos (con d' 0) = 1280))"
proof -
  define e1 where "e1 = init_pm_env lnk e"
  define k where "k = kernel_leave (boot_kernel lnk (pm_gdt e1) (pm_mem e1) out)"
  note t = pm_env_tables [OF assms(1), folded e1_def]
  obtain e' c where s: "start_kernel lnk out e = Inr (k, e', c)" "pm_gdt e' = pm_gdt e1" "desc_base (pm_gdt e1 ! 2) = 0"
    "reachable lnk (pm_gdt e1) k" "process_ready k = 0" "kernel_inv k" "gdtr c = load_table (gdt_ptr e1)"
    "idtr c = load_table (idt_ptr e1)" "task_register c = 0x20" "\<forall>i<16. enabled (pm_irqs e') i \<longleftrightarrow> i = 0"
    "irq_table (pm_irqs e') ! 0 = ''clock_int_handler''" "screen.position (pm_screen e') = 2560"
    using start_kernel_steps [OF assms(1,4,5), of out] unfolding e1_def k_def by blast
  have sel: "desc_base (pm_gdt e1 ! unat (drop_bit 3 (p_ldt_sel (proc k i)))) = ldt_addr (lnk ''proc_table'') i"
    if "i < TOTAL_TASK_CNT" for i unfolding k_def first_process_selector [OF that] using t that by simp
  have cur: "\<exists>d'. init_consoles d = Some d' \<and> display_wf d' \<and> cursor_pos (con d' 0) = 1280"
    if "display_raw d \<and> display.position d = screen.position (pm_screen e')" for d
    using init_consoles_result [of d] that s(12) by fastforce
  have st: "\<not> stack_of k j a" if "i < TOTAL_TASK_CNT" "j < TOTAL_TASK_CNT" "i \<noteq> j" "stack_of k i a" for i j a
    using first_process_stacks that unfolding k_def by blast
  have reg: "gdtr c = \<lparr>tp_limit = 1023, tp_base = lnk ''gdt''\<rparr>" "idtr c = \<lparr>tp_limit = 2047, tp_base = lnk ''idt''\<rparr>"
    "desc_base (pm_gdt e1 ! unat (drop_bit 3 (task_register c))) = lnk ''tss''"
    using s(7-9) t by (simp_all add: load_table_low [OF assms(2)] load_table_low [OF assms(3)])
  show ?thesis
    using s(1-6,10,11) reg sel st cur by (intro exI [of _ k] exI [of _ e'] exI [of _ c]) simp
qed

text \<open>The sample table does not reach into the process table.\<close>

lemma sample_tables_apart:
  "in_block x (sample_symbols ''proc_table'') (SIZEOF_PROCESS * TOTAL_TASK_CNT) \<Longrightarrow> \<not> in_block x (sample_symbols ''gdt'') 32"
  using unat_diff_less_iff [of "0x34000" 1064 x] unat_diff_less_iff [of "0x31000" 32 x]
  by (simp add: sample_symbols_def in_block_def)

lemma sample_table_zero: "table_zero sample_symbols (pm_mem sample_env)"
  unfolding table_zero_def
proof (intro allI impI)
  fix x assume "in_block x (sample_symbols ''proc_table'') (SIZEOF_PROCESS * TOTAL_TASK_CNT)"
  then have "unat x < 0x35000"
    using unat_diff_less_iff [of "0x34000" 1064 x] by (simp add: sample_symbols_def in_block_def)
  then have "\<not> unat (x - 0x90200) < 32" using unat_diff_less_iff [of "0x90200" 32 x] by simp
  then show "pm_mem sample_env x = 0" by (simp add: sample_env_def)
qed

theorem boot_reaches_first_process_witness:
  "\<exists>k e' c. start_kernel sample_symbols (\<lambda>_. bss_process) sample_env = Inr (k, e', c) \<and> kernel_inv k \<and>
     enabled (pm_irqs e') 0 \<and> \<not> enabled (pm_irqs e') 1"
  using boot_reaches_first_process [OF sample_loader_state _ _ sample_table_zero, of "\<lambda>_. bss_process"] sample_tables_apart
  by (fastforce simp: sample_symbols_def)

end
