(* ===== verification/Exceptions.thy ===== *)
theory Exceptions
  imports Core Lib_Common
begin

text \<open>
  Processor exceptions: the entries of \<open>kernel/gas/exception.s\<close>, which complete the frame the
  processor pushed, and \<open>hw_exception_handler\<close> of \<open>kernel/exception.c\<close>, which shows it at the
  start of the video memory. After that the processor is halted.
\<close>

section \<open>The handler\<close>

definition err_msg :: "string list" where
  "err_msg =
     [''##_division_by_error'', ''##_debugger'', ''##_nmi'', ''##_breakpoint'', ''##_overflow'',
      ''##_bounds'', ''##_invalid_opcode'', ''##_coprocessor_not_available'', ''##_double_foult'',
      ''##_coprocessor_segment_overrun'', ''##_invalid_task_state_segment'', ''##_segment_not_present'',
      ''##_stack_fault'', ''##_general_protected_fault'', ''##_page_fault'', ''##_reserved'',
      ''##_math_fault'', ''##_alignment_check'', ''##_machine_check'', ''##_simd_floating_point_exception'']"

text \<open>A label and a number; \<open>buffer\<close> is the local array.\<close>

definition show_number :: "addr \<Rightarrow> string \<Rightarrow> c_int \<Rightarrow> mem \<times> screen \<Rightarrow> stop + mem \<times> screen" where
  "show_number buffer label v = (\<lambda>(m, s).
     andThen (itoa_base v buffer 16 m) (\<lambda>m.
     andThen (returns (show_msg_ext m buffer 0x74 (show_text (chars label) 0x74 s))) (\<lambda>s. Inr (m, s))))"

definition hw_exception_handler ::
  "addr \<Rightarrow> c_int \<Rightarrow> c_int \<Rightarrow> c_int \<Rightarrow> c_int \<Rightarrow> c_int \<Rightarrow> mem \<times> screen \<Rightarrow> stop + mem \<times> screen" where
  "hw_exception_handler buffer vector err_code eip cs eflags = (\<lambda>(m, s).
     let s = show_text (chars ''Exception : '') 0x74 (s\<lparr>position := 0\<rparr>) in
     if \<not> unat vector < length err_msg then Inl (Out_of_table vector)
     else
       (let s = show_text [10] 0 (show_text (chars (err_msg ! unat vector)) 0x74 s);
            m = memset buffer 0 80 m
        in andThen (show_number buffer ''eflags:'' eflags (m, s)) (\<lambda>ms.
           andThen (show_number buffer '' cs:'' cs ms) (\<lambda>ms.
           andThen (show_number buffer '' eip:'' eip ms) (\<lambda>ms.
             show_number buffer '' err_code:'' err_code ms)))))"

section \<open>The entries\<close>

text \<open>
  Each entry pushes its number, and before it \<open>0xffffffff\<close> where there is no error code. A
  stack is the list of its words, the last one pushed first.
\<close>

definition exception_stubs :: "(string \<times> bool \<times> c_int) list" where
  "exception_stubs =
     [(''division_by_error_exception'', True, 0), (''debugger_exception'', True, 1),
      (''nmi_exception'', True, 2), (''breakpoint_exception'', True, 3), (''overflow_exception'', True, 4),
      (''bounds_exception'', True, 5), (''invalid_opcode_exception'', True, 6),
      (''coprocessor_not_available_exception'', True, 7), (''double_foult_exception'', False, 8),
      (''coprocessor_segment_overrun_exception'', True, 9),
      (''invalid_task_state_segment_exception'', False, 10), (''segment_not_present_exception'', False, 11),
      (''stack_fault_exception'', False, 12), (''general_protected_fault_exception'', False, 13),
      (''page_fault_exception'', False, 14), (''reserved'', True, 15), (''math_fault_exception'', True, 16),
      (''alignment_check_exception'', True, 17), (''machine_check_exception'', True, 18),
      (''simd_floating_point_exception'', True, 19)]"

definition exception_entry :: "string \<Rightarrow> c_int list \<Rightarrow> c_int list" where
  "exception_entry name stack =
     (case map_of exception_stubs name of
        Some (no_code, number) \<Rightarrow> number # (if no_code then 0xffffffff # stack else stack)
      | None \<Rightarrow> stack)"

text \<open>The common tail calls the handler with the five words on top of the stack, then halts.\<close>

definition exception_tail :: "addr \<Rightarrow> c_int list \<Rightarrow> mem \<times> screen \<Rightarrow> stop + mem \<times> screen" where
  "exception_tail buffer stack =
     hw_exception_handler buffer (stack ! 0) (stack ! 1) (stack ! 2) (stack ! 3) (stack ! 4)"

text \<open>
  What the processor pushes: flags, code segment and instruction pointer, and for the vectors 8,
  10 to 14 and 17 an error code.
\<close>

definition cpu_frame :: "nat \<Rightarrow> c_int \<Rightarrow> c_int \<Rightarrow> c_int \<Rightarrow> c_int \<Rightarrow> c_int list \<Rightarrow> c_int list" where
  "cpu_frame v err eip cs eflags stack =
     (if v \<in> {8, 10, 11, 12, 13, 14, 17} then [err] else []) @ eip # cs # eflags # stack"

definition raise_exception ::
  "addr \<Rightarrow> nat \<Rightarrow> c_int \<Rightarrow> c_int \<Rightarrow> c_int \<Rightarrow> c_int \<Rightarrow> c_int list \<Rightarrow> mem \<times> screen \<Rightarrow> stop + mem \<times> screen" where
  "raise_exception buffer v err eip cs eflags stack =
     exception_tail buffer (exception_entry (fst (snd (hw_exceptions ! v))) (cpu_frame v err eip cs eflags stack))"

section \<open>What is shown\<close>

definition report_title :: "nat \<Rightarrow> u8 list" where
  "report_title v = chars ''Exception : '' @ chars (err_msg ! v)"

definition report_line :: "c_int \<Rightarrow> c_int \<Rightarrow> c_int \<Rightarrow> c_int \<Rightarrow> u8 list" where
  "report_line err eip cs eflags =
     chars ''eflags:'' @ number_text 16 (sint eflags) @ chars '' cs:'' @ number_text 16 (sint cs) @
     chars '' eip:'' @ number_text 16 (sint eip) @ chars '' err_code:'' @ number_text 16 (sint err)"

lemma plain_append: "plain (xs @ ys) \<longleftrightarrow> plain xs \<and> plain ys"
  by (auto simp: plain_def)

lemma text_cells_append: "text_cells color (xs @ ys) = text_cells color xs @ text_cells color ys"
  by (simp add: text_cells_def)

lemma digit_plain: "k < 36 \<Longrightarrow> plain [digit k]"
proof -
  assume k: "k < 36"
  have "\<forall>k\<in>set [0..<36]. plain [digit k]" by (simp add: upt_rec digit_def plain_def)
  then show ?thesis using k by simp
qed

lemma digits_plain: "b \<le> 36 \<Longrightarrow> plain (digits b n)"
proof (induction b n rule: digits.induct)
  case (1 b n)
  show ?case
  proof (cases "n = 0 \<or> b < 2")
    case False
    then have "n mod b < 36" using 1(2) mod_less_divisor [of b n] by linarith
    then show ?thesis
      using 1 False digit_plain [of "n mod b"] plain_append [of "[digit (n mod b)]"] by (simp add: digits.simps [of b n])
  qed (simp add: digits.simps plain_def)
qed

lemma number_plain: "b \<le> 36 \<Longrightarrow> plain (number_text b v)"
  using digits_plain [of b "nat \<bar>v\<bar>"] by (auto simp: number_text_def plain_def)

lemma labels_plain: "plain (chars ''eflags:'')" "plain (chars '' cs:'')" "plain (chars '' eip:'')"
  "plain (chars '' err_code:'')" "plain (chars ''Exception : '')"
  by (simp_all add: plain_def chars_def)

lemma err_msg_facts: "v < 20 \<Longrightarrow> plain (chars (err_msg ! v)) \<and> length (err_msg ! v) \<le> 40"
proof -
  assume v: "v < 20"
  have "\<forall>v\<in>set [0..<20]. plain (chars (err_msg ! v)) \<and> length (err_msg ! v) \<le> 40"
    by (simp add: err_msg_def plain_def chars_def upt_rec)
  then show ?thesis using v by simp
qed

lemma length_chars [simp]: "length (chars s) = length s"
  by (simp add: chars_def)

lemma number_length: "(v :: c_int) \<noteq> 0x80000000 \<Longrightarrow> length (number_text 16 (sint v)) \<le> 32"
  using number_text_facts(2) [of 16 "sint v"] magnitude(2) [of v] by simp

text \<open>One number: the line grows by the label and the digits, and only the buffer changes.\<close>

lemma show_number_line:
  assumes "plain (chars label)" and "length label \<le> 20" and "length bs \<le> 1000" and "v \<noteq> 0x80000000"
  shows "\<exists>m'. show_number buffer label v (m, at_text p bs s) =
      Inr (m', at_text p (bs @ text_cells 0x74 (chars label @ number_text 16 (sint v))) s) \<and>
    (\<forall>x. \<not> in_block x buffer 80 \<longrightarrow> m' x = m x)"
proof -
  obtain m' where m': "itoa_base v buffer 16 m = Inr m'" "cstring m' buffer (number_text 16 (sint v))"
    "\<forall>x. \<not> in_block x buffer (length (number_text 16 (sint v)) + 1) \<longrightarrow> m' x = m x"
    using itoa_base_text [of 16 v buffer m] assms(4) by auto
  have "\<forall>x. \<not> in_block x buffer 80 \<longrightarrow> m' x = m x"
    using m'(3) number_length [OF assms(4)] by (auto simp: in_block_def)
  then show ?thesis
    using m'(1) show_msg_ext_cstring [OF m'(2)] assms number_length [OF assms(4)] number_plain [of 16 "sint v"]
    by (simp add: show_number_def at_text_show text_cells_append)
qed

lemma handler_report:
  assumes "v < 20" and "err \<noteq> 0x80000000" and "eip \<noteq> 0x80000000" and "cs \<noteq> 0x80000000" and "eflags \<noteq> 0x80000000"
  shows "\<exists>m'. hw_exception_handler buffer (of_nat v) err eip cs eflags (m, s) =
      Inr (m', s\<lparr>position := of_nat (160 + 2 * length (report_line err eip cs eflags)),
        video := put_bytes 160 0 (text_cells 0x74 (report_line err eip cs eflags))
          (put_bytes 0 0 (text_cells 0x74 (report_title v)) (video s))\<rparr>) \<and>
    (\<forall>x. \<not> in_block x buffer 80 \<longrightarrow> m' x = m x)"
proof -
  let ?title = "text_cells 0x74 (report_title v)"
  let ?s = "s\<lparr>position := 160, video := put_bytes 0 0 ?title (video s)\<rparr>"
  have v: "unat (of_nat v :: c_int) = v" "v < length err_msg" using assms(1) by (simp_all add: err_msg_def)
  have len: "length ?title \<le> 104" using err_msg_facts [OF assms(1)] by (simp add: report_title_def)
  have "s\<lparr>position := 0\<rparr> = at_text 0 [] (s\<lparr>position := 0\<rparr>)" by (simp add: at_text_def)
  then have "show_text (chars (err_msg ! v)) 0x74 (show_text (chars ''Exception : '') 0x74 (s\<lparr>position := 0\<rparr>)) =
      at_text 0 ?title (s\<lparr>position := 0\<rparr>)"
    using err_msg_facts [OF assms(1)] labels_plain
      at_text_show [of "chars ''Exception : ''" "[]" "0x74" 0 "s\<lparr>position := 0\<rparr>"]
      at_text_show [of "chars (err_msg ! v)" "text_cells 0x74 (chars ''Exception : '')" "0x74" 0 "s\<lparr>position := 0\<rparr>"]
    by (simp add: report_title_def text_cells_append)
  moreover have "(of_nat (length ?title) :: u32) div 160 = 0"
    using len by (intro div_word_less) (simp only: word_less_nat_alt unat_of_nat_u32, simp)
  ultimately have start: "show_text [10] 0 (show_text (chars (err_msg ! v)) 0x74
      (show_text (chars ''Exception : '') 0x74 (s\<lparr>position := 0\<rparr>))) = at_text 160 [] ?s"
    by (simp add: show_text_newline at_text_def)
  note line = show_number_line [where buffer = buffer and p = 160 and s = ?s]
  obtain m1 where m1: "show_number buffer ''eflags:'' eflags (memset buffer 0 80 m, at_text 160 [] ?s) =
      Inr (m1, at_text 160 (text_cells 0x74 (chars ''eflags:'' @ number_text 16 (sint eflags))) ?s)"
    "\<forall>x. \<not> in_block x buffer 80 \<longrightarrow> m1 x = memset buffer 0 80 m x"
    using line [of "''eflags:''" "[]" eflags "memset buffer 0 80 m"] labels_plain assms(5) by auto
  define l1 where "l1 = chars ''eflags:'' @ number_text 16 (sint eflags)"
  define l2 where "l2 = l1 @ chars '' cs:'' @ number_text 16 (sint cs)"
  define l3 where "l3 = l2 @ chars '' eip:'' @ number_text 16 (sint eip)"
  have l: "length l1 \<le> 100" "length l2 \<le> 200" "length l3 \<le> 300"
    using number_length [OF assms(5)] number_length [OF assms(4)] number_length [OF assms(3)]
    by (simp_all add: l1_def l2_def l3_def)
  obtain m2 where m2: "show_number buffer '' cs:'' cs (m1, at_text 160 (text_cells 0x74 l1) ?s) =
      Inr (m2, at_text 160 (text_cells 0x74 l2) ?s)" "\<forall>x. \<not> in_block x buffer 80 \<longrightarrow> m2 x = m1 x"
    using line [of "'' cs:''" "text_cells 0x74 l1" cs m1] labels_plain assms(4) l
    by (auto simp: l2_def text_cells_append)
  obtain m3 where m3: "show_number buffer '' eip:'' eip (m2, at_text 160 (text_cells 0x74 l2) ?s) =
      Inr (m3, at_text 160 (text_cells 0x74 l3) ?s)" "\<forall>x. \<not> in_block x buffer 80 \<longrightarrow> m3 x = m2 x"
    using line [of "'' eip:''" "text_cells 0x74 l2" eip m2] labels_plain assms(3) l
    by (auto simp: l3_def text_cells_append)
  obtain m4 where m4: "show_number buffer '' err_code:'' err (m3, at_text 160 (text_cells 0x74 l3) ?s) =
      Inr (m4, at_text 160 (text_cells 0x74 (report_line err eip cs eflags)) ?s)"
    "\<forall>x. \<not> in_block x buffer 80 \<longrightarrow> m4 x = m3 x"
    using line [of "'' err_code:''" "text_cells 0x74 l3" err m3] labels_plain assms(2) l
    by (auto simp: l3_def l2_def l1_def report_line_def text_cells_append)
  have "hw_exception_handler buffer (of_nat v) err eip cs eflags (m, s) =
      Inr (m4, at_text 160 (text_cells 0x74 (report_line err eip cs eflags)) ?s)"
    using v m1(1) m2(1) m3(1) m4(1) by (simp add: hw_exception_handler_def Let_def start l1_def)
  moreover have "memset buffer 0 80 m x = m x" if "\<not> in_block x buffer 80" for x
    using that by (simp add: memset_eq)
  ultimately show ?thesis using m1(2) m2(2) m3(2) m4(2) by (auto simp: at_text_def)
qed

lemma exception_entries:
  assumes "v < 20"
  shows "exception_entry (fst (snd (hw_exceptions ! v))) stack =
    of_nat v # (if v \<in> {8, 10, 11, 12, 13, 14} then stack else - 1 # stack)"
proof -
  have "(0xffffffff :: c_int) = - 1" by simp
  then have "\<forall>v\<in>set [0..<20]. exception_entry (fst (snd (hw_exceptions ! v))) stack =
    of_nat v # (if v \<in> {8, 10, 11, 12, 13, 14} then stack else - 1 # stack)"
    by (simp add: upt_rec exception_entry_def hw_exceptions_def exception_stubs_def)
  then show ?thesis using assms by simp
qed

section \<open>Properties\<close>

text \<open>
  C37. When the processor raises one of the exceptions 0 to 19 other than the alignment check,
  the bytes of the video memory from 0 on name it and the bytes from 160 on show the registers and the
  error code of the frame in hexadecimal (-1 where the processor gives no error code), both in the
  colour 0x74; no other byte of the video memory and no memory outside the handler's buffer changes.
  These are the first two rows of the visible screen while the start address of the display is
  0; the handler does not set it. None of the four values shown is \<open>0x80000000\<close>, whose
  negation in \<open>itoa_base\<close> overflows.
\<close>

theorem exception_report_shown:
  assumes "v < 20" and "v \<noteq> 17"
    and "err \<noteq> 0x80000000" and "eip \<noteq> 0x80000000" and "cs \<noteq> 0x80000000" and "eflags \<noteq> 0x80000000"
  defines "code \<equiv> (if v \<in> {8, 10, 11, 12, 13, 14} then err else - 1)"
  shows "\<exists>m'. raise_exception buffer v err eip cs eflags stack (m, s) =
      Inr (m', s\<lparr>position := of_nat (160 + 2 * length (report_line code eip cs eflags)),
        video := put_bytes 160 0 (text_cells 0x74 (report_line code eip cs eflags))
          (put_bytes 0 0 (text_cells 0x74 (report_title v)) (video s))\<rparr>) \<and>
    (\<forall>x. \<not> in_block x buffer 80 \<longrightarrow> m' x = m x)"
proof -
  have "raise_exception buffer v err eip cs eflags stack =
      hw_exception_handler buffer (of_nat v) code eip cs eflags"
    using exception_entries [OF assms(1)] assms(2)
    by (simp add: raise_exception_def exception_tail_def cpu_frame_def code_def)
  then show ?thesis
    using handler_report [of v code eip cs eflags buffer m s] assms by (simp add: code_def)
qed

theorem exception_report_shown_witness:
  "\<exists>m' s'. raise_exception 0x1000 14 2 0x30400 8 0x202 [] (\<lambda>_. 7, \<lparr>position = 5, video = \<lambda>_. 0\<rparr>) = Inr (m', s') \<and>
     video s' 24 = 35 \<and> video s' 25 = 0x74 \<and> video s' 160 = 101 \<and>
     report_line 2 0x30400 8 0x202 = chars ''eflags:202 cs:8 eip:30400 err_code:2''"
proof -
  have n: "number_text 16 2 = chars ''2''" "number_text 16 8 = chars ''8''" "number_text 16 514 = chars ''202''"
    "number_text 16 197632 = chars ''30400''"
    by (simp_all add: number_text_def digits.simps digit_def chars_def)
  have l: "report_line 2 0x30400 8 0x202 = chars ''eflags:202 cs:8 eip:30400 err_code:2''"
    by (simp add: report_line_def n) (simp add: chars_def)
  have t: "report_title 14 = chars ''Exception : ##_page_fault''"
    by (simp add: report_title_def err_msg_def chars_def)
  obtain m' where "raise_exception 0x1000 14 2 0x30400 8 0x202 [] (\<lambda>_. 7, \<lparr>position = 5, video = \<lambda>_. 0\<rparr>) =
      Inr (m', \<lparr>position = of_nat (160 + 2 * length (report_line 2 0x30400 8 0x202)),
        video = put_bytes 160 0 (text_cells 0x74 (report_line 2 0x30400 8 0x202))
          (put_bytes 0 0 (text_cells 0x74 (report_title 14)) (\<lambda>_. 0))\<rparr>)"
    using exception_report_shown [of 14 2 "0x30400" 8 "0x202" "0x1000" "[]" "\<lambda>_. 7" "\<lparr>position = 5, video = \<lambda>_. 0\<rparr>"]
    by auto
  moreover have "length (text_cells 0x74 (report_line 2 0x30400 8 0x202)) = 72"
    "text_cells 0x74 (report_line 2 0x30400 8 0x202) ! 0 = 101"
    "length (text_cells 0x74 (report_title 14)) = 50" "text_cells 0x74 (report_title 14) ! 24 = 35"
    "text_cells 0x74 (report_title 14) ! 25 = 0x74"
    unfolding l t by (simp_all add: chars_def text_cells_simps)
  ultimately show ?thesis using l by (auto simp: put_bytes_def unat_sub_if')
qed

text \<open>
  For an alignment check the entry pushes a dummy although the processor has pushed an
  error code, so everything is shown one word too late: the error code as \<open>eip\<close>, the instruction
  pointer as \<open>cs\<close> and the code segment as \<open>eflags\<close>.
\<close>

theorem alignment_check_report_shifted:
  assumes "err \<noteq> 0x80000000" and "eip \<noteq> 0x80000000" and "cs \<noteq> 0x80000000"
  shows "\<exists>m'. raise_exception buffer 17 err eip cs eflags stack (m, s) =
      Inr (m', s\<lparr>position := of_nat (160 + 2 * length (report_line (- 1) err eip cs)),
        video := put_bytes 160 0 (text_cells 0x74 (report_line (- 1) err eip cs))
          (put_bytes 0 0 (text_cells 0x74 (report_title 17)) (video s))\<rparr>)"
proof -
  have "raise_exception buffer 17 err eip cs eflags stack = hw_exception_handler buffer (of_nat 17) (- 1) err eip cs"
    using exception_entries [of 17] by (simp add: raise_exception_def exception_tail_def cpu_frame_def)
  then show ?thesis using handler_report [of 17 "- 1" err eip cs buffer m s] assms by auto
qed

theorem alignment_check_report_shifted_witness:
  "\<exists>m' s'. raise_exception 0x1000 17 0 0x30400 8 0x202 [] (\<lambda>_. 7, \<lparr>position = 5, video = \<lambda>_. 0\<rparr>) = Inr (m', s') \<and>
     report_line (- 1) 0 0x30400 8 = chars ''eflags:8 cs:30400 eip:0 err_code:-1''"
proof -
  have n: "number_text 16 (- 1) = chars ''-1''" "number_text 16 8 = chars ''8''" "number_text 16 0 = chars ''0''"
    "number_text 16 197632 = chars ''30400''"
    by (simp_all add: number_text_def digits.simps digit_def chars_def)
  have "report_line (- 1) 0 0x30400 8 = chars ''eflags:8 cs:30400 eip:0 err_code:-1''"
    by (simp add: report_line_def n) (simp add: chars_def)
  then show ?thesis
    using alignment_check_report_shifted [of 0 "0x30400" 8 "0x1000" "0x202" "[]" "\<lambda>_. 7" "\<lparr>position = 5, video = \<lambda>_. 0\<rparr>"]
    by auto
qed

end
