(* ===== verification/Disk_Service.thy ===== *)
theory Disk_Service
  imports Disk_Io System
begin

text \<open>
  The disk task as a server: its loop around the requests of \<open>Hdd\<close>, and what an interrupt of the
  disk that no request receives does to the loop.
\<close>

section \<open>The loop\<close>

text \<open>
  The body of \<open>hdd_task\<close>'s loop after its receive, as the running process: the request, and the
  message back to the process it came from.
\<close>

definition hdd_task_serve :: "controller \<Rightarrow> hdd_cmd \<Rightarrow> addr \<Rightarrow> hdd \<Rightarrow> stop + hdd" where
  "hdd_task_serve dev junk msg h =
     (let src = load32 (mem_of h) msg in
      andThen (hdd_serve dev junk msg h) (\<lambda>h.
      andThen (sys_call_send_recv MSG_SEND src msg (hk h)) (\<lambda>k. Inr (h\<lparr>hk := k\<rparr>))))"

definition hdd_task_receive :: "addr \<Rightarrow> kernel \<Rightarrow> stop + kernel" where
  "hdd_task_receive msg k = sys_call_send_recv MSG_RECEIVE P_ANY msg k"

section \<open>Properties\<close>

text \<open>
  C21. An interrupt of the disk while the disk task serves a request that does not receive it, as the
  one the drive raises for a command to read, ends the task: its next receive from anybody gives
  the interrupt's message, which is no request, and the task stops with a critical error.
\<close>

theorem disk_interrupt_stops_task:
  assumes "kernel_inv k" and "process_ready k = HDD_TASK"
  shows "\<exists>k1 k2. hdd_interrupt k = Inr k1 \<and> hdd_task_receive msg k1 = Inr k2 \<and>
    load32 (memory k2) msg = MSG_SOURCE_INTERRUPT \<and> load32 (memory k2) (msg + 4) = MSG_HW_INTERRUPT \<and>
    (\<forall>h dev junk. hdd_task_serve dev junk msg (h\<lparr>hk := k2\<rparr>) = Inl (Critical ''hdd_task''))"
proof -
  obtain k1 where k1: "hdd_interrupt k = Inr k1" "kernel_inv k1" "process_ready k1 = HDD_TASK"
      "abs_ipc k1 = a_interrupt HDD_TASK (abs_ipc k)"
    using hdd_interrupt_correct [OF assms(1)] assms(2) by auto
  have "a_status (abs_ipc k) HDD_TASK = Ready"
    using kernel_inv_parts(3) [OF assms(1)] assms(2) by (simp add: abs_ipc_def abs_status_def)
  then have pend: "a_pending (abs_ipc k1) HDD_TASK" by (simp add: k1(4) a_interrupt_def)
  note v = stamped_view [OF kernel_inv_parts(1) [OF k1(2)], where msg = msg]
  obtain k2 where k2: "msg_recv HDD_TASK P_ANY msg (stamped msg k1) = Inr (k2, 0)"
      "load32 (memory k2) msg = MSG_SOURCE_INTERRUPT" "load32 (memory k2) (msg + 4) = MSG_HW_INTERRUPT"
    using pending_interrupt_received [OF v(1), of HDD_TASK P_ANY msg] pend v(2) by auto
  let ?k = "kernel_leave (upd_proc HDD_TASK (\<lambda>p. p\<lparr>p_regs := (p_regs p)\<lparr>r_eax := 0\<rparr>\<rparr>) k2)"
  have r: "hdd_task_receive msg k1 = Inr ?k"
    using sys_call_eq [OF k1(2), of P_ANY MSG_RECEIVE msg] k2(1) k1(3) by (simp add: hdd_task_receive_def)
  have m: "memory ?k = memory k2" by simp
  have "hdd_task_serve dev junk msg (h\<lparr>hk := ?k\<rparr>) = Inl (Critical ''hdd_task'')" for dev junk h
    using k2(3) by (simp add: hdd_task_serve_def hdd_serve_def msg_type_def mem_of_def m)
  then show ?thesis using k1(1) r k2(2,3) m by (intro exI [of _ k1] exI [of _ ?k]) simp
qed

theorem disk_interrupt_stops_task_witness:
  "\<exists>k1 k2. hdd_interrupt (sample_runs HDD_TASK) = Inr k1 \<and> hdd_task_receive 0x2000 k1 = Inr k2 \<and>
     hdd_task_serve sample_controller sample_cmd 0x2000 ((sample_hdd sample_table sample_request)\<lparr>hk := k2\<rparr>) =
       Inl (Critical ''hdd_task'')"
  using disk_interrupt_stops_task [of "sample_runs HDD_TASK" "0x2000"] sample_runs_inv(1) [of HDD_TASK]
  by (auto simp: sample_runs_def)

end
