(* ===== verification/Disk_Report.thy ===== *)
theory Disk_Report
  imports Formatting Hdd
begin

text \<open>
  What the disk task prints when a drive is opened: \<open>print_hdd_identify\<close> and \<open>print_hdd_info\<close>
  of \<open>kernel/hdd.c\<close>. A call of \<open>printf\<close> is the list of its format's items with their
  arguments, in the vocabulary of \<open>Formatting\<close>.
\<close>

section \<open>The identification\<close>

text \<open>The inner \<open>for\<close> loop, with the rounds left: the words hold their characters in swapped order.\<close>

fun swap_loop :: "nat \<Rightarrow> nat \<Rightarrow> addr \<Rightarrow> mem \<Rightarrow> u8 list \<Rightarrow> u8 list" where
  "swap_loop 0 j p m s = s"
| "swap_loop (Suc left) j p m s = swap_loop left (j + 1) (p + 2) m (s[j * 2 + 1 := m p, j * 2 := m (p + 1)])"

text \<open>The array \<open>identify\<close>: first word, length in bytes and description.\<close>

definition identify_table :: "(nat \<times> nat \<times> string) list" where
  "identify_table = [(10, 20, ''HD SN:''), (27, 40, ''HD Model:''), (23, 8, ''FW Ver:'')]"

text \<open>The outer loop; the local array \<open>s\<close> is filled anew in each round.\<close>

fun identify_loop :: "mem \<Rightarrow> addr \<Rightarrow> (nat \<times> nat \<times> string) list \<Rightarrow> u8 list \<Rightarrow> item list list" where
  "identify_loop m info [] s = []"
| "identify_loop m info ((index, len, description) # es) s =
     (let s = (swap_loop (len div 2) 0 (info + of_nat (2 * index)) m s)[len div 2 * 2 := 0];
          t = takeWhile (\<lambda>c. c \<noteq> 0) s
      in [Conv False 0 (Str (chars description)), Plain 32,
          Conv False 0 (Str (if length t \<noteq> 0 then t else chars ''none'')), Plain 10]
         # identify_loop m info es s)"

definition yes_no :: "bool \<Rightarrow> u8 list" where
  "yes_no b = chars (if b then ''Yes'' else ''No'')"

text \<open>Words 61 and 60 hold the number of sectors.\<close>

definition identify_sectors :: "mem \<Rightarrow> addr \<Rightarrow> c_int" where
  "identify_sectors m info = push_bit 16 (load16 m (info + 122)) + load16 m (info + 120)"

definition print_hdd_identify :: "mem \<Rightarrow> addr \<Rightarrow> item list list" where
  "print_hdd_identify m info =
     identify_loop m info identify_table (replicate 64 0) @
     [map Plain (chars ''LBA support: '') @ [Conv False 0 (Str (yes_no (load16 m (info + 98) AND 0x200 \<noteq> 0))), Plain 10],
      map Plain (chars ''LBA48 support: '') @ [Conv False 0 (Str (yes_no (load16 m (info + 166) AND 0x400 \<noteq> 0))), Plain 10],
      map Plain (chars ''HDD size: '') @ [Conv False 0 (Dec (c_div (identify_sectors m info * 512) 1000000))] @
        map Plain (chars ''MB'') @ [Plain 10]]"

section \<open>The partitions\<close>

definition print_primary :: "nat \<times> partition_info \<Rightarrow> item list list" where
  "print_primary = (\<lambda>(i, p).
     [[Conv False 0 (Str (chars (if i = 0 then '' DRIVE_'' else ''     MAIN_'')))],
      map Plain (chars ''PART_'') @ [Conv False 0 (Dec (of_nat i))] @ map Plain (chars ''-> base:0x'') @
        [Conv False 0 (Hex (base p))] @ map Plain (chars '' sector_cnt:0x'') @ [Conv False 0 (Hex (sec_cnt p)), Plain 10]])"

definition print_logical :: "nat \<times> partition_info \<Rightarrow> item list list" where
  "print_logical = (\<lambda>(i, p).
     if sec_cnt p = 0 then []
     else [map Plain (chars ''         ''),
           map Plain (chars ''LOGIC_PART_'') @ [Conv False 0 (Dec (of_nat i))] @ map Plain (chars ''-> base:0x'') @
             [Conv False 0 (Hex (base p))] @ map Plain (chars '', sector_cnt:0x'') @
             [Conv False 0 (Hex (sec_cnt p)), Plain 10]])"

definition print_hdd_info :: "hdd_info \<Rightarrow> item list list" where
  "print_hdd_info f =
     concat (map print_primary (enumerate 0 (primary f))) @ concat (map print_logical (enumerate 0 (logical f)))"

section \<open>Lemmas\<close>

text \<open>What a list of calls prints.\<close>

definition printed_text :: "item list list \<Rightarrow> u8 list" where
  "printed_text calls = concat (map (\<lambda>its. concat (map item_output its)) calls)"

lemma printed_text_simps [simp]:
  "printed_text [] = []" "printed_text (its # calls) = concat (map item_output its) @ printed_text calls"
  "printed_text (calls @ calls') = printed_text calls @ printed_text calls'"
  by (simp_all add: printed_text_def)

lemma output_plain [simp]: "concat (map (item_output \<circ> Plain) xs) = xs"
  by (induction xs) simp_all

lemma pad_0 [simp]: "pad c 0 xs = xs"
  by (simp add: pad_def)

lemma length_swap_loop [simp]: "length (swap_loop n j p m s) = length s"
  by (induction n j p m s rule: swap_loop.induct) simp_all

lemma swap_loop_nth:
  assumes "2 * (j + n) \<le> length s" and "k < length s"
  shows "swap_loop n j (b + of_nat (2 * j)) m s ! k =
    (if 2 * j \<le> k \<and> k < 2 * (j + n) then m (b + of_nat (if even k then k + 1 else k - 1)) else s ! k)"
  using assms
proof (induction n arbitrary: j s)
  case (Suc n)
  let ?s = "s[j * 2 + 1 := m (b + of_nat (2 * j)), j * 2 := m (b + of_nat (2 * j) + 1)]"
  have next_word: "b + of_nat (2 * j) + 2 = b + of_nat (2 * (j + 1))" by simp
  have IH: "swap_loop n (j + 1) (b + of_nat (2 * (j + 1))) m ?s ! k =
      (if 2 * (j + 1) \<le> k \<and> k < 2 * (j + 1 + n) then m (b + of_nat (if even k then k + 1 else k - 1)) else ?s ! k)"
    using Suc.prems by (intro Suc.IH) simp_all
  have step: "swap_loop (Suc n) j (b + of_nat (2 * j)) m s = swap_loop n (j + 1) (b + of_nat (2 * (j + 1))) m ?s"
    unfolding next_word [symmetric] by simp
  consider "k = 2 * j" | "k = 2 * j + 1" | "k \<noteq> 2 * j \<and> k \<noteq> 2 * j + 1" by blast
  then show ?case
    unfolding step IH using Suc.prems by cases (auto simp: nth_list_update ac_simps)
qed auto

text \<open>A field of the identification: the bytes of its words in their right order, up to a zero.\<close>

definition identify_text :: "mem \<Rightarrow> addr \<Rightarrow> nat \<Rightarrow> nat \<Rightarrow> u8 list" where
  "identify_text m info index len =
     takeWhile (\<lambda>c. c \<noteq> 0) (map (\<lambda>j. m (info + of_nat (2 * index + (if even j then j + 1 else j - 1)))) [0..<len])"

lemma takeWhile_cut:
  "n < length s \<Longrightarrow> s ! n = 0 \<Longrightarrow> takeWhile (\<lambda>c. c \<noteq> (0 :: u8)) s = takeWhile (\<lambda>c. c \<noteq> 0) (take n s)"
proof (induction s arbitrary: n)
  case (Cons x s)
  then show ?case by (cases n) simp_all
qed simp

lemma identify_round:
  assumes "even len" and "len < length s"
  shows "takeWhile (\<lambda>c. c \<noteq> 0) ((swap_loop (len div 2) 0 (info + of_nat (2 * index)) m s)[len div 2 * 2 := 0]) =
    identify_text m info index len"
proof -
  let ?s = "(swap_loop (len div 2) 0 (info + of_nat (2 * index)) m s)[len div 2 * 2 := 0]"
  have l: "len div 2 * 2 = len" "2 * (0 + len div 2) = len" using assms(1) by simp_all
  have "take len ?s = map (\<lambda>j. m (info + of_nat (2 * index + (if even j then j + 1 else j - 1)))) [0..<len]"
  proof (rule nth_equalityI)
    fix k assume "k < length (take len ?s)"
    then have k: "k < len" using assms(2) by simp
    have "swap_loop (len div 2) 0 (info + of_nat (2 * index)) m s ! k =
        m (info + of_nat (2 * index) + of_nat (if even k then k + 1 else k - 1))"
      using swap_loop_nth [of 0 "len div 2" s k "info + of_nat (2 * index)" m] assms k l by simp
    then show "take len ?s ! k = map (\<lambda>j. m (info + of_nat (2 * index + (if even j then j + 1 else j - 1)))) [0..<len] ! k"
      using k l by (simp add: add.assoc)
  qed (use assms(2) in simp)
  then show ?thesis
    using takeWhile_cut [of len ?s] assms(2) l by (simp add: identify_text_def)
qed

text \<open>The megabytes computed with 32-bit integers.\<close>

lemma sdiv_bounds:
  fixes x :: int
  shows "x < 2147483648 \<Longrightarrow> x sdiv 1000000 \<le> 2147" and "- 2147483648 \<le> x \<Longrightarrow> - 2147 \<le> x sdiv 1000000"
    and "x < 0 \<Longrightarrow> x sdiv 1000000 \<le> 0"
proof -
  have s: "x sdiv 1000000 = (if 0 \<le> x then x div 1000000 else - ((- x) div 1000000))"
    by (simp add: signed_divide_int_def sgn_if)
  show "x < 2147483648 \<Longrightarrow> x sdiv 1000000 \<le> 2147" "- 2147483648 \<le> x \<Longrightarrow> - 2147 \<le> x sdiv 1000000"
    "x < 0 \<Longrightarrow> x sdiv 1000000 \<le> 0"
    unfolding s by (auto simp: pos_imp_zdiv_nonneg_iff)
qed

lemma sint_c_div_million: "sint (c_div v 1000000) = sint v sdiv 1000000"
proof -
  have "sint v < 2147483648" "- 2147483648 \<le> sint v" using sint_lt [of v] sint_ge [of v] by simp_all
  from sdiv_bounds(1,2) [of "sint v"] this
  have "- (2 ^ 31) \<le> sint v sdiv 1000000" "sint v sdiv 1000000 < 2 ^ 31" by simp_all
  then have "sint (word_of_int (sint v sdiv 1000000) :: c_int) = sint v sdiv 1000000"
    by (simp add: sint_sbintrunc' signed_take_bit_int_eq_self)
  then show ?thesis by (simp add: c_div_def)
qed

lemma megabytes_iff:
  fixes w :: c_int
  shows "sint (c_div (w * 512) 1000000) = int (unat w * 512 div 1000000) \<longleftrightarrow> unat w < 4194304"
proof (cases "unat w < 8388608")
  case small: True
  then have u: "unat (w * 512) = unat w * 512" by (simp add: unat_word_ariths)
  show ?thesis
  proof (cases "unat w < 4194304")
    case True
    then have "sint (w * 512) = int (unat w * 512)" using sint_small [of "w * 512"] u by simp
    then show ?thesis using True unfolding sint_c_div_million by (simp add: signed_divide_int_def sgn_if zdiv_int)
  next
    case False
    then have "2147483648 \<le> unat (w * 512)" using u by simp
    then have "\<not> 0 \<le> sint (w * 512)"
      using sint_nonneg [of "w * 512"] sint_lt [of "w * 512"] by (auto simp del: of_nat_unat)
    then have "sint (w * 512) < 0" by simp
    then have "sint (c_div (w * 512) 1000000) \<le> 0" unfolding sint_c_div_million by (rule sdiv_bounds(3))
    moreover have "2147 \<le> unat w * 512 div 1000000" using False by simp
    ultimately show ?thesis using False by auto
  qed
next
  case False
  have "sint (c_div (w * 512) 1000000) \<le> 2147"
    unfolding sint_c_div_million using sint_lt [of "w * 512"] by (intro sdiv_bounds(1)) simp
  moreover have "4294 \<le> unat w * 512 div 1000000" using False by simp
  ultimately show ?thesis using False by auto
qed

section \<open>Properties\<close>

definition reported :: "string \<Rightarrow> u8 list \<Rightarrow> u8 list" where
  "reported description t = chars description @ [32] @ (if t = [] then chars ''none'' else t) @ [10]"

text \<open>
  Opening a drive prints serial number, model and firmware with the bytes of each word put right
  (or "none"), and whether the drive has LBA and LBA48; the size in megabytes it prints is right exactly
  for drives below 4194304 sectors (2 GiB), beyond that the multiplication overflows.
\<close>

theorem hdd_identify_printed:
  "\<exists>mb. printed_text (print_hdd_identify m info) =
     reported ''HD SN:'' (identify_text m info 10 20) @ reported ''HD Model:'' (identify_text m info 27 40) @
     reported ''FW Ver:'' (identify_text m info 23 8) @
     chars ''LBA support: '' @ yes_no (bit (load16 m (info + 98)) 9) @ [10] @
     chars ''LBA48 support: '' @ yes_no (bit (load16 m (info + 166)) 10) @ [10] @
     chars ''HDD size: '' @ number_text 10 mb @ chars ''MB'' @ [10] \<and>
   (mb = int (unat (identify_sectors m info) * 512 div 1000000) \<longleftrightarrow> unat (identify_sectors m info) < 4194304)"
proof -
  have flags: "(x AND 0x200 \<noteq> 0) = bit x 9" "(x AND 0x400 \<noteq> 0) = bit x 10" for x :: u32
    using and_exp_eq_0_iff_not_bit [of x 9] and_exp_eq_0_iff_not_bit [of x 10] by simp_all
  have calls: "printed_text (identify_loop m info ((index, len, description) # es) s) =
      reported description (identify_text m info index len) @
      printed_text (identify_loop m info es ((swap_loop (len div 2) 0 (info + of_nat (2 * index)) m s)[len div 2 * 2 := 0]))"
    if "even len" "len < length s" for index len description es s
    using identify_round [OF that, of info index m] by (simp add: Let_def reported_def)
  have "printed_text (identify_loop m info identify_table (replicate 64 0)) =
      reported ''HD SN:'' (identify_text m info 10 20) @ reported ''HD Model:'' (identify_text m info 27 40) @
      reported ''FW Ver:'' (identify_text m info 23 8)"
    unfolding identify_table_def by (subst calls, simp, simp)+ simp
  then show ?thesis
    using megabytes_iff [of "identify_sectors m info"] flags
    by (intro exI [of _ "sint (c_div (identify_sectors m info * 512) 1000000)"])
       (simp add: print_hdd_identify_def)
qed

end
