(* ===== verification/Debug.thy ===== *)
theory Debug
  imports Printing
begin

text \<open>
  \<open>lib/debug.c\<close>: how \<open>assert_failure\<close> and \<open>CRITICAL\<close> end. Both print a message whose first
  character makes \<open>sys_printx\<close> stop the processor; what comes after the print call is reached only
  when it returns. The theorems say which of the two happens, and what is in the video memory then.
\<close>

section \<open>The two functions\<close>

text \<open>
  How the processor ends: halted in the print call, in the endless loop of \<open>assert_failure\<close>, or in
  the undefined instruction of \<open>CRITICAL\<close>.
\<close>

datatype ending =
    Halts kernel display
  | Spins kernel display
  | Undefined_instruction kernel display

text \<open>
  The arguments of a call of \<open>printf\<close> are words on the stack from \<open>args\<close> on; \<open>tmp\<close> and \<open>buf\<close> are
  the arrays of \<open>vsprintf\<close> and \<open>printf\<close>, \<open>fmt\<close> the constant format of the function.
\<close>

fun store_words :: "addr \<Rightarrow> u32 list \<Rightarrow> mem \<Rightarrow> mem" where
  "store_words a [] m = m"
| "store_words a (v # vs) m = store_words (a + 4) vs (store32 a v m)"

definition assert_failure ::
  "addr \<Rightarrow> addr \<Rightarrow> addr \<Rightarrow> addr \<Rightarrow> addr \<Rightarrow> addr \<Rightarrow> addr \<Rightarrow> c_int \<Rightarrow> kernel \<Rightarrow> display \<Rightarrow> stop + ending" where
  "assert_failure tmp buf fmt args exp file base_file line k d =
     (let m = store_words args [ucast MAGIC_CH_ASSERT, exp, file, base_file, line] (memory k) in
      andThen (printf tmp buf fmt args (k\<lparr>memory := m\<rparr>) d) (\<lambda>(n, k, r).
        Inr (case r of Halted d \<Rightarrow> Halts k d | Printed d \<Rightarrow> Spins k d)))"

text \<open>
  \<open>arr\<close> is the array of \<open>CRITICAL\<close>, \<open>tmp'\<close> the one of the \<open>vsprintf\<close> it calls itself, \<open>fmt'\<close> and
  \<open>args'\<close> what its caller gives it.
\<close>

definition CRITICAL ::
  "addr \<Rightarrow> addr \<Rightarrow> addr \<Rightarrow> addr \<Rightarrow> addr \<Rightarrow> addr \<Rightarrow> addr \<Rightarrow> addr \<Rightarrow> kernel \<Rightarrow> display \<Rightarrow> stop + ending" where
  "CRITICAL tmp' arr fmt' args' tmp buf fmt args k d =
     andThen (vsprintf tmp' arr fmt' args' (memset arr 0 256 (memory k))) (\<lambda>(n, m).
     let m = store_words args [ucast MAGIC_CH_CRITICAL, arr] m in
     andThen (printf tmp buf fmt args (k\<lparr>memory := m\<rparr>) d) (\<lambda>(n, k, r).
       Inr (case r of Halted d \<Rightarrow> Halts k d | Printed d \<Rightarrow> Undefined_instruction k d)))"

text \<open>
  The character cell \<open>i\<close> of the visible screen, 25 rows of 80, which begins at the start address of
  the controller.
\<close>

definition shown :: "display \<Rightarrow> nat \<Rightarrow> u16" where
  "shown d i = cells d (ucast (crt_start d) + of_nat i)"

section \<open>Lemmas\<close>

text \<open>A print call that stops the processor leaves the start address as it is.\<close>

lemma alarm_loop_start: "alarm_loop n m vga mem d = Halted d' \<Longrightarrow> crt_start d' = crt_start d"
  by (induction n m vga mem d rule: alarm_loop.induct) (auto split: if_splits)

lemma sys_printx_halted_start:
  assumes "sys_printx msg p k d = Inr (Halted d')"
  shows "crt_start d' = crt_start d"
proof -
  obtain a where a: "(let m = memory k;
         r = (if m a = MAGIC_CH_CRITICAL \<or> m a = MAGIC_CH_ASSERT \<and> p < RING1_TASK_CNT
              then alarm_loop 0x4000 (a + 1) 0 m d else Printed d)
     in (case r of
           Halted d \<Rightarrow> Inr (Halted d)
         | Printed d \<Rightarrow>
             (let a = (if m a \<noteq> 0 \<and> (m a = MAGIC_CH_ASSERT \<or> m a = MAGIC_CH_CRITICAL) then a + 1 else a);
                  con_id = p_console_id (proc k p)
              in if m a = 0 then Inr (Printed d)
                 else if \<not> unat con_id < length (consoles d) then Inl (Out_of_table con_id)
                 else andThen (returns (strlen m a)) (\<lambda>n.
                      andThen (returns (console_write (unat con_id) a n m d)) (\<lambda>d. Inr (Printed d))))))
     = (Inr (Halted d') :: stop + printed)"
    using assms unfolding sys_printx_def andThen_Inr_iff by blast
  define r where "r = (if memory k a = MAGIC_CH_CRITICAL \<or> memory k a = MAGIC_CH_ASSERT \<and> p < RING1_TASK_CNT
      then alarm_loop 0x4000 (a + 1) 0 (memory k) d else Printed d)"
  have "r = Halted d'"
    using a unfolding Let_def r_def [symmetric] by (cases r) (auto simp: andThen_Inr_iff split: if_split_asm)
  then show ?thesis using alarm_loop_start by (auto simp: r_def split: if_split_asm)
qed

lemma printf_halted_start:
  assumes "printf tmp buf fmt args k d = Inr (n, k', Halted d')"
  shows "crt_start d' = crt_start d"
proof -
  obtain m where "sys_call_printx buf (k\<lparr>memory := m\<rparr>) d = Inr (k', Halted d')"
    using assms by (auto simp: printf_def andThen_Inr_iff)
  then obtain r p k1 where r: "sys_printx buf p k1 d = Inr r" and
      "(case r of Halted d \<Rightarrow> Inr (k1, Halted d) | Printed d \<Rightarrow> Inr (kernel_leave (upd_proc p (\<lambda>p. p\<lparr>p_regs := (p_regs p)\<lparr>r_eax := 0\<rparr>\<rparr>) k1), Printed d))
        = (Inr (k', Halted d') :: stop + kernel \<times> printed)"
    unfolding sys_call_printx_def Let_def andThen_Inr_iff by blast
  then have "sys_printx buf p k1 d = Inr (Halted d')" by (cases r) simp_all
  then show ?thesis by (rule sys_printx_halted_start)
qed

text \<open>
  A message in the first cells of the video memory is at the top of the visible screen when the start
  address is 0; when the start address lies behind it, the visible screen does not change.
\<close>

definition top_message :: "u8 list \<Rightarrow> display \<Rightarrow> display \<Rightarrow> bool" where
  "top_message msg d d' \<longleftrightarrow> crt_start d' = crt_start d \<and>
     (\<forall>j<length msg. cells d' (of_nat j) = 0x7400 OR ucast (msg ! j)) \<and>
     (\<forall>a. length msg \<le> unat a \<longrightarrow> cells d' a = cells d a)"

lemma top_message_shown:
  assumes "top_message msg d d'"
  shows "crt_start d = 0 \<Longrightarrow> j < length msg \<Longrightarrow> shown d' j = 0x7400 OR ucast (msg ! j)"
    and "length msg \<le> unat (crt_start d) \<Longrightarrow> i < 2000 \<Longrightarrow> shown d' i = shown d i"
proof -
  show "crt_start d = 0 \<Longrightarrow> j < length msg \<Longrightarrow> shown d' j = 0x7400 OR ucast (msg ! j)"
    using assms by (simp add: top_message_def shown_def)
  show "shown d' i = shown d i" if "length msg \<le> unat (crt_start d)" "i < 2000"
  proof -
    have lt: "unat (crt_start d) < 65536" using unsigned_less [of "crt_start d"] by simp
    have "(ucast (crt_start d) :: u32) + of_nat i = of_nat (unat (crt_start d) + i)" by simp
    then have "unat ((ucast (crt_start d) :: u32) + of_nat i) = unat (crt_start d) + i"
      using that(2) lt unat_of_nat_u32 [of "unat (crt_start d) + i"] by (simp only:)
    then have "length msg \<le> unat ((ucast (crt_start d) :: u32) + of_nat i)" using that(1) by simp
    then show ?thesis using assms by (simp add: top_message_def shown_def)
  qed
qed

lemma keeps_mono: "keeps W m a xs \<Longrightarrow> (\<And>x. V x \<Longrightarrow> W x) \<Longrightarrow> keeps V m a xs"
  by (induction xs arbitrary: a) auto

lemma arg_at_mono: "arg_at W m p a \<Longrightarrow> (\<And>x. V x \<Longrightarrow> W x) \<Longrightarrow> arg_at V m p a"
  using keeps_mono [of W _ _ _ V] by (cases a) auto

lemma args_at_mono: "args_at W m p its \<Longrightarrow> (\<And>x. V x \<Longrightarrow> W x) \<Longrightarrow> args_at V m p its"
  by (induction W m p its rule: args_at.induct) (auto intro: arg_at_mono)

lemma cstring_keeps:
  assumes "cstring m a xs" and "\<And>i. i \<le> length xs \<Longrightarrow> \<not> W (a + of_nat i)"
  shows "keeps W m a (xs @ [0])"
  using assms
proof (induction xs arbitrary: a)
  case (Cons x xs)
  have "\<not> W (a + 1 + of_nat i)" if "i \<le> length xs" for i
    using Cons.prems(2) [of "Suc i"] that by (simp add: add.assoc)
  then show ?case using Cons.IH [of "a + 1"] Cons.prems Cons.prems(2) [of 0] by auto
qed auto

lemma consider_four: "j < 4 \<Longrightarrow> j = 0 \<or> j = 1 \<or> j = 2 \<or> j = (3::nat)"
  by linarith

lemma store_words_frame:
  "\<not> in_block x a (4 * length vs) \<Longrightarrow> length vs \<le> 1000 \<Longrightarrow> store_words a vs m x = m x"
proof (induction vs arbitrary: a m)
  case (Cons v vs)
  have "\<not> in_block x (a + 4) (4 * length vs)"
  proof
    assume "in_block x (a + 4) (4 * length vs)"
    then obtain i where i: "i < 4 * length vs" "x = a + 4 + of_nat i"
      using in_block_iff_offset [of "4 * length vs" x "a + 4"] Cons.prems(2) by auto
    then have "x = a + of_nat (4 + i)" by (simp add: add.assoc)
    then show False using Cons.prems i(1) in_block_offset [of "4 + i" "4 * length (v # vs)" a] by (simp only:) simp
  qed
  moreover have "\<not> in_block x a 4" using Cons.prems(1) by (simp add: in_block_def)
  ultimately show ?case using Cons by (simp add: store32_frame)
qed simp

lemma store_words_load:
  "i < length vs \<Longrightarrow> length vs \<le> 1000 \<Longrightarrow> load32 (store_words a vs m) (a + of_nat (4 * i)) = vs ! i"
proof (induction vs arbitrary: a m i)
  case (Cons v vs)
  show ?case
  proof (cases i)
    case 0
    have "\<not> in_block (a + of_nat j) (a + 4) (4 * length vs)" if "j < 4" for j :: nat
      using that Cons.prems(2) consider_four [OF that]
      by (auto simp: in_block_def unsigned_minus_1_eq_mask mask_eq_exp_minus_1)
    then have "load32 (store_words (a + 4) vs (store32 a v m)) a = load32 (store32 a v m) a"
      using Cons.prems(2) by (intro load32_cong) (simp add: store_words_frame)
    then show ?thesis using 0 by simp
  next
    case (Suc j)
    then show ?thesis using Cons.IH [of j "a + 4" "store32 a v m"] Cons.prems by (simp add: algebra_simps)
  qed
qed simp

declare store_words.simps [simp del]

lemma byte_of_word: "m a = ucast (load32 m a)"
  by (rule bit_word_eqI) (simp add: load32_def bit_simps)

text \<open>What a call finds of its arguments: words that the call does not write.\<close>

lemma word_kept:
  assumes "\<And>x. in_block x args n \<Longrightarrow> \<not> W x" and "k + 4 \<le> n" and "n < 4294967296"
  shows "\<forall>i<4. \<not> W (args + of_nat k + of_nat i)"
proof (intro allI impI)
  fix i :: nat assume "i < 4"
  then have "in_block (args + of_nat (k + i)) args n" using assms(2,3) by (intro in_block_offset) auto
  then show "\<not> W (args + of_nat k + of_nat i)" using assms(1) by (simp add: add.assoc)
qed

lemma string_kept:
  assumes "cstring m a xs" and "\<And>i. i \<le> length xs \<Longrightarrow> \<not> W (a + of_nat i) \<and> m' (a + of_nat i) = m (a + of_nat i)"
  shows "keeps W m' a (xs @ [0])"
  using assms by (intro cstring_keeps) (auto simp: cstring_nth)

lemma critical_args:
  assumes "cstring m arr xs" and "\<And>i. i \<le> length xs \<Longrightarrow> \<not> W (arr + of_nat i) \<and> \<not> in_block (arr + of_nat i) args 8"
    and "\<And>x. in_block x args 8 \<Longrightarrow> \<not> W x" and "m' = store_words args [ucast MAGIC_CH_CRITICAL, arr] m"
  shows "args_at W m' args (critical_items xs)"
proof -
  have w: "load32 m' (args + of_nat (4 * i)) = [ucast MAGIC_CH_CRITICAL, arr] ! i" if "i < 2" for i
    using that unfolding assms(4) by (intro store_words_load) simp_all
  have "keeps W m' arr (xs @ [0])"
    by (rule string_kept [OF assms(1)]) (use assms(2) store_words_frame [of _ args] in \<open>simp add: assms(4)\<close>)
  then show ?thesis
    using w [of 0] w [of 1] byte_of_word [of m' args] word_kept [of args 8 W 0, OF assms(3)] word_kept [of args 8 W 4, OF assms(3)]
    by (simp add: critical_items_def)
qed

lemma assert_args:
  assumes "cstring m exp xs" "cstring m file ys" "cstring m base_file zs"
    and "\<And>i. i \<le> length xs \<Longrightarrow> \<not> W (exp + of_nat i) \<and> \<not> in_block (exp + of_nat i) args 20"
    and "\<And>i. i \<le> length ys \<Longrightarrow> \<not> W (file + of_nat i) \<and> \<not> in_block (file + of_nat i) args 20"
    and "\<And>i. i \<le> length zs \<Longrightarrow> \<not> W (base_file + of_nat i) \<and> \<not> in_block (base_file + of_nat i) args 20"
    and "\<And>x. in_block x args 20 \<Longrightarrow> \<not> W x"
    and "m' = store_words args [ucast MAGIC_CH_ASSERT, exp, file, base_file, line] m"
  shows "args_at W m' args (assert_items xs ys zs line)"
proof -
  have w: "load32 m' (args + of_nat (4 * i)) = [ucast MAGIC_CH_ASSERT, exp, file, base_file, line] ! i" if "i < 5" for i
    using that unfolding assms(8) by (intro store_words_load) simp_all
  have f: "m' x = m x" if "\<not> in_block x args 20" for x
    using that store_words_frame [of x args] by (simp add: assms(8))
  have k: "\<forall>i<4. \<not> W (args + of_nat k + of_nat i)" if "k + 4 \<le> 20" for k
    using word_kept [of args 20 W k, OF assms(7)] that by simp
  have "keeps W m' exp (xs @ [0])" by (rule string_kept [OF assms(1)]) (use assms(4) f in simp)
  moreover have "keeps W m' file (ys @ [0])" by (rule string_kept [OF assms(2)]) (use assms(5) f in simp)
  moreover have "keeps W m' base_file (zs @ [0])" by (rule string_kept [OF assms(3)]) (use assms(6) f in simp)
  ultimately show ?thesis
    using w [of 0] w [of 1] w [of 2] w [of 3] w [of 4] byte_of_word [of m' args] k [of 0] k [of 4] k [of 8] k [of 12] k [of 16]
    by (simp add: assert_items_def add.assoc)
qed

lemma debug_texts:
  "concat (map item_text (critical_items xs)) = chars ''%c critical %s''"
  "concat (map item_text (assert_items xs ys zs line)) = chars ''%c assert(%s) %s %s %d''"
  by (simp_all add: critical_items_def assert_items_def chars_def)

text \<open>Formatting into an array that is large enough, and a print call that stops the processor.\<close>

lemma vsprintf_into:
  assumes "\<forall>it\<in>set its. item_ok it \<and> narrow it" and "length (formatted its) < n" and "n < 4294967296"
    and "W = (\<lambda>x. in_block x tmp 256 \<or> in_block x buf n)" and "\<forall>x. in_block x buf n \<longrightarrow> \<not> in_block x tmp 256"
    and "keeps W m fmt (concat (map item_text its) @ [0])" and "args_at W m args its"
  shows "\<exists>m'. vsprintf tmp buf fmt args m = Inr (of_nat (length (formatted its)), m') \<and>
    cstring m' buf (formatted its) \<and> (\<forall>x. \<not> W x \<longrightarrow> m' x = m x)"
proof -
  let ?U = "\<lambda>x. in_block x tmp 256 \<or> in_block x buf (length (formatted its) + 1)"
  have n: "length (formatted its) + 1 \<le> n" using assms(2) by simp
  have U: "?U x \<Longrightarrow> W x" for x using in_block_less [OF _ n, of x buf] by (auto simp: assms(4))
  have "\<forall>x. in_block x buf (length (formatted its) + 1) \<longrightarrow> \<not> in_block x tmp 256"
    using in_block_less [OF _ n, of _ buf] assms(5) by blast
  from vsprintf_text [OF assms(1) refl this keeps_mono [OF assms(6) U] args_at_mono [OF assms(7) U]] assms(2,3) U
  show ?thesis by auto
qed

lemma alarm_into:
  assumes "kernel_inv k" and "\<forall>it\<in>set its. item_ok it \<and> narrow it" and "formatted its = c # msg" and "length msg < 255"
    and "its = assert_items exp file base_file line \<and> process_ready k < RING1_TASK_CNT \<or> its = critical_items xs"
    and "W = (\<lambda>x. in_block x tmp 256 \<or> in_block x buf 256)" and "\<forall>x. in_block x buf 256 \<longrightarrow> \<not> in_block x tmp 256"
    and "keeps W m fmt (concat (map item_text its) @ [0])" and "args_at W m args its"
  shows "\<exists>k' d'. printf tmp buf fmt args (k\<lparr>memory := m\<rparr>) d = Inr (of_nat (length (formatted its)), k', Halted d') \<and>
    top_message msg d d'"
proof -
  let ?U = "\<lambda>x. in_block x tmp 256 \<or> in_block x buf (length (formatted its) + 1)"
  have n: "length (formatted its) + 1 \<le> 256" using assms(3,4) by simp
  have U: "?U x \<Longrightarrow> W x" for x using in_block_less [OF _ n, of x buf] by (auto simp: assms(6))
  have "\<forall>x. in_block x buf (length (formatted its) + 1) \<longrightarrow> \<not> in_block x tmp 256"
    using in_block_less [OF _ n, of _ buf] assms(7) by blast
  moreover have "kernel_inv (k\<lparr>memory := m\<rparr>)" using memory_inv [OF assms(1)] by simp
  moreover have "memory (k\<lparr>memory := m\<rparr>) = m" by simp
  ultimately have "\<exists>k' d'. printf tmp buf fmt args (k\<lparr>memory := m\<rparr>) d = Inr (of_nat (length (formatted its)), k', Halted d') \<and>
    (\<forall>j<length msg. cells d' (of_nat j) = 0x7400 OR ucast (msg ! j)) \<and>
    (\<forall>a. length msg \<le> unat a \<longrightarrow> cells d' a = cells d a)"
    using alarm_text [where k = "k\<lparr>memory := m\<rparr>" and its = its and W = ?U and tmp = tmp and buf = buf and
        fmt = fmt and args = args and d = d] assms(2,3,5) n
      keeps_mono [OF assms(8) U] args_at_mono [OF assms(9) U]
    by simp
  then show ?thesis using printf_halted_start unfolding top_message_def by blast
qed

text \<open>
  A process other than the kernel's tasks is not stopped: the mark is skipped and the rest printed.
\<close>

lemma sys_call_printx_marked:
  assumes "kernel_inv k" and "RING1_TASK_CNT \<le> process_ready k" and "display_wf d"
    and "cstring (memory k) buf (MAGIC_CH_ASSERT # xs)" and "xs \<noteq> []"
    and "c = unat (p_console_id (proc k (process_ready k)))" and "c < CONSOLE_CNT"
    and "cursor_pos (con d c) = of_nat (5461 * c + p)" and "p + length xs \<le> 5460"
    and "10 \<notin> set xs" and "8 \<notin> set xs"
  shows "\<exists>k' d'. sys_call_printx buf k d = Inr (k', Printed d') \<and> int_reenter k' = - 1 \<and>
    cursor_pos (con d' c) = of_nat (5461 * c + p + length xs) \<and>
    (\<forall>j<length xs. own_cells c d' (p + j) = scast (xs ! j) OR 0x0f00) \<and>
    (\<forall>q<5461. q < p \<or> p + length xs \<le> q \<longrightarrow> own_cells c d' q = own_cells c d q)"
proof -
  have len: "length (consoles d) = CONSOLE_CNT" using assms(3) by (simp add: display_wf_def)
  have m: "memory (kernel_enter k) = memory k" "p_console_id (proc (kernel_enter k) i) = p_console_id (proc k i)" for i
    by (simp_all add: kernel_enter_def proc_def)
  have s: "memory k buf = 3" "cstring (memory k) (buf + 1) xs" "memory k (buf + 1) \<noteq> 0"
    using assms(4,5) by (auto simp: neq_Nil_conv)
  obtain d' where d': "console_write c (buf + 1) (of_nat (length xs)) (memory k) d = Some d'"
    "cursor_pos (con d' c) = of_nat (5461 * c + p + length xs)"
    "\<forall>j<length xs. own_cells c d' (p + j) = scast (xs ! j) OR 0x0f00"
    "\<forall>q<5461. q < p \<or> p + length xs \<le> q \<longrightarrow> own_cells c d' q = own_cells c d q"
    using console_write_string [OF assms(3) s(2) assms(7-11)] by blast
  have "sys_printx buf (process_ready k) (kernel_enter k) d = Inr (Printed d')"
    using printx_address [OF assms(1)] s strlen_cstring [OF s(2)] d'(1) assms(2,6,7) len
    by (simp add: sys_printx_def m Let_def returns_def)
  then show ?thesis using d'(2-4) kernel_inv_parts(4) [OF assms(1)]
    by (simp add: sys_call_printx_def Let_def kernel_leave_def kernel_enter_def upd_proc_def)
qed

text \<open>What \<open>assert_failure\<close> gives to \<open>printf\<close>.\<close>

lemma assert_call:
  assumes "kernel_inv k" and "cstring (memory k) exp xs" "cstring (memory k) file ys" "cstring (memory k) base_file zs"
    and "W = (\<lambda>x. in_block x tmp 256 \<or> in_block x buf 256)" and "\<forall>x. in_block x buf 256 \<longrightarrow> \<not> in_block x tmp 256"
    and "\<forall>x. in_block x args 20 \<longrightarrow> \<not> W x"
    and "\<forall>x. in_block x exp (length xs + 1) \<or> in_block x file (length ys + 1) \<or> in_block x base_file (length zs + 1) \<longrightarrow>
           \<not> W x \<and> \<not> in_block x args 20"
    and "keeps (\<lambda>x. W x \<or> in_block x args 20) (memory k) fmt (chars ''%c assert(%s) %s %s %d'' @ [0])"
    and "msg = chars '' assert('' @ xs @ chars '') '' @ ys @ chars '' '' @ zs @ chars '' '' @ number_text 10 (sint line)"
    and "line \<noteq> 0x80000000" and "length msg < 255"
    and "its = assert_items xs ys zs line"
    and "m' = store_words args [ucast MAGIC_CH_ASSERT, exp, file, base_file, line] (memory k)"
  shows "formatted its = MAGIC_CH_ASSERT # msg" and "\<forall>it\<in>set its. item_ok it \<and> narrow it"
    and "keeps W m' fmt (concat (map item_text its) @ [0])" and "args_at W m' args its"
proof -
  show "formatted its = MAGIC_CH_ASSERT # msg" by (simp add: debug_formats assms(10,13) chars_def)
  have small: "length xs < 255" "length ys < 255" "length zs < 255" using assms(10,12) by simp_all
  then show "\<forall>it\<in>set its. item_ok it \<and> narrow it"
    using assms(2-4,11) by (auto simp: assert_items_def assms(13) cstring_nth)
  have inside: "in_block (a + of_nat i) a (length us + 1)" if "i \<le> length us" "length us < 255" for a i and us :: "u8 list"
    using that by (intro in_block_offset) auto
  show "args_at W m' args its" unfolding assms(13)
    by (rule assert_args [OF assms(2-4) _ _ _ _ assms(14)]) (use inside small assms(7,8) in blast)+
  have "m' x = memory k x" if "\<not> (W x \<or> in_block x args 20)" for x
    using that by (simp add: assms(14) store_words_frame)
  then show "keeps W m' fmt (concat (map item_text its) @ [0])"
    using keeps_mono [OF keeps_same [OF assms(9)], of m' W] by (simp add: debug_texts assms(13))
qed

lemma assert_failure_in_task:
  assumes "kernel_inv k" and "cstring (memory k) exp xs" "cstring (memory k) file ys" "cstring (memory k) base_file zs"
    and "W = (\<lambda>x. in_block x tmp 256 \<or> in_block x buf 256)" and "\<forall>x. in_block x buf 256 \<longrightarrow> \<not> in_block x tmp 256"
    and "\<forall>x. in_block x args 20 \<longrightarrow> \<not> W x"
    and "\<forall>x. in_block x exp (length xs + 1) \<or> in_block x file (length ys + 1) \<or> in_block x base_file (length zs + 1) \<longrightarrow>
           \<not> W x \<and> \<not> in_block x args 20"
    and "keeps (\<lambda>x. W x \<or> in_block x args 20) (memory k) fmt (chars ''%c assert(%s) %s %s %d'' @ [0])"
    and "msg = chars '' assert('' @ xs @ chars '') '' @ ys @ chars '' '' @ zs @ chars '' '' @ number_text 10 (sint line)"
    and "line \<noteq> 0x80000000" and "length msg < 255"
    and "process_ready k < RING1_TASK_CNT"
  shows "\<exists>k' d'. assert_failure tmp buf fmt args exp file base_file line k d = Inr (Halts k' d') \<and>
    top_message msg d d'"
proof -
  note c = assert_call [OF assms(1-12) refl refl]
  from alarm_into [OF assms(1) c(2,1) assms(12) disjI1 [OF conjI [OF refl assms(13)]] assms(5,6) c(3,4), where d = d]
  show ?thesis by (auto simp: assert_failure_def Let_def)
qed

lemma assert_failure_in_process:
  assumes "kernel_inv k" and "cstring (memory k) exp xs" "cstring (memory k) file ys" "cstring (memory k) base_file zs"
    and "W = (\<lambda>x. in_block x tmp 256 \<or> in_block x buf 256)" and "\<forall>x. in_block x buf 256 \<longrightarrow> \<not> in_block x tmp 256"
    and "\<forall>x. in_block x args 20 \<longrightarrow> \<not> W x"
    and "\<forall>x. in_block x exp (length xs + 1) \<or> in_block x file (length ys + 1) \<or> in_block x base_file (length zs + 1) \<longrightarrow>
           \<not> W x \<and> \<not> in_block x args 20"
    and "keeps (\<lambda>x. W x \<or> in_block x args 20) (memory k) fmt (chars ''%c assert(%s) %s %s %d'' @ [0])"
    and "msg = chars '' assert('' @ xs @ chars '') '' @ ys @ chars '' '' @ zs @ chars '' '' @ number_text 10 (sint line)"
    and "line \<noteq> 0x80000000" and "length msg < 255"
    and "RING1_TASK_CNT \<le> process_ready k" and "display_wf d" and "c = unat (p_console_id (proc k (process_ready k)))"
    and "c < CONSOLE_CNT" and "cursor_pos (con d c) = of_nat (5461 * c + p)" and "p + length msg \<le> 5460"
    and "10 \<notin> set msg" and "8 \<notin> set msg"
  shows "\<exists>k' d'. assert_failure tmp buf fmt args exp file base_file line k d = Inr (Spins k' d') \<and>
    int_reenter k' = - 1 \<and> cursor_pos (con d' c) = of_nat (5461 * c + p + length msg) \<and>
    (\<forall>j<length msg. own_cells c d' (p + j) = scast (msg ! j) OR 0x0f00) \<and>
    (\<forall>q<5461. q < p \<or> p + length msg \<le> q \<longrightarrow> own_cells c d' q = own_cells c d q)"
proof -
  note e = assert_call [OF assms(1-12) refl refl]
  define m' where "m' = store_words args [ucast MAGIC_CH_ASSERT, exp, file, base_file, line] (memory k)"
  obtain m where m: "vsprintf tmp buf fmt args m' = Inr (of_nat (length (formatted (assert_items xs ys zs line))), m)"
    "cstring m buf (MAGIC_CH_ASSERT # msg)"
    using vsprintf_into [OF e(2) _ _ assms(5,6) e(3,4)] assms(12) unfolding e(1) m'_def by auto
  let ?k = "k\<lparr>memory := m\<rparr>"
  have k: "kernel_inv ?k" "RING1_TASK_CNT \<le> process_ready ?k" "cstring (memory ?k) buf (MAGIC_CH_ASSERT # msg)" "msg \<noteq> []"
      "c = unat (p_console_id (proc ?k (process_ready ?k)))"
    using memory_inv [OF assms(1)] assms(10,13,15) m(2) by (simp_all add: chars_def proc_def)
  from sys_call_printx_marked [OF k(1,2) assms(14) k(3,4,5) assms(16-20)] m(1) show ?thesis
    by (auto simp: assert_failure_def printf_def Let_def m'_def)
qed

section \<open>Properties\<close>

text \<open>
  C30. \<open>CRITICAL\<close> stops the processor from any process: it formats what it is given into its own
  array, prints it with the mark of a critical error, and the system call that prints halts with
  the message in the alarm colour in the first cells of the video memory and the other cells as they
  were; the undefined instruction behind the call is not reached. The message is at the top of the
  visible screen when the start address is 0; once the first console has scrolled by more rows than the
  message has, or another console is selected, the visible screen does not change at all. The text may have
  244 characters, so that it fits into the array of \<open>printf\<close> together with its heading;
  formats, arguments and strings lie outside the arrays.
\<close>

theorem CRITICAL_stops_machine:
  assumes "kernel_inv k" and "\<forall>it\<in>set its. item_ok it \<and> narrow it" and "length (formatted its) \<le> 244"
    and "W = (\<lambda>x. in_block x tmp' 256 \<or> in_block x arr 256)" and "\<forall>x. in_block x arr 256 \<longrightarrow> \<not> in_block x tmp' 256"
    and "keeps W (memory k) fmt' (concat (map item_text its) @ [0])" and "args_at W (memory k) args' its"
    and "V = (\<lambda>x. in_block x tmp 256 \<or> in_block x buf 256)" and "\<forall>x. in_block x buf 256 \<longrightarrow> \<not> in_block x tmp 256"
    and "\<forall>x. in_block x arr 256 \<or> in_block x args 8 \<longrightarrow> \<not> V x" and "\<forall>x. in_block x arr 256 \<longrightarrow> \<not> in_block x args 8"
    and "keeps (\<lambda>x. W x \<or> V x \<or> in_block x args 8) (memory k) fmt (chars ''%c critical %s'' @ [0])"
    and "msg = chars '' critical '' @ formatted its"
  shows "\<exists>k' d'. CRITICAL tmp' arr fmt' args' tmp buf fmt args k d = Inr (Halts k' d') \<and>
    (\<forall>j<length msg. cells d' (of_nat j) = 0x7400 OR ucast (msg ! j)) \<and>
    (\<forall>a. length msg \<le> unat a \<longrightarrow> cells d' a = cells d a) \<and>
    (crt_start d = 0 \<longrightarrow> (\<forall>j<length msg. shown d' j = 0x7400 OR ucast (msg ! j))) \<and>
    (length msg \<le> unat (crt_start d) \<longrightarrow> (\<forall>i<2000. shown d' i = shown d i))"
proof -
  define m0 where "m0 = memset arr 0 256 (memory k)"
  have m0: "m0 x = memory k x" if "\<not> W x" for x using that by (simp add: m0_def memset_eq assms(4))
  obtain m where m: "vsprintf tmp' arr fmt' args' m0 = Inr (of_nat (length (formatted its)), m)"
    "cstring m arr (formatted its)" "\<forall>x. \<not> W x \<longrightarrow> m x = m0 x"
    using vsprintf_into [OF assms(2) _ _ assms(4,5) keeps_same [OF assms(6) m0] args_at_same [OF assms(7) m0]] assms(3)
    by auto
  define m' where "m' = store_words args [ucast MAGIC_CH_CRITICAL, arr] m"
  let ?its = "critical_items (formatted its)"
  have f: "formatted ?its = MAGIC_CH_CRITICAL # msg" by (simp add: debug_formats assms(13) chars_def)
  have "in_block (arr + of_nat i) arr 256" if "i \<le> length (formatted its)" for i
    using that assms(3) by (intro in_block_offset) auto
  then have args: "args_at V m' args ?its"
    using assms(10,11) by (intro critical_args [OF m(2) _ _ m'_def]) blast+
  have "m' x = memory k x" if "\<not> (W x \<or> V x \<or> in_block x args 8)" for x
    using that m(3) m0 by (simp add: m'_def store_words_frame)
  then have fmt: "keeps V m' fmt (concat (map item_text ?its) @ [0])"
    using keeps_mono [OF keeps_same [OF assms(12)], of m' V] by (simp add: debug_texts)
  have ok: "\<forall>it\<in>set ?its. item_ok it \<and> narrow it"
    using assms(2,3) formatted_nonzero [of its] by (auto simp: critical_items_def)
  have "length msg < 255" using assms(3) by (simp add: assms(13) chars_def)
  from alarm_into [OF assms(1) ok f this disjI2 [OF refl] assms(8,9) fmt args, of d]
  obtain k' d' where e: "CRITICAL tmp' arr fmt' args' tmp buf fmt args k d = Inr (Halts k' d')" "top_message msg d d'"
    using m(1) by (auto simp: CRITICAL_def Let_def m0_def m'_def)
  then show ?thesis using top_message_shown [OF e(2)] by (auto simp: top_message_def)
qed

text \<open>The text \<open>!\<close> for \<open>CRITICAL\<close>, and the assertion \<open>x\<close> of line 7 in the file \<open>f\<close>, included by \<open>g\<close>.\<close>

definition sample_debug :: mem where
  "sample_debug = put_bytes 0x100 0 (chars ''%c critical %s'') (put_bytes 0x180 0 (chars ''%c assert(%s) %s %s %d'')
     ((\<lambda>_. 0)(0x300 := 33, 0x310 := 120, 0x320 := 102, 0x330 := 103)))"

text \<open>The arrays of a sample call stand in different places.\<close>

lemma sample_blocks:
  "in_block x 0x1000 256 \<longleftrightarrow> 4096 \<le> unat x \<and> unat x < 4352" "in_block x 0x2000 256 \<longleftrightarrow> 8192 \<le> unat x \<and> unat x < 8448"
  "in_block x 0x3000 256 \<longleftrightarrow> 12288 \<le> unat x \<and> unat x < 12544" "in_block x 0x4000 256 \<longleftrightarrow> 16384 \<le> unat x \<and> unat x < 16640"
  "in_block x 0x5000 8 \<longleftrightarrow> 20480 \<le> unat x \<and> unat x < 20488" "in_block x 0x5000 20 \<longleftrightarrow> 20480 \<le> unat x \<and> unat x < 20500"
  "in_block x 0x310 2 \<longleftrightarrow> 784 \<le> unat x \<and> unat x < 786" "in_block x 0x320 2 \<longleftrightarrow> 800 \<le> unat x \<and> unat x < 802"
  "in_block x 0x330 2 \<longleftrightarrow> 816 \<le> unat x \<and> unat x < 818"
  using unat_diff_less_iff [of "0x1000" 256 x] unat_diff_less_iff [of "0x2000" 256 x] unat_diff_less_iff [of "0x3000" 256 x]
    unat_diff_less_iff [of "0x4000" 256 x] unat_diff_less_iff [of "0x5000" 8 x] unat_diff_less_iff [of "0x5000" 20 x]
    unat_diff_less_iff [of "0x310" 2 x] unat_diff_less_iff [of "0x320" 2 x] unat_diff_less_iff [of "0x330" 2 x]
  by (simp_all add: in_block_def)

theorem CRITICAL_stops_machine_witness:
  "\<exists>k' d'. CRITICAL 0x1000 0x2000 0x300 0x400 0x3000 0x4000 0x100 0x5000 (sample_run\<lparr>memory := sample_debug\<rparr>) sample_display =
     Inr (Halts k' d') \<and> cells d' 10 = 0x7421"
proof -
  let ?k = "sample_run\<lparr>memory := sample_debug\<rparr>" and ?its = "[Plain 33]"
  let ?W = "\<lambda>x. in_block x 0x1000 256 \<or> in_block x 0x2000 256" and ?V = "\<lambda>x. in_block x 0x3000 256 \<or> in_block x 0x4000 256"
  have inv: "kernel_inv ?k" using memory_inv [OF sample_run_inv(1)] by simp
  have ok: "\<forall>it\<in>set ?its. item_ok it \<and> narrow it" "length (formatted ?its) \<le> 244" by simp_all
  have fmt': "keeps ?W (memory ?k) 0x300 (concat (map item_text ?its) @ [0])" 
    by (simp add: sample_debug_def put_bytes_def in_block_def chars_def)
  have args': "args_at ?W (memory ?k) 0x400 ?its" by simp
  have fmt: "keeps (\<lambda>x. ?W x \<or> ?V x \<or> in_block x 0x5000 8) (memory ?k) 0x100 (chars ''%c critical %s'' @ [0])"
    by (simp add: sample_debug_def put_bytes_def in_block_def chars_def)
  have "\<forall>x. in_block x 0x2000 256 \<longrightarrow> \<not> in_block x 0x1000 256" "\<forall>x. in_block x 0x4000 256 \<longrightarrow> \<not> in_block x 0x3000 256"
    "\<forall>x. in_block x 0x2000 256 \<or> in_block x 0x5000 8 \<longrightarrow> \<not> ?V x" "\<forall>x. in_block x 0x2000 256 \<longrightarrow> \<not> in_block x 0x5000 8"
    by (auto simp: sample_blocks)
  from CRITICAL_stops_machine [OF inv ok refl this(1) fmt' args' refl this(2-4) fmt refl, of sample_display]
  obtain k' d' where *: "CRITICAL 0x1000 0x2000 0x300 0x400 0x3000 0x4000 0x100 0x5000 ?k sample_display = Inr (Halts k' d')"
    "\<forall>j<length (chars '' critical '' @ formatted ?its).
      cells d' (of_nat j) = 0x7400 OR ucast ((chars '' critical '' @ formatted ?its) ! j)" by blast
  have "cells d' 10 = 0x7421" using *(2) [rule_format, of 10] by (simp add: chars_def)
  then show ?thesis using *(1) by blast
qed

text \<open>
  C31. A failed assertion ends the process it happens in. In one of the kernel's own tasks the print
  call stops the processor with the message (the expression, the files, the line) in the first cells
  of the video memory, which is the top of the visible screen when the start address is 0, and not
  visible when the start address lies behind it. In a process of a user the message appears on the
  console of the process like other output, without the mark, and the process spins for ever; this
  is for a message that fits into the window of the console behind the cursor and has no line break
  and no backspace. In both cases the message has less than 255 characters, the line number is not
  the smallest \<open>int\<close>, and the strings, the format and the arguments lie outside the arrays.
\<close>

theorem assert_failure_ends:
  assumes "kernel_inv k" and "cstring (memory k) exp xs" "cstring (memory k) file ys" "cstring (memory k) base_file zs"
    and "W = (\<lambda>x. in_block x tmp 256 \<or> in_block x buf 256)" and "\<forall>x. in_block x buf 256 \<longrightarrow> \<not> in_block x tmp 256"
    and "\<forall>x. in_block x args 20 \<longrightarrow> \<not> W x"
    and "\<forall>x. in_block x exp (length xs + 1) \<or> in_block x file (length ys + 1) \<or> in_block x base_file (length zs + 1) \<longrightarrow>
           \<not> W x \<and> \<not> in_block x args 20"
    and "keeps (\<lambda>x. W x \<or> in_block x args 20) (memory k) fmt (chars ''%c assert(%s) %s %s %d'' @ [0])"
    and "msg = chars '' assert('' @ xs @ chars '') '' @ ys @ chars '' '' @ zs @ chars '' '' @ number_text 10 (sint line)"
    and "line \<noteq> 0x80000000" and "length msg < 255"
  shows "(process_ready k < RING1_TASK_CNT \<longrightarrow>
       (\<exists>k' d'. assert_failure tmp buf fmt args exp file base_file line k d = Inr (Halts k' d') \<and>
         (\<forall>j<length msg. cells d' (of_nat j) = 0x7400 OR ucast (msg ! j)) \<and>
         (\<forall>a. length msg \<le> unat a \<longrightarrow> cells d' a = cells d a) \<and>
         (crt_start d = 0 \<longrightarrow> (\<forall>j<length msg. shown d' j = 0x7400 OR ucast (msg ! j))) \<and>
         (length msg \<le> unat (crt_start d) \<longrightarrow> (\<forall>i<2000. shown d' i = shown d i)))) \<and>
     (RING1_TASK_CNT \<le> process_ready k \<and> display_wf d \<and> c = unat (p_console_id (proc k (process_ready k))) \<and>
       c < CONSOLE_CNT \<and> cursor_pos (con d c) = of_nat (5461 * c + p) \<and> p + length msg \<le> 5460 \<and>
       10 \<notin> set msg \<and> 8 \<notin> set msg \<longrightarrow>
       (\<exists>k' d'. assert_failure tmp buf fmt args exp file base_file line k d = Inr (Spins k' d') \<and>
         int_reenter k' = - 1 \<and> cursor_pos (con d' c) = of_nat (5461 * c + p + length msg) \<and>
         (\<forall>j<length msg. own_cells c d' (p + j) = scast (msg ! j) OR 0x0f00) \<and>
         (\<forall>q<5461. q < p \<or> p + length msg \<le> q \<longrightarrow> own_cells c d' q = own_cells c d q)))"
    (is "(_ \<longrightarrow> ?task) \<and> (_ \<longrightarrow> ?process)")
proof (intro conjI impI)
  assume "process_ready k < RING1_TASK_CNT"
  from assert_failure_in_task [OF assms this, of d] obtain k' d' where
    e: "assert_failure tmp buf fmt args exp file base_file line k d = Inr (Halts k' d')" "top_message msg d d'" by blast
  then show ?task using top_message_shown [OF e(2)] by (auto simp: top_message_def)
next
  assume h: "RING1_TASK_CNT \<le> process_ready k \<and> display_wf d \<and> c = unat (p_console_id (proc k (process_ready k))) \<and>
    c < CONSOLE_CNT \<and> cursor_pos (con d c) = of_nat (5461 * c + p) \<and> p + length msg \<le> 5460 \<and> 10 \<notin> set msg \<and> 8 \<notin> set msg"
  have "c = unat (p_console_id (proc k (process_ready k)))" using h by blast
  from assert_failure_in_process [OF assms _ _ this] h show ?process by blast
qed

text \<open>The process \<open>P_B\<close> fails and prints on the second console.\<close>

theorem assert_failure_ends_witness:
  "\<exists>d k' d'. init_consoles sample_display = Some d \<and>
     assert_failure 0x3000 0x4000 0x180 0x5000 0x310 0x320 0x330 7 (sample_runs 5\<lparr>memory := sample_debug\<rparr>) d =
       Inr (Spins k' d') \<and> own_cells 1 d' 11 = 0x0f78"
proof -
  let ?k = "sample_runs 5\<lparr>memory := sample_debug\<rparr>" and ?W = "\<lambda>x. in_block x 0x3000 256 \<or> in_block x 0x4000 256"
  let ?m = "chars '' assert('' @ [120] @ chars '') '' @ [102] @ chars '' '' @ [103] @ chars '' '' @ number_text 10 (sint (7 :: c_int))"
  have msg: "?m = [32, 97, 115, 115, 101, 114, 116, 40, 120, 41, 32, 102, 32, 103, 32, 55]"
    by (simp add: chars_def number_text_def digits.simps digit_def)
  have inv: "kernel_inv ?k" using memory_inv [OF sample_runs_inv(1)] by simp
  have s: "cstring (memory ?k) 0x310 [120]" "cstring (memory ?k) 0x320 [102]" "cstring (memory ?k) 0x330 [103]"
    by (simp_all add: sample_debug_def put_bytes_def chars_def)
  have fmt: "keeps (\<lambda>x. ?W x \<or> in_block x 0x5000 20) (memory ?k) 0x180 (chars ''%c assert(%s) %s %s %d'' @ [0])"
    by (simp add: sample_debug_def put_bytes_def in_block_def chars_def)
  have apart: "\<forall>x. in_block x 0x4000 256 \<longrightarrow> \<not> in_block x 0x3000 256" "\<forall>x. in_block x 0x5000 20 \<longrightarrow> \<not> ?W x"
    "\<forall>x. in_block x 0x310 (length [120 :: u8] + 1) \<or> in_block x 0x320 (length [102 :: u8] + 1) \<or>
       in_block x 0x330 (length [103 :: u8] + 1) \<longrightarrow> \<not> ?W x \<and> \<not> in_block x 0x5000 20"
    by (auto simp: sample_blocks numeral_2_eq_2 [symmetric])
  obtain d where d: "init_consoles sample_display = Some d" "display_wf d" "cursor_pos (con d 1) = of_nat (5461 * 1 + 3)"
    using init_consoles_result [OF sample_display_raw(1)] sample_display_raw(2) by auto
  have ready: "process_ready ?k = 5" by (simp add: sample_runs_def)
  then have c: "1 = unat (p_console_id (proc ?k (process_ready ?k)))"
    using boot_process_fields(9) [of 5] by (simp add: sample_runs_def kernel_leave_def sample_boot_def proc_def)
  have n: "length ([32, 97, 115, 115, 101, 114, 116, 40, 120, 41, 32, 102, 32, 103, 32, 55] :: u8 list) = 16" by simp
  from assert_failure_ends [OF inv s refl apart fmt msg [symmetric], of d 1 3] d(2,3) c obtain k' d' where *:
    "assert_failure 0x3000 0x4000 0x180 0x5000 0x310 0x320 0x330 7 ?k d = Inr (Spins k' d')"
    "\<forall>j<16. own_cells 1 d' (3 + j) = scast ([32, 97, 115, 115, 101, 114, 116, 40, 120, 41, 32, 102, 32, 103, 32, 55 :: u8] ! j) OR 0x0f00"
    unfolding ready by auto
  have "own_cells 1 d' 11 = 0x0f78" using *(2) [rule_format, of 8] by simp
  then show ?thesis using d(1) *(1) by blast
qed

end
