(* ===== verification/Floppy.thy ===== *)
theory Floppy
  imports Lib_Common
begin

text \<open>
  The part \<open>boot/boot.s\<close> and \<open>boot/loader.s\<close> have in common: in real mode, with the BIOS, they find a
  file in the root directory of a FAT12 floppy and load it cluster by cluster (\<open>ReadSector\<close>,
  \<open>GetFATEntry\<close>, the search and the loading loop; both files hold the same code with other
  constants). The BIOS is a parameter that gives the sectors at a cylinder, head and sector number;
  \<open>floppy_bios\<close> says that it reads a disk of 18 sectors a track and two heads. The theorems say that
  the code finds the first entry with the name, follows its chain in the table and leaves the
  contents of the clusters in memory, one after the other.
\<close>

section \<open>The disk and the BIOS\<close>

abbreviation (input) BPB_BytsPerSec :: nat where "BPB_BytsPerSec \<equiv> 512"
abbreviation (input) BPB_SecPerTrk :: nat where "BPB_SecPerTrk \<equiv> 18"
abbreviation (input) RootDirSectors :: nat where "RootDirSectors \<equiv> 14"
abbreviation (input) SecNoOfRootDir :: u16 where "SecNoOfRootDir \<equiv> 19"
abbreviation (input) SecNoOfFAT1 :: u16 where "SecNoOfFAT1 \<equiv> 1"
abbreviation (input) DeltaSecNo :: u16 where "DeltaSecNo \<equiv> 17"

text \<open>
  What \<open>int 0x13\<close> delivers for a cylinder, a head, a sector and a count, when it succeeds.
  \<open>carries\<close> are the carry flags the coming calls return (set after a failed one); \<open>shown\<close> are the
  messages shown so far, as indices into the table of strings.
\<close>

type_synonym bios = "u8 \<Rightarrow> u8 \<Rightarrow> u8 \<Rightarrow> u8 \<Rightarrow> u8 list"

record real_mode =
  r_mem :: mem
  carries :: "bool list"
  shown :: "nat list"

text \<open>The address \<open>es:bx\<close>.\<close>

definition linear :: "u16 \<Rightarrow> u16 \<Rightarrow> addr" where
  "linear es bx = push_bit 4 (ucast es) + ucast bx"

section \<open>The routines\<close>

text \<open>The loop \<open>reading\<close> repeats the call until it succeeds.\<close>

fun reading :: "bool list \<Rightarrow> bool list option" where
  "reading [] = None"
| "reading (carry # cs) = (if carry then reading cs else Some cs)"

text \<open>
  \<open>ReadSector\<close>: \<open>div\<close> puts the quotient in one byte and faults when it does not fit.
\<close>

definition ReadSector :: "bios \<Rightarrow> u16 \<Rightarrow> u8 \<Rightarrow> addr \<Rightarrow> real_mode \<Rightarrow> stop + real_mode" where
  "ReadSector bios ax cl buf s =
     (let y = unat ax div BPB_SecPerTrk; z = unat ax mod BPB_SecPerTrk in
      if 256 \<le> y then Inl Divide_error
      else let al = of_nat y :: u8; start = of_nat z + 1 :: u8; dh = al AND 1; ch = drop_bit 1 al
           in andThen (returns (reading (carries s))) (\<lambda>cs.
              Inr (s\<lparr>carries := cs, r_mem := put_bytes buf 0 (bios ch dh start cl) (r_mem s)\<rparr>)))"

text \<open>
  \<open>GetFATEntry\<close>: two sectors of the table go 4 kB below the file; the entry is 12 bits of the word at
  its offset, the upper ones for an odd entry.
\<close>

definition GetFATEntry :: "bios \<Rightarrow> u16 \<Rightarrow> u16 \<Rightarrow> real_mode \<Rightarrow> stop + u16 \<times> real_mode" where
  "GetFATEntry bios base n s =
     (let ax = unat n * 3 div 2; odd_entry = unat n * 3 mod 2; fat = linear (base - 0x100) 0 in
      if 65536 \<le> ax then Inl Divide_error
      else andThen (ReadSector bios (of_nat (ax div BPB_BytsPerSec) + SecNoOfFAT1) 2 fat s) (\<lambda>s.
        let w = ucast (load16 (r_mem s) (fat + of_nat (ax mod BPB_BytsPerSec))) :: u16;
            w = (if odd_entry = 0 then w else drop_bit 4 w)
        in Inr (w AND 0x0fff, s)))"

text \<open>
  The comparison of a name with the bytes at \<open>es:di\<close>: whether all agree, and the \<open>di\<close> it ends with.
\<close>

fun compare_file_name :: "u8 list \<Rightarrow> u16 \<Rightarrow> u16 \<Rightarrow> mem \<Rightarrow> bool \<times> u16" where
  "compare_file_name [] es di m = (True, di)"
| "compare_file_name (c # cs) es di m =
     (if m (linear es di) = c then compare_file_name cs es (di + 1) m else (False, di))"

text \<open>The entries of one sector, with the counter in \<open>dx\<close>; the \<open>di\<close> of the entry with the name.\<close>

fun search_entries :: "nat \<Rightarrow> u8 list \<Rightarrow> u16 \<Rightarrow> u16 \<Rightarrow> mem \<Rightarrow> u16 option" where
  "search_entries 0 name es di m = None"
| "search_entries (Suc dx) name es di m =
     (case compare_file_name name es di m of
        (True, di) \<Rightarrow> Some (di AND 0xffe0)
      | (False, di) \<Rightarrow> search_entries dx name es ((di AND 0xffe0) + 0x20) m)"

text \<open>The sectors of the root directory, with the counter \<open>gRootDirSizeForLoop\<close>.\<close>

fun search_root :: "nat \<Rightarrow> u16 \<Rightarrow> bios \<Rightarrow> u8 list \<Rightarrow> u16 \<Rightarrow> u16 \<Rightarrow> real_mode \<Rightarrow> stop + u16 option \<times> real_mode" where
  "search_root 0 sector bios name base off s = Inr (None, s)"
| "search_root (Suc left) sector bios name base off s =
     andThen (ReadSector bios sector 1 (linear base off) s) (\<lambda>s.
       case search_entries 16 name base off (r_mem s) of
         Some di \<Rightarrow> Inr (Some di, s)
       | None \<Rightarrow> search_root left (sector + 1) bios name base off s)"

text \<open>
  The loop \<open>loading_file\<close>: the cluster \<open>n\<close> goes to \<open>es:bx\<close>, and its entry says which comes next.
\<close>

partial_function (option) loading_file :: "bios \<Rightarrow> u16 \<Rightarrow> u16 \<Rightarrow> u16 \<Rightarrow> real_mode \<Rightarrow> (stop + real_mode) option" where
  "loading_file bios base bx n s =
     (case andThen (ReadSector bios (n + of_nat RootDirSectors + DeltaSecNo) 1 (linear base bx) s) (GetFATEntry bios base n) of
        Inl e \<Rightarrow> Some (Inl e)
      | Inr (ax, s) \<Rightarrow>
          if ax = 0x0fff then Some (Inr s)
          else loading_file bios base (bx + of_nat BPB_BytsPerSec) ax s)"

text \<open>
  From the search to the message: the file is in memory, or it is not there and the code spins.
\<close>

datatype loaded =
    Loaded real_mode
  | No_file real_mode

definition ShowMsg :: "nat \<Rightarrow> real_mode \<Rightarrow> real_mode" where
  "ShowMsg dh s = s\<lparr>shown := shown s @ [dh]\<rparr>"

definition load_program :: "bios \<Rightarrow> u8 list \<Rightarrow> u16 \<Rightarrow> u16 \<Rightarrow> real_mode \<Rightarrow> stop + loaded" where
  "load_program bios name base off s =
     andThen (search_root RootDirSectors SecNoOfRootDir bios name base off s) (\<lambda>(found, s).
       case found of
         None \<Rightarrow> Inr (No_file (ShowMsg 2 s))
       | Some di \<Rightarrow>
           (let first = ucast (load16 (r_mem s) (linear base (di + 0x1a))) in
            andThen (returns_or_stops (loading_file bios base off first s)) (\<lambda>s. Inr (Loaded (ShowMsg 1 s)))))"

text \<open>\<open>boot.s\<close> loads the loader, \<open>loader.s\<close> the kernel.\<close>

abbreviation (input) BaseOfLoader :: u16 where "BaseOfLoader \<equiv> 0x9000"
abbreviation (input) OffsetOfLoader :: u16 where "OffsetOfLoader \<equiv> 0x0100"
abbreviation (input) BaseOfKernel :: u16 where "BaseOfKernel \<equiv> 0x8000"
abbreviation (input) OffsetOfKernel :: u16 where "OffsetOfKernel \<equiv> 0"

definition LoaderName :: "u8 list" where "LoaderName = chars ''LOADER  BIN''"
definition KernelName :: "u8 list" where "KernelName = chars ''KERNEL  BIN''"

definition boot_sector :: "bios \<Rightarrow> real_mode \<Rightarrow> stop + loaded" where
  "boot_sector bios s = load_program bios LoaderName BaseOfLoader OffsetOfLoader (ShowMsg 0 s)"

definition load_kernel_file :: "bios \<Rightarrow> real_mode \<Rightarrow> stop + loaded" where
  "load_kernel_file bios s = load_program bios KernelName BaseOfKernel OffsetOfKernel s"

section \<open>FAT12, as the disk has it\<close>

text \<open>A disk is its sectors; every entry of the table takes 12 bits.\<close>

type_synonym disk = "nat \<Rightarrow> u8 list"

definition fat_bytes :: "disk \<Rightarrow> u8 list" where
  "fat_bytes disk = concat (map disk [1..<11])"

definition fat_entry :: "disk \<Rightarrow> nat \<Rightarrow> nat" where
  "fat_entry disk n =
     (let q = n * 3 div 2; w = unat (fat_bytes disk ! q) + 256 * unat (fat_bytes disk ! (q + 1))
      in if even n then w mod 4096 else w div 16)"

text \<open>The clusters of a file, from the first to the one marked as the last.\<close>

fun fat_chain :: "disk \<Rightarrow> nat list \<Rightarrow> bool" where
  "fat_chain disk [] = False"
| "fat_chain disk [c] = (fat_entry disk c = 0xfff)"
| "fat_chain disk (c # d # cs) = (fat_entry disk c = d \<and> d \<noteq> 0xfff \<and> fat_chain disk (d # cs))"

definition file_bytes :: "disk \<Rightarrow> nat list \<Rightarrow> u8 list" where
  "file_bytes disk cs = concat (map (\<lambda>c. disk (c + 31)) cs)"

text \<open>The first of the 224 directory entries with a name, and its first cluster.\<close>

definition dir_entry :: "disk \<Rightarrow> nat \<Rightarrow> u8 list" where
  "dir_entry disk i = take 32 (drop (32 * (i mod 16)) (disk (19 + i div 16)))"

definition find_file :: "disk \<Rightarrow> u8 list \<Rightarrow> nat option" where
  "find_file disk name = find (\<lambda>i. take 11 (dir_entry disk i) = name) [0..<224]"

definition first_cluster :: "u8 list \<Rightarrow> nat" where
  "first_cluster entry = unat (entry ! 26) + 256 * unat (entry ! 27)"

text \<open>
  A BIOS that reads the disk: sectors are numbered from 1 in a track, tracks by cylinder and head;
  a request stays within a track.
\<close>

definition floppy_bios :: "bios \<Rightarrow> disk \<Rightarrow> bool" where
  "floppy_bios bios disk \<longleftrightarrow>
     (\<forall>i<2880. length (disk i) = 512) \<and>
     (\<forall>sector count. sector mod 18 + count \<le> 18 \<and> sector + count \<le> 2880 \<longrightarrow>
        bios (of_nat (sector div 36)) (of_nat (sector div 18 mod 2)) (of_nat (sector mod 18 + 1)) (of_nat count)
          = concat (map disk [sector..<sector + count]))"

section \<open>Reading sectors\<close>

definition successes :: "bool list \<Rightarrow> nat" where
  "successes cs = length (filter Not cs)"

lemma reading_succeeds:
  "0 < successes cs \<Longrightarrow> \<exists>cs'. reading cs = Some cs' \<and> successes cs = Suc (successes cs')"
  by (induction cs rule: reading.induct) (auto simp: successes_def)

lemma half_byte:
  assumes "y < 256"
  shows "drop_bit 1 (of_nat y :: u8) = of_nat (y div 2)" and "(of_nat y :: u8) AND 1 = of_nat (y mod 2)"
proof -
  show "drop_bit 1 (of_nat y :: u8) = of_nat (y div 2)"
    using assms by (simp add: word_unat_eq_iff drop_bit_eq_div unat_div unat_of_nat)
  show "(of_nat y :: u8) AND 1 = of_nat (y mod 2)"
    using assms by (simp add: word_unat_eq_iff and_one_eq unat_mod unat_of_nat)
qed

lemma ReadSector_reads:
  assumes "floppy_bios bios disk" and "sector + count \<le> 2880" and "sector mod 18 + count \<le> 18"
    and "0 < successes (carries s)"
  shows "\<exists>cs. successes (carries s) = Suc (successes cs) \<and> ReadSector bios (of_nat sector) (of_nat count) buf s =
    Inr (s\<lparr>carries := cs, r_mem := put_bytes buf 0 (concat (map disk [sector..<sector + count])) (r_mem s)\<rparr>)"
proof -
  obtain cs where cs: "reading (carries s) = Some cs" "successes (carries s) = Suc (successes cs)"
    using reading_succeeds [OF assms(4)] by blast
  have ax: "unat (of_nat sector :: u16) = sector" using assms(2) by (simp add: unat_of_nat)
  have y: "sector div 18 < 256" "sector div 18 div 2 = sector div 36" using assms(2) by simp_all
  have "bios (of_nat (sector div 36)) (of_nat (sector div 18 mod 2)) (of_nat (sector mod 18 + 1)) (of_nat count) =
      concat (map disk [sector..<sector + count])"
    using assms(1-3) by (simp add: floppy_bios_def)
  then show ?thesis
    using cs y half_byte [OF y(1)] by (intro exI [of _ cs]) (simp add: ReadSector_def ax Let_def add.commute)
qed

lemma ReadSector_one:
  assumes "floppy_bios bios disk" and "sector < 2880" and "0 < successes (carries s)"
  shows "\<exists>cs. successes (carries s) = Suc (successes cs) \<and> ReadSector bios (of_nat sector) 1 buf s =
    Inr (s\<lparr>carries := cs, r_mem := put_bytes buf 0 (disk sector) (r_mem s)\<rparr>)"
proof -
  have "sector mod 18 + 1 \<le> 18" using mod_less_divisor [of 18 sector] by linarith
  moreover have "concat (map disk [sector..<sector + 1]) = disk sector" by simp
  ultimately show ?thesis using ReadSector_reads [OF assms(1), of sector 1 s buf] assms(2,3) by (metis Suc_eq_plus1 Suc_leI of_nat_1)
qed

lemma sectors_length:
  assumes "floppy_bios bios disk" and "sector + count \<le> 2880"
  shows "length (concat (map disk [sector..<sector + count])) = 512 * count"
  using assms(2)
proof (induction count)
  case (Suc count)
  have "length (disk (sector + count)) = 512" using assms(1) Suc.prems by (simp add: floppy_bios_def)
  then show ?case using Suc by simp
qed simp

lemma sectors_nth:
  assumes "floppy_bios bios disk" and "sector + count \<le> 2880" and "i < 512 * count"
  shows "concat (map disk [sector..<sector + count]) ! i = disk (sector + i div 512) ! (i mod 512)"
  using assms(2,3)
proof (induction count)
  case (Suc count)
  show ?case
  proof (cases "i < 512 * count")
    case True
    then show ?thesis using Suc sectors_length [OF assms(1), of sector count] by (simp add: nth_append)
  next
    case False
    then have "i div 512 = count" using Suc.prems(2) by auto
    moreover from this have "i - 512 * count = i mod 512" by (metis minus_mult_div_eq_mod)
    ultimately show ?thesis using False Suc.prems sectors_length [OF assms(1), of sector count] by (simp add: nth_append)
  qed
qed simp

section \<open>The table\<close>

lemma put_bytes_in: "in_block x d (length xs) \<Longrightarrow> put_bytes d 0 xs m x = xs ! unat (x - d)"
  by (simp add: put_bytes_def in_block_def)

lemma fat_bytes_nth:
  assumes "floppy_bios bios disk" and "i < 5120"
  shows "fat_bytes disk ! i = disk (1 + i div 512) ! (i mod 512)"
  using sectors_nth [OF assms(1), of 1 10 i] assms(2) by (simp add: fat_bytes_def)

lemma word_of_bytes:
  "(ucast (load16 m a) :: u16) = of_nat (unat (m a) + 256 * unat (m (a + 1)))"
proof -
  have "(ucast (load16 m a) :: u16) = ucast (m a) OR push_bit 8 (ucast (m (a + 1)))"
    by (rule bit_word_eqI) (auto simp: load16_def bit_simps)
  also have "\<dots> = ucast (m a) + push_bit 8 (ucast (m (a + 1)))"
    by (rule disjunctive_add [symmetric]) (auto simp: bit_simps dest: bit_imp_le_length)
  also have "\<dots> = of_nat (unat (m a) + 256 * unat (m (a + 1)))"
    by (simp add: push_bit_eq_mult)
  finally show ?thesis .
qed

lemma fat_word_entry:
  fixes w :: nat
  assumes "w < 65536"
  shows "(of_nat w :: u16) AND 0x0fff = of_nat (w mod 4096)" and "drop_bit 4 (of_nat w :: u16) AND 0x0fff = of_nat (w div 16)"
proof -
  have m: "x AND 0x0fff = of_nat (unat x mod 4096)" for x :: u16
  proof -
    have "x AND 0x0fff = take_bit 12 x" by (simp add: take_bit_eq_mask mask_eq_exp_minus_1)
    then show ?thesis by (simp add: word_unat_eq_iff unsigned_take_bit_eq take_bit_eq_mod unat_of_nat unat_mod)
  qed
  show "(of_nat w :: u16) AND 0x0fff = of_nat (w mod 4096)" using assms by (simp add: m unat_of_nat)
  have "unat (drop_bit 4 (of_nat w :: u16)) = w div 16"
    using assms by (simp add: drop_bit_eq_div unat_div unat_of_nat)
  then show "drop_bit 4 (of_nat w :: u16) AND 0x0fff = of_nat (w div 16)" using assms by (simp add: m)
qed

lemma GetFATEntry_entry:
  assumes "floppy_bios bios disk" and "n + 31 < 2880" and "0 < successes (carries s)"
  shows "\<exists>cs xs. successes (carries s) = Suc (successes cs) \<and> length xs = 1024 \<and>
    GetFATEntry bios base (of_nat n) s = Inr (of_nat (fat_entry disk n),
      s\<lparr>carries := cs, r_mem := put_bytes (linear (base - 0x100) 0) 0 xs (r_mem s)\<rparr>)"
proof -
  define q where "q = n * 3 div 2"
  define k where "k = 1 + q div 512"
  define r where "r = q mod 512"
  let ?fat = "linear (base - 0x100) 0" and ?xs = "concat (map disk [k..<k + 2])"
  have ax: "unat (of_nat n :: u16) = n" using assms(2) by (simp add: unat_of_nat)
  have q: "q < 4280" "k \<le> 9" "r < 512" using assms(2) by (auto simp: q_def k_def r_def)
  obtain cs where cs: "successes (carries s) = Suc (successes cs)"
    "ReadSector bios (of_nat k) 2 ?fat s = Inr (s\<lparr>carries := cs, r_mem := put_bytes ?fat 0 ?xs (r_mem s)\<rparr>)"
    using ReadSector_reads [OF assms(1), of k 2 s ?fat] q assms(3) by auto
  have len: "length ?xs = 1024" using sectors_length [OF assms(1), of k 2] q(2) by simp
  have byte: "put_bytes ?fat 0 ?xs (r_mem s) (?fat + of_nat (r + i)) = fat_bytes disk ! (q + i)" if "i < 2" for i
  proof -
    have "?xs ! (r + i) = disk (k + (r + i) div 512) ! ((r + i) mod 512)"
      using sectors_nth [OF assms(1), of k 2 "r + i"] q that by simp
    moreover have "q + i = r + i + q div 512 * 512" by (simp add: r_def)
    then have "k + (r + i) div 512 = 1 + (q + i) div 512" "(r + i) mod 512 = (q + i) mod 512"
      unfolding k_def by (simp, metis mod_mult_self1)
    moreover have "put_bytes ?fat 0 ?xs (r_mem s) (?fat + of_nat (r + i)) = ?xs ! (r + i)"
      using put_bytes_at [of "r + i" ?xs ?fat] len q(3) that by simp
    ultimately show ?thesis using fat_bytes_nth [OF assms(1), of "q + i"] q(1) that by simp
  qed
  define w where "w = unat (fat_bytes disk ! q) + 256 * unat (fat_bytes disk ! (q + 1))"
  define m' where "m' = put_bytes ?fat 0 ?xs (r_mem s)"
  have "m' (?fat + of_nat r) = fat_bytes disk ! q" "m' (?fat + of_nat r + 1) = fat_bytes disk ! (q + 1)"
    using byte [of 0] byte [of 1] unfolding m'_def by (simp_all only: of_nat_add of_nat_1 add_0_right add.assoc)
  then have w: "ucast (load16 m' (?fat + of_nat r)) = (of_nat w :: u16)"
    by (simp add: word_of_bytes w_def)
  have w': "w < 65536"
    using unat_u8_less [of "fat_bytes disk ! q"] unat_u8_less [of "fat_bytes disk ! (q + 1)"] unfolding w_def by linarith
  have odd_n: "n * 3 mod 2 = 0 \<longleftrightarrow> even n" by presburger
  have rs: "ReadSector bios (of_nat (q div 512) + SecNoOfFAT1) 2 ?fat s = Inr (s\<lparr>carries := cs, r_mem := m'\<rparr>)"
    using cs(2) by (simp only: k_def m'_def of_nat_add of_nat_1 add.commute)
  have entry: "fat_entry disk n = (if even n then w mod 4096 else w div 16)"
    by (simp add: fat_entry_def Let_def q_def w_def)
  have "GetFATEntry bios base (of_nat n) s = Inr (of_nat (fat_entry disk n), s\<lparr>carries := cs, r_mem := m'\<rparr>)"
    unfolding GetFATEntry_def Let_def ax q_def [symmetric] rs r_def [symmetric] andThen_simps
    using q(1) fat_word_entry [OF w'] odd_n by (simp add: w entry)
  then show ?thesis unfolding m'_def using cs(1) len by blast
qed

section \<open>The root directory\<close>

lemma linear_nat: "n < 65536 \<Longrightarrow> linear es (of_nat n) = push_bit 4 (ucast es) + of_nat n"
  by (simp add: linear_def unsigned_of_nat take_bit_nat_eq_self)

lemma entry_head:
  assumes "32 * a + k < 65536" and "k < 32"
  shows "(of_nat (32 * a + k) :: u16) AND 0xffe0 = of_nat (32 * a)"
proof -
  have m: "(0xffe0 :: u16) = push_bit 5 (mask 11)" by (simp add: mask_eq_exp_minus_1 push_bit_eq_mult)
  have "x AND 0xffe0 = push_bit 5 (drop_bit 5 x)" for x :: u16
    unfolding m by (rule bit_word_eqI) (auto simp: bit_simps)
  moreover have "unat (of_nat (32 * a + k) :: u16) = 32 * a + k"
    using assms(1) by (simp add: unat_of_nat del: of_nat_add of_nat_mult)
  then have "drop_bit 5 (of_nat (32 * a + k) :: u16) = of_nat a"
    using assms by (simp add: word_unat_eq_iff drop_bit_eq_div unat_div unat_of_nat del: of_nat_add of_nat_mult)
  ultimately show ?thesis by (simp add: push_bit_eq_mult)
qed

lemma compare_file_name_result:
  fixes di :: u16
  shows "compare_file_name name es di m = (True, di + of_nat (length name)) \<and>
      (\<forall>j<length name. m (linear es (di + of_nat j)) = name ! j) \<or>
    (\<exists>k<length name. compare_file_name name es di m = (False, di + of_nat k) \<and> m (linear es (di + of_nat k)) \<noteq> name ! k)"
proof (induction name arbitrary: di)
  case (Cons c cs)
  show ?case
  proof (cases "m (linear es di) = c")
    case True
    then have step: "compare_file_name (c # cs) es di m = compare_file_name cs es (di + 1) m" by simp
    have "(\<forall>j<length (c # cs). m (linear es (di + of_nat j)) = (c # cs) ! j) \<longleftrightarrow>
        (\<forall>j<length cs. m (linear es (di + 1 + of_nat j)) = cs ! j)"
      using True by (simp add: All_less_Suc2 add.assoc)
    moreover have "(\<exists>k<length cs. r = (False, di + 1 + of_nat k) \<and> m (linear es (di + 1 + of_nat k)) \<noteq> cs ! k) \<Longrightarrow>
        \<exists>k<length (c # cs). r = (False, di + of_nat k) \<and> m (linear es (di + of_nat k)) \<noteq> (c # cs) ! k" for r
      by (auto simp: Ex_less_Suc2 add.assoc)
    ultimately show ?thesis using Cons.IH [of "di + 1"] unfolding step by (simp add: add.assoc) blast
  qed (simp add: exI [of _ 0])
qed simp

lemma take_drop_eq_iff:
  assumes "i + length ys \<le> length xs"
  shows "take (length ys) (drop i xs) = ys \<longleftrightarrow> (\<forall>j<length ys. xs ! (i + j) = ys ! j)"
  using assms by (auto simp: list_eq_iff_nth_eq)

lemma search_entries_find:
  assumes "length name = 11" and "length xs = 512" and "32 * b + 512 < 65536"
    and "\<forall>i<512. m (linear es (of_nat (32 * b + i))) = xs ! i" and "i + dx \<le> 16"
  shows "search_entries dx name es (of_nat (32 * (b + i))) m =
    map_option (\<lambda>j. of_nat (32 * (b + j))) (find (\<lambda>j. take 11 (drop (32 * j) xs) = name) [i..<i + dx])"
  using assms(5)
proof (induction dx arbitrary: i)
  case (Suc dx)
  let ?di = "of_nat (32 * (b + i)) :: u16"
  have at: "m (linear es (?di + of_nat j)) = xs ! (32 * i + j)" if "j < 11" for j
  proof -
    have "32 * (b + i) + j = 32 * b + (32 * i + j)" "32 * i + j < 512" using that Suc.prems by simp_all
    then show ?thesis using assms(4) by (metis of_nat_add)
  qed
  have head: "(?di + of_nat j) AND 0xffe0 = ?di" if "j \<le> 11" for j
    using entry_head [of "b + i" j] that assms(3) Suc.prems by simp
  have upt: "[i..<i + Suc dx] = i # [Suc i..<Suc i + dx]" by (simp add: upt_conv_Cons del: upt_Suc)
  have same: "take 11 (drop (32 * i) xs) = name \<longleftrightarrow> (\<forall>j<11. xs ! (32 * i + j) = name ! j)"
    using take_drop_eq_iff [of "32 * i" name xs] assms(1,2) Suc.prems by simp
  from compare_file_name_result [of name es ?di m] show ?case
  proof (elim disjE conjE exE)
    assume c: "compare_file_name name es ?di m = (True, ?di + of_nat (length name))"
      "\<forall>j<length name. m (linear es (?di + of_nat j)) = name ! j"
    then have "take 11 (drop (32 * i) xs) = name" using at same assms(1) by simp
    then show ?thesis using c(1) head [of 11] assms(1) unfolding upt by simp
  next
    fix k assume c: "k < length name" "compare_file_name name es ?di m = (False, ?di + of_nat k)"
      "m (linear es (?di + of_nat k)) \<noteq> name ! k"
    then have "take 11 (drop (32 * i) xs) \<noteq> name" using at same assms(1) by auto
    moreover have "?di + 0x20 = of_nat (32 * (b + Suc i))" by simp
    then have "search_entries dx name es (?di + 0x20) m =
        map_option (\<lambda>j. of_nat (32 * (b + j))) (find (\<lambda>j. take 11 (drop (32 * j) xs) = name) [Suc i..<Suc i + dx])"
      using Suc.IH [of "Suc i"] Suc.prems by (simp only:)
    ultimately show ?thesis using c(1,2) head [of k] assms(1) unfolding upt
      by (simp del: upt_Suc of_nat_mult of_nat_add)
  qed
qed simp

lemma find_append: "find P (xs @ ys) = (case find P xs of None \<Rightarrow> find P ys | Some x \<Rightarrow> Some x)"
  by (induction xs) auto

lemma find_shift: "find P [k..<k + n] = map_option ((+) k) (find (\<lambda>j. P (k + j)) [0..<n])"
proof (induction n)
  case (Suc n)
  then show ?case by (simp add: find_append split: option.split)
qed simp

text \<open>The search of one sector, for the entries of the directory that stand in it.\<close>

definition named :: "disk \<Rightarrow> u8 list \<Rightarrow> nat \<Rightarrow> bool" where
  "named disk name i \<longleftrightarrow> take 11 (dir_entry disk i) = name"

lemma search_sector:
  assumes "floppy_bios bios disk" and "length name = 11" and "k < 14" and "32 * b + 512 < 65536"
    and "\<forall>i<512. m (linear es (of_nat (32 * b + i))) = disk (19 + k) ! i"
  shows "search_entries 16 name es (of_nat (32 * b)) m =
    map_option (\<lambda>i. of_nat (32 * (b + i mod 16))) (find (named disk name) [16 * k..<16 * k + 16])"
proof -
  have "length (disk (19 + k)) = 512" using assms(1,3) by (simp add: floppy_bios_def)
  from search_entries_find [OF assms(2) this assms(4,5), of 0 16]
  have "search_entries 16 name es (of_nat (32 * b)) m =
      map_option (\<lambda>j. of_nat (32 * (b + j))) (find (\<lambda>j. take 11 (drop (32 * j) (disk (19 + k))) = name) [0..<16])"
    by (simp only: add_0_left add_0_right order_refl)
  moreover have "find (named disk name) [16 * k..<16 * k + 16] =
      map_option ((+) (16 * k)) (find (\<lambda>j. take 11 (drop (32 * j) (disk (19 + k))) = name) [0..<16])"
  proof -
    have "named disk name (16 * k + j) \<longleftrightarrow> take 11 (drop (32 * j) (disk (19 + k))) = name" if "j < 16" for j
      using that by (simp add: named_def dir_entry_def)
    then show ?thesis unfolding find_shift by (intro arg_cong [where f = "map_option _"] find_cong) auto
  qed
  moreover have "map_option (\<lambda>i. of_nat (32 * (b + i mod 16)) :: u16) (map_option ((+) (16 * k)) r) =
      map_option (\<lambda>j. of_nat (32 * (b + j))) r" if "\<forall>j. r = Some j \<longrightarrow> j < 16" for r
    using that by (cases r) simp_all
  moreover have "find Q [0..<16] = Some j \<Longrightarrow> j < 16" for Q and j :: nat
    by (auto simp: find_Some_iff)
  ultimately show ?thesis by simp
qed

lemma search_root_finds:
  assumes "floppy_bios bios disk" and "length name = 11" and "32 * b + 512 < 65536"
    and "k + left \<le> 14" and "left \<le> successes (carries s)"
  defines "off \<equiv> of_nat (32 * b)" and "r \<equiv> find (named disk name) [16 * k..<16 * (k + left)]"
  shows "\<exists>s'. search_root left (of_nat (19 + k)) bios name base off s =
      Inr (map_option (\<lambda>i. of_nat (32 * (b + i mod 16))) r, s') \<and>
    successes (carries s) \<le> successes (carries s') + left \<and> shown s' = shown s \<and>
    (\<forall>x. \<not> in_block x (linear base off) 512 \<longrightarrow> r_mem s' x = r_mem s x) \<and>
    (\<forall>i. r = Some i \<longrightarrow> (\<forall>j<512. r_mem s' (linear base off + of_nat j) = disk (19 + i div 16) ! j))"
  using assms(4,5) unfolding r_def
proof (induction left arbitrary: k s)
  case (Suc left)
  let ?buf = "linear base off" and ?find = "\<lambda>i j. find (named disk name) [i..<j]"
  have len: "length (disk (19 + k)) = 512" using assms(1) Suc.prems(1) by (simp add: floppy_bios_def)
  define m' where "m' = put_bytes ?buf 0 (disk (19 + k)) (r_mem s)"
  obtain cs where cs: "successes (carries s) = Suc (successes cs)"
    "ReadSector bios (of_nat (19 + k)) 1 ?buf s = Inr (s\<lparr>carries := cs, r_mem := m'\<rparr>)"
    using ReadSector_one [OF assms(1), of "19 + k" s ?buf] Suc.prems by (auto simp: m'_def)
  have bytes: "m' (?buf + of_nat j) = disk (19 + k) ! j" if "j < 512" for j
    using put_bytes_at [of j "disk (19 + k)" ?buf] len that by (simp add: m'_def)
  have frame: "m' x = r_mem s x" if "\<not> in_block x ?buf 512" for x
    using put_bytes_frame [of x ?buf 0] len that by (simp add: m'_def)
  have "linear base (of_nat (32 * b + j)) = ?buf + of_nat j" if "j < 512" for j
    using linear_nat [of "32 * b + j" base] linear_nat [of "32 * b" base] that assms(3) by (simp add: off_def)
  then have se: "search_entries 16 name base off m' = map_option (\<lambda>i. of_nat (32 * (b + i mod 16))) (?find (16 * k) (16 * k + 16))"
    unfolding off_def using bytes Suc.prems(1) by (intro search_sector [OF assms(1,2) _ assms(3)]) (simp_all add: off_def)
  have m: "r_mem (s\<lparr>carries := cs, r_mem := m'\<rparr>) = m'" by simp
  have "(of_nat (19 + k) :: u16) + 1 = of_nat (19 + Suc k)" by simp
  then have step: "search_root (Suc left) (of_nat (19 + k)) bios name base off s =
      (case map_option (\<lambda>i. of_nat (32 * (b + i mod 16))) (?find (16 * k) (16 * k + 16)) of
         Some di \<Rightarrow> Inr (Some di, s\<lparr>carries := cs, r_mem := m'\<rparr>)
       | None \<Rightarrow> search_root left (of_nat (19 + Suc k)) bios name base off (s\<lparr>carries := cs, r_mem := m'\<rparr>))"
    using m by (simp only: search_root.simps cs(2) andThen_simps se)
  have "[16 * k..<16 * (k + Suc left)] = [16 * k..<16 * k + 16] @ [16 * Suc k..<16 * (Suc k + left)]"
    using upt_add_eq_append [of "16 * k" "16 * k + 16" "16 * left"] by (simp add: algebra_simps del: upt_Suc)
  then have split: "?find (16 * k) (16 * (k + Suc left)) =
      (case ?find (16 * k) (16 * k + 16) of None \<Rightarrow> ?find (16 * Suc k) (16 * (Suc k + left)) | Some i \<Rightarrow> Some i)"
    by (simp only: find_append)
  show ?case
  proof (cases "?find (16 * k) (16 * k + 16)")
    case None
    have "successes (carries (s\<lparr>carries := cs, r_mem := m'\<rparr>)) = successes cs" by simp
    with Suc.IH [of "Suc k" "s\<lparr>carries := cs, r_mem := m'\<rparr>"] Suc.prems cs(1) frame show ?thesis
      unfolding step split None by auto
  next
    case (Some i)
    then have "i div 16 = k" by (auto simp: find_Some_iff)
    then show ?thesis unfolding step split Some using bytes frame cs(1) by simp
  qed
qed simp

section \<open>The loading loop\<close>

lemma linear_of_nat: "b < 65536 \<Longrightarrow> n < 65536 \<Longrightarrow> linear (of_nat b) (of_nat n) = of_nat (16 * b + n)"
  by (simp add: linear_nat unsigned_of_nat take_bit_nat_eq_self push_bit_eq_mult)

lemma below_file:
  assumes "256 \<le> b" and "b < 65536"
  shows "linear (of_nat b - 0x100) 0 = of_nat (16 * b - 4096)"
proof -
  have "(of_nat b - 0x100 :: u16) = of_nat (b - 256)" using assms(1) by simp
  then show ?thesis using linear_of_nat [of "b - 256" 0] assms by (simp add: right_diff_distrib')
qed

lemma in_block_nat: "a + n \<le> 4294967296 \<Longrightarrow> a < 4294967296 \<Longrightarrow> in_block x (of_nat a) n \<longleftrightarrow> a \<le> unat x \<and> unat x < a + n"
  unfolding in_block_def by (rule unat_diff_less_iff)

lemma unat_diff_nat: "n \<le> unat (x :: u32) \<Longrightarrow> unat (x - of_nat n) = unat x - n"
proof -
  assume "n \<le> unat x"
  then have "x - of_nat n = of_nat (unat x - n)" by simp
  then have "unat (x - of_nat n) = unat (of_nat (unat x - n) :: u32)" by (simp only:)
  also have "\<dots> = unat x - n" by (rule unat_of_nat_u32) (use unat_u32_less [of x] in linarith)
  finally show ?thesis .
qed

lemma fat_entry_less: "fat_entry disk n < 4096"
proof -
  have "unat a + 256 * unat b < 65536" for a b :: u8 using unat_u8_less [of a] unat_u8_less [of b] by linarith
  then show ?thesis by (simp add: fat_entry_def Let_def less_mult_imp_div_less)
qed

text \<open>Outside the two sectors of the table, memory is as it was but for the clusters loaded.\<close>

definition loaded_at :: "nat \<Rightarrow> nat \<Rightarrow> u8 list \<Rightarrow> mem \<Rightarrow> mem \<Rightarrow> bool" where
  "loaded_at b p xs m m' \<longleftrightarrow>
     (\<forall>x. unat x < 16 * b - 4096 \<or> 16 * b - 3072 \<le> unat x \<longrightarrow>
        m' x = (if 16 * b + p \<le> unat x \<and> unat x < 16 * b + p + length xs then xs ! (unat x - (16 * b + p)) else m x))"

text \<open>
  One round: the cluster is at \<open>es:bx\<close>, two sectors of the table below the file, and \<open>ax\<close> is the entry.
\<close>

lemma loading_round:
  assumes "floppy_bios bios disk" and "c + 31 < 2880" and "256 \<le> b" "b < 65536" and "p + 512 \<le> 65536"
    and "1 < successes (carries s)"
  shows "\<exists>s'. andThen (ReadSector bios (of_nat c + of_nat RootDirSectors + DeltaSecNo) 1 (linear (of_nat b) (of_nat p)) s)
      (GetFATEntry bios (of_nat b) (of_nat c)) = Inr (of_nat (fat_entry disk c), s') \<and>
    successes (carries s) = Suc (Suc (successes (carries s'))) \<and> shown s' = shown s \<and>
    loaded_at b p (disk (c + 31)) (r_mem s) (r_mem s')"
proof -
  let ?a = "of_nat (16 * b + p) :: addr"
  have at: "linear (of_nat b) (of_nat p) = ?a" using assms(4,5) by (intro linear_of_nat) simp_all
  have len: "length (disk (c + 31)) = 512" using assms(1,2) by (simp add: floppy_bios_def)
  obtain cs where cs: "successes (carries s) = Suc (successes cs)"
    "ReadSector bios (of_nat (c + 31)) 1 ?a s = Inr (s\<lparr>carries := cs, r_mem := put_bytes ?a 0 (disk (c + 31)) (r_mem s)\<rparr>)"
    using ReadSector_one [OF assms(1,2), of s ?a] assms(6) by auto
  let ?s = "s\<lparr>carries := cs, r_mem := put_bytes ?a 0 (disk (c + 31)) (r_mem s)\<rparr>"
  obtain cs' xs where e: "successes cs = Suc (successes cs')" "length xs = 1024"
    "GetFATEntry bios (of_nat b) (of_nat c) ?s = Inr (of_nat (fat_entry disk c),
       ?s\<lparr>carries := cs', r_mem := put_bytes (of_nat (16 * b - 4096)) 0 xs (r_mem ?s)\<rparr>)"
    using GetFATEntry_entry [OF assms(1,2), of ?s "of_nat b"] assms(6) cs(1) below_file [OF assms(3,4)] by auto
  let ?s' = "?s\<lparr>carries := cs', r_mem := put_bytes (of_nat (16 * b - 4096)) 0 xs (r_mem ?s)\<rparr>"
  have "r_mem ?s' x = (if 16 * b + p \<le> unat x \<and> unat x < 16 * b + p + length (disk (c + 31))
      then disk (c + 31) ! (unat x - (16 * b + p)) else r_mem s x)"
    if "unat x < 16 * b - 4096 \<or> 16 * b - 3072 \<le> unat x" for x
  proof -
    have "\<not> in_block x (of_nat (16 * b - 4096)) 1024" using in_block_nat [of "16 * b - 4096" 1024 x] assms(3,4) that by auto
    then have "r_mem ?s' x = put_bytes ?a 0 (disk (c + 31)) (r_mem s) x" using put_bytes_frame [of x _ 0 xs] e(2) by simp
    moreover have "in_block x ?a 512 \<longleftrightarrow> 16 * b + p \<le> unat x \<and> unat x < 16 * b + p + length (disk (c + 31))"
      using in_block_nat [of "16 * b + p" 512 x] assms(4,5) len by simp
    moreover have "unat (x - ?a) = unat x - (16 * b + p)" if "16 * b + p \<le> unat x" using that by (rule unat_diff_nat)
    ultimately show ?thesis using put_bytes_in [of x ?a "disk (c + 31)"] put_bytes_frame [of x ?a 0 "disk (c + 31)"] len by auto
  qed
  then have "loaded_at b p (disk (c + 31)) (r_mem s) (r_mem ?s')" by (simp only: loaded_at_def) blast
  moreover have sector: "of_nat c + of_nat RootDirSectors + DeltaSecNo = (of_nat (c + 31) :: u16)" by simp
  have "andThen (ReadSector bios (of_nat c + of_nat RootDirSectors + DeltaSecNo) 1 (linear (of_nat b) (of_nat p)) s)
      (GetFATEntry bios (of_nat b) (of_nat c)) = Inr (of_nat (fat_entry disk c), ?s')"
    unfolding at sector cs(2) andThen_simps by (rule e(3))
  moreover have "successes (carries s) = Suc (Suc (successes (carries ?s')))" "shown ?s' = shown s"
    using cs(1) e(1) by simp_all
  ultimately show ?thesis by blast
qed

lemma file_bytes_length:
  assumes "floppy_bios bios disk" and "\<forall>c\<in>set cs. c + 31 < 2880"
  shows "length (file_bytes disk cs) = 512 * length cs"
  using assms(2) by (induction cs) (use assms(1) in \<open>auto simp: file_bytes_def floppy_bios_def\<close>)

lemma loaded_at_bytes:
  assumes "loaded_at b p xs m m'" and "b < 65536" and "p + length xs \<le> 65536" and "j < length xs"
  shows "m' (of_nat (16 * b + p + j)) = xs ! j"
proof -
  have u: "unat (of_nat (16 * b + p + j) :: addr) = 16 * b + p + j"
    using assms(2-4) by (intro unat_of_nat_u32) simp
  have "16 * b - 3072 \<le> 16 * b + p + j" by simp
  then show ?thesis
    using assms(1) [unfolded loaded_at_def, rule_format, of "of_nat (16 * b + p + j)"] assms(4) unfolding u by simp
qed

lemma loaded_at_append:
  assumes "loaded_at b p xs m m'" and "loaded_at b (p + length xs) ys m' m''"
  shows "loaded_at b p (xs @ ys) m m''"
  unfolding loaded_at_def
proof (intro allI impI)
  fix x :: addr assume x: "unat x < 16 * b - 4096 \<or> 16 * b - 3072 \<le> unat x"
  note first = assms(1) [unfolded loaded_at_def, rule_format, OF x]
  note second = assms(2) [unfolded loaded_at_def, rule_format, OF x]
  show "m'' x = (if 16 * b + p \<le> unat x \<and> unat x < 16 * b + p + length (xs @ ys)
      then (xs @ ys) ! (unat x - (16 * b + p)) else m x)"
    unfolding second first by (auto simp: nth_append add.assoc)
qed

lemma loading_file_chain:
  assumes "floppy_bios bios disk" and "fat_chain disk cs" and "\<forall>c\<in>set cs. c + 31 < 2880"
    and "256 \<le> b" "b < 65536" and "p + 512 * length cs \<le> 65536" and "2 * length cs \<le> successes (carries s)"
  shows "\<exists>s'. loading_file bios (of_nat b) (of_nat p) (of_nat (hd cs)) s = Some (Inr s') \<and> shown s' = shown s \<and>
    successes (carries s) = successes (carries s') + 2 * length cs \<and>
    loaded_at b p (file_bytes disk cs) (r_mem s) (r_mem s')"
  using assms(2,3,6,7)
proof (induction cs arbitrary: p s)
  case (Cons c cs)
  have c: "c + 31 < 2880" "p + 512 \<le> 65536" "1 < successes (carries s)" using Cons.prems by simp_all
  have len: "length (disk (c + 31)) = 512" using assms(1) c(1) by (simp add: floppy_bios_def)
  obtain s1 where s1: "andThen (ReadSector bios (of_nat c + of_nat RootDirSectors + DeltaSecNo) 1 (linear (of_nat b) (of_nat p)) s)
      (GetFATEntry bios (of_nat b) (of_nat c)) = Inr (of_nat (fat_entry disk c), s1)"
    "successes (carries s) = Suc (Suc (successes (carries s1)))" "shown s1 = shown s"
    "loaded_at b p (disk (c + 31)) (r_mem s) (r_mem s1)"
    using loading_round [OF assms(1) c(1) assms(4,5) c(2,3)] by blast
  have last_iff: "(of_nat (fat_entry disk c) :: u16) = 0x0fff \<longleftrightarrow> fat_entry disk c = 0xfff"
    using word_of_nat_eq_iff_less [where 'a = 16 and i = "fat_entry disk c" and j = "0xfff"] fat_entry_less [of disk c] by simp
  have step: "loading_file bios (of_nat b) (of_nat p) (of_nat c) s =
      (if fat_entry disk c = 0xfff then Some (Inr s1)
       else loading_file bios (of_nat b) (of_nat (p + 512)) (of_nat (fat_entry disk c)) s1)"
    unfolding loading_file.simps [of bios "of_nat b" "of_nat p" "of_nat c" s] s1(1) by (simp add: last_iff)
  show ?case
  proof (cases cs)
    case Nil
    then have "fat_entry disk c = 0xfff" using Cons.prems(1) by simp
    then show ?thesis using step s1 Nil by (simp add: file_bytes_def)
  next
    case (Cons d ds)
    then have d: "fat_entry disk c = d" "d \<noteq> 0xfff" "fat_chain disk cs" using Cons.prems(1) by simp_all
    obtain s2 where s2: "loading_file bios (of_nat b) (of_nat (p + 512)) (of_nat (hd cs)) s1 = Some (Inr s2)"
      "shown s2 = shown s1" "successes (carries s1) = successes (carries s2) + 2 * length cs"
      "loaded_at b (p + 512) (file_bytes disk cs) (r_mem s1) (r_mem s2)"
      using Cons.IH [OF d(3), of "p + 512" s1] Cons.prems(2-4) s1(2) by auto
    have "length (file_bytes disk cs) = 512 * length cs"
      using Cons.prems(2) file_bytes_length [OF assms(1), of cs] by simp
    then have "loaded_at b p (disk (c + 31) @ file_bytes disk cs) (r_mem s) (r_mem s2)"
      using loaded_at_append [OF s1(4)] s2(4) len by simp
    moreover have "file_bytes disk (c # cs) = disk (c + 31) @ file_bytes disk cs" by (simp add: file_bytes_def)
    ultimately show ?thesis using step s2 s1(2,3) d Cons by simp
  qed
qed simp

lemma find_file_named: "find_file disk name = find (named disk name) [0..<224]"
  by (simp add: find_file_def named_def cong: find_cong)

lemma search_whole_root:
  assumes "floppy_bios bios disk" and "length name = 11" and "b < 65536" and "32 * q + 512 < 65536"
    and "14 \<le> successes (carries s)"
  shows "\<exists>s'. search_root RootDirSectors SecNoOfRootDir bios name (of_nat b) (of_nat (32 * q)) s =
      Inr (map_option (\<lambda>i. of_nat (32 * (q + i mod 16))) (find_file disk name), s') \<and>
    successes (carries s) \<le> successes (carries s') + 14 \<and> shown s' = shown s \<and>
    (\<forall>x. \<not> (16 * b + 32 * q \<le> unat x \<and> unat x < 16 * b + 32 * q + 512) \<longrightarrow> r_mem s' x = r_mem s x) \<and>
    (\<forall>i. find_file disk name = Some i \<longrightarrow>
       (\<forall>j<512. r_mem s' (of_nat (16 * b + 32 * q + j)) = disk (19 + i div 16) ! j))"
proof -
  have at: "linear (of_nat b) (of_nat (32 * q)) = of_nat (16 * b + 32 * q)"
    using assms(3,4) linear_of_nat [of b "32 * q"] by simp
  have "in_block x (of_nat (16 * b + 32 * q)) 512 \<longleftrightarrow> 16 * b + 32 * q \<le> unat x \<and> unat x < 16 * b + 32 * q + 512" for x
    using in_block_nat [of "16 * b + 32 * q" 512 x] assms(3,4) by simp
  moreover have "(of_nat (16 * b + 32 * q) + of_nat j :: addr) = of_nat (16 * b + 32 * q + j)" for j by simp
  ultimately show ?thesis
    using search_root_finds [OF assms(1,2,4), of 0 14 s "of_nat b"] assms(5) unfolding at find_file_named by auto
qed

lemma first_cluster_word:
  assumes "floppy_bios bios disk" and "i < 224" and "b < 65536" and "32 * q + 512 < 65536"
    and "\<forall>j<512. m (of_nat (16 * b + 32 * q + j)) = disk (19 + i div 16) ! j"
  shows "(ucast (load16 m (linear (of_nat b) (of_nat (32 * (q + i mod 16)) + 0x1a))) :: u16) =
    of_nat (first_cluster (dir_entry disk i))"
proof -
  define k where "k = 32 * (i mod 16) + 26"
  have k: "k + 1 < 512" using mod_less_divisor [of 16 i] unfolding k_def by linarith
  have "of_nat (32 * (q + i mod 16)) + 0x1a = (of_nat (32 * q + k) :: u16)" by (simp add: k_def)
  then have at: "linear (of_nat b) (of_nat (32 * (q + i mod 16)) + 0x1a) = of_nat (16 * b + 32 * q + k)"
    using linear_of_nat [of b "32 * q + k"] assms(3,4) k by (simp add: add.assoc)
  have len: "length (disk (19 + i div 16)) = 512" using assms(1,2) by (simp add: floppy_bios_def)
  have "dir_entry disk i ! j = disk (19 + i div 16) ! (32 * (i mod 16) + j)" if "j < 32" for j
    using that len by (simp add: dir_entry_def)
  then have "dir_entry disk i ! 26 = disk (19 + i div 16) ! k" "dir_entry disk i ! 27 = disk (19 + i div 16) ! (k + 1)"
    by (simp_all add: k_def add.commute)
  moreover have "m (of_nat (16 * b + 32 * q + k)) = disk (19 + i div 16) ! k"
    "m (of_nat (16 * b + 32 * q + k) + 1) = disk (19 + i div 16) ! (k + 1)"
    using assms(5) [rule_format, of k] assms(5) [rule_format, of "k + 1"] k by (simp_all add: ac_simps)
  ultimately show ?thesis unfolding at word_of_bytes by (simp add: first_cluster_def)
qed

lemma load_program_result:
  assumes "floppy_bios bios disk" and "length name = 11" and "find_file disk name = Some i"
    and "fat_chain disk cs" and "hd cs = first_cluster (dir_entry disk i)" and "\<forall>c\<in>set cs. c + 31 < 2880"
    and "256 \<le> b" "b < 65536" and "32 * q + 512 < 65536" and "32 * q + 512 * length cs \<le> 65536"
    and "14 + 2 * length cs \<le> successes (carries s)"
  shows "\<exists>s'. load_program bios name (of_nat b) (of_nat (32 * q)) s = Inr (Loaded s') \<and> shown s' = shown s @ [1] \<and>
    successes (carries s) \<le> successes (carries s') + 14 + 2 * length cs \<and>
    loaded_at b (32 * q) (file_bytes disk cs) (r_mem s) (r_mem s')"
proof -
  obtain s1 where s1: "search_root RootDirSectors SecNoOfRootDir bios name (of_nat b) (of_nat (32 * q)) s =
      Inr (Some (of_nat (32 * (q + i mod 16))), s1)"
    "successes (carries s) \<le> successes (carries s1) + 14" "shown s1 = shown s"
    "\<forall>x. \<not> (16 * b + 32 * q \<le> unat x \<and> unat x < 16 * b + 32 * q + 512) \<longrightarrow> r_mem s1 x = r_mem s x"
    "\<forall>j<512. r_mem s1 (of_nat (16 * b + 32 * q + j)) = disk (19 + i div 16) ! j"
    using search_whole_root [OF assms(1,2,8,9), of s] assms(3,11) by auto
  have i: "i < 224" using assms(3) by (auto simp: find_file_named find_Some_iff)
  have first: "ucast (load16 (r_mem s1) (linear (of_nat b) (of_nat (32 * (q + i mod 16)) + 0x1a))) = (of_nat (hd cs) :: u16)"
    unfolding assms(5) by (rule first_cluster_word [OF assms(1) i assms(8,9) s1(5)])
  have enough: "2 * length cs \<le> successes (carries s1)" using s1(2) assms(11) by simp
  obtain s2 where s2: "loading_file bios (of_nat b) (of_nat (32 * q)) (of_nat (hd cs)) s1 = Some (Inr s2)"
    "shown s2 = shown s1" "successes (carries s1) = successes (carries s2) + 2 * length cs"
    "loaded_at b (32 * q) (file_bytes disk cs) (r_mem s1) (r_mem s2)"
    using loading_file_chain [OF assms(1,4,6,7,8,10) enough] by blast
  have "length (file_bytes disk cs) = 512 * length cs" using file_bytes_length [OF assms(1,6)] .
  moreover have "Suc 0 \<le> length cs" using assms(4) by (cases cs) simp_all
  ultimately have "512 \<le> length (file_bytes disk cs)" by simp
  then have "loaded_at b (32 * q) (file_bytes disk cs) (r_mem s) (r_mem s2)"
    using s2(4) s1(4) unfolding loaded_at_def by auto
  moreover have "load_program bios name (of_nat b) (of_nat (32 * q)) s = Inr (Loaded (ShowMsg 1 s2))"
    unfolding load_program_def s1(1) andThen_simps prod.case option.case Let_def first s2(1) by simp
  ultimately show ?thesis using s1(2,3) s2(2,3) by (intro exI [of _ "ShowMsg 1 s2"]) (simp add: ShowMsg_def)
qed

section \<open>A floppy with two files\<close>

text \<open>Both files take one cluster; the BIOS reads what the disk holds.\<close>

definition sector_of :: "u8 list \<Rightarrow> u8 list" where
  "sector_of xs = take 512 (xs @ replicate 512 0)"

lemma length_sector_of [simp]: "length (sector_of xs) = 512"
  by (simp add: sector_of_def)

lemma sector_of_nth: "i < length xs \<Longrightarrow> i < 512 \<Longrightarrow> sector_of xs ! i = xs ! i"
  by (simp add: sector_of_def nth_append)

definition sample_floppy :: "u8 list \<Rightarrow> u8 list \<Rightarrow> disk" where
  "sample_floppy ld kn i =
     sector_of (if i = 1 then [0xf0, 0xff, 0xff, 0xff, 0xff, 0xff]
       else if i = 19 then LoaderName @ replicate 15 0 @ [2, 0, 0, 0, 0, 0] @ KernelName @ replicate 15 0 @ [3, 0]
       else if i = 33 then ld else if i = 34 then kn else [])"

definition bios_of :: "disk \<Rightarrow> bios" where
  "bios_of disk c h s n =
     (let sector = (unat c * 2 + unat h) * 18 + unat s - 1 in concat (map disk [sector..<sector + unat n]))"

lemma bios_of_floppy:
  assumes "\<forall>i<2880. length (disk i) = 512"
  shows "floppy_bios (bios_of disk) disk"
  unfolding floppy_bios_def
proof (intro conjI allI impI)
  fix sector count :: nat assume c: "sector mod 18 + count \<le> 18 \<and> sector + count \<le> 2880"
  then have n: "sector div 36 < 256" "sector div 18 mod 2 < 256" "sector mod 18 + 1 < 256" "count < 256" by auto
  have u: "unat (of_nat k :: u8) = k" if "k < 256" for k using that by (simp add: unat_of_nat)
  have "sector div 36 = sector div 18 div 2" by simp
  then have "sector div 18 = 2 * (sector div 36) + sector div 18 mod 2" by simp
  moreover have "(a * 2 + b) * 18 + (r + 1) - 1 = sector" if "y = 2 * a + b" "18 * y + r = sector" for a b r y
    using that by simp
  ultimately have "(sector div 36 * 2 + sector div 18 mod 2) * 18 + (sector mod 18 + 1) - 1 = sector"
    using mult_div_mod_eq [of 18 sector] by metis
  then show "bios_of disk (of_nat (sector div 36)) (of_nat (sector div 18 mod 2)) (of_nat (sector mod 18 + 1)) (of_nat count) =
      concat (map disk [sector..<sector + count])"
    unfolding bios_of_def u [OF n(1)] u [OF n(2)] u [OF n(3)] u [OF n(4)] Let_def by simp
qed (use assms in simp)

lemma sample_floppy_bios: "floppy_bios (bios_of (sample_floppy l k)) (sample_floppy l k)"
  by (rule bios_of_floppy) (simp add: sample_floppy_def)

lemma sample_files:
  "find_file (sample_floppy l k) LoaderName = Some 0" "first_cluster (dir_entry (sample_floppy l k) 0) = 2"
  "find_file (sample_floppy l k) KernelName = Some 1" "first_cluster (dir_entry (sample_floppy l k) 1) = 3"
  "fat_chain (sample_floppy l k) [2]" "fat_chain (sample_floppy l k) [3]"
  "file_bytes (sample_floppy l k) [2] = sector_of l" "file_bytes (sample_floppy l k) [3] = sector_of k"
proof -
  have e: "dir_entry (sample_floppy l k) 0 = LoaderName @ replicate 15 0 @ [2, 0, 0, 0, 0, 0]"
    "dir_entry (sample_floppy l k) 1 = KernelName @ replicate 15 0 @ [3, 0, 0, 0, 0, 0]"
    by code_simp+
  have u: "[0..<224] = 0 # 1 # [2..<224]" by (simp add: upt_conv_Cons)
  have f: "find P [0..<224] = (if P 0 then Some 0 else if P 1 then Some 1 else find P [2..<224])" for P :: "nat \<Rightarrow> bool"
    unfolding u by simp
  show "find_file (sample_floppy l k) LoaderName = Some 0" "find_file (sample_floppy l k) KernelName = Some 1"
    unfolding find_file_def f e by (simp_all add: LoaderName_def KernelName_def chars_def)
  show "first_cluster (dir_entry (sample_floppy l k) 0) = 2" "first_cluster (dir_entry (sample_floppy l k) 1) = 3"
    unfolding e by code_simp+
  have "fat_bytes (sample_floppy l k) ! j = [0xf0, 0xff, 0xff, 0xff, 0xff, 0xff] ! j" if "j < 6" for j
    using fat_bytes_nth [OF sample_floppy_bios, of j l k] that
    by (simp add: sample_floppy_def sector_of_nth)
  from this [of 3] this [of 4] this [of 5]
  show "fat_chain (sample_floppy l k) [2]" "fat_chain (sample_floppy l k) [3]"
    by (simp_all add: fat_entry_def)
  show "file_bytes (sample_floppy l k) [2] = sector_of l" "file_bytes (sample_floppy l k) [3] = sector_of k"
    by (simp_all add: file_bytes_def sample_floppy_def)
qed

section \<open>Properties\<close>

text \<open>
  C18. The boot code loads a file: when the first entry with the name leads to a chain of clusters on
  the disk that ends with \<open>0xfff\<close> and fits into the segment, the bytes of the clusters stand in
  memory from the load address on, in the order of the chain, the success message is shown, and
  nothing else has changed but the two sectors of the table below. Reads may fail any number of times
  as long as 14 reads and two for each cluster succeed.
\<close>

theorem load_program_loads_file:
  assumes "floppy_bios bios disk" and "length name = 11" and "find_file disk name = Some i"
    and "fat_chain disk cs" and "hd cs = first_cluster (dir_entry disk i)" and "\<forall>c\<in>set cs. c + 31 < 2880"
    and "256 \<le> b" "b < 65536" and "32 * q + 512 < 65536" and "32 * q + 512 * length cs \<le> 65536"
    and "14 + 2 * length cs \<le> successes (carries s)"
  shows "\<exists>s'. load_program bios name (of_nat b) (of_nat (32 * q)) s = Inr (Loaded s') \<and> shown s' = shown s @ [1] \<and>
    (\<forall>j<512 * length cs. r_mem s' (of_nat (16 * b + 32 * q + j)) = file_bytes disk cs ! j) \<and>
    (\<forall>x. (unat x < 16 * b - 4096 \<or> 16 * b - 3072 \<le> unat x) \<and>
         (unat x < 16 * b + 32 * q \<or> 16 * b + 32 * q + 512 * length cs \<le> unat x) \<longrightarrow> r_mem s' x = r_mem s x)"
proof -
  obtain s' where s': "load_program bios name (of_nat b) (of_nat (32 * q)) s = Inr (Loaded s')" "shown s' = shown s @ [1]"
    "loaded_at b (32 * q) (file_bytes disk cs) (r_mem s) (r_mem s')"
    using load_program_result [OF assms] by blast
  have len: "length (file_bytes disk cs) = 512 * length cs" using file_bytes_length [OF assms(1,6)] .
  then have "r_mem s' (of_nat (16 * b + 32 * q + j)) = file_bytes disk cs ! j" if "j < 512 * length cs" for j
    using loaded_at_bytes [OF s'(3) assms(8)] assms(10) that by simp
  then show ?thesis using s' len unfolding loaded_at_def by auto
qed

lemma load_program_loads_file_witness:
  "\<exists>s'. boot_sector (bios_of (sample_floppy [1] [2])) \<lparr>r_mem = (\<lambda>_. 0), carries = replicate 20 False, shown = []\<rparr>
        = Inr (Loaded s') \<and>
     shown s' = [0, 1] \<and> r_mem s' 0x90100 = 1"
proof -
  let ?d = "sample_floppy [1] [2]" and ?s = "\<lparr>r_mem = (\<lambda>_. 0), carries = replicate 20 False, shown = [0]\<rparr>"
  have name: "length LoaderName = 11" by (simp add: LoaderName_def chars_def)
  obtain s' where s': "load_program (bios_of ?d) LoaderName (of_nat 0x9000) (of_nat (32 * 8)) ?s = Inr (Loaded s')"
    "shown s' = shown ?s @ [1]" "\<forall>j<512 * length [2::nat]. r_mem s' (of_nat (16 * 0x9000 + 32 * 8 + j)) = file_bytes ?d [2] ! j"
    using load_program_loads_file [where b = "0x9000" and q = 8 and s = ?s, OF sample_floppy_bios name sample_files(1,5) [of "[1]" "[2]"]]
      sample_files(2) [of "[1]" "[2]"]
    by (auto simp: successes_def)
  then show ?thesis
    using s'(3) [rule_format, of 0] sample_files(7) [of "[1]" "[2]"] by (intro exI [of _ s']) (simp add: sector_of_nth boot_sector_def ShowMsg_def)
qed

text \<open>
  The boot code finds a file exactly when the root directory has an entry with its name: if not,
  it has looked at all 224 entries, shows the failure message and spins, and has changed only the
  buffer for the directory.
\<close>

theorem load_program_no_file:
  assumes "floppy_bios bios disk" and "length name = 11" and "b < 65536" and "32 * q + 512 < 65536"
    and "14 \<le> successes (carries s)"
  shows "find_file disk name = None \<longleftrightarrow>
      (\<exists>s'. load_program bios name (of_nat b) (of_nat (32 * q)) s = Inr (No_file s') \<and> shown s' = shown s @ [2] \<and>
        (\<forall>x. \<not> (16 * b + 32 * q \<le> unat x \<and> unat x < 16 * b + 32 * q + 512) \<longrightarrow> r_mem s' x = r_mem s x))"
proof -
  obtain s1 where s1: "search_root RootDirSectors SecNoOfRootDir bios name (of_nat b) (of_nat (32 * q)) s =
      Inr (map_option (\<lambda>i. of_nat (32 * (q + i mod 16))) (find_file disk name), s1)" "shown s1 = shown s"
    "\<forall>x. \<not> (16 * b + 32 * q \<le> unat x \<and> unat x < 16 * b + 32 * q + 512) \<longrightarrow> r_mem s1 x = r_mem s x"
    using search_whole_root [OF assms] by blast
  show ?thesis
  proof (cases "find_file disk name")
    case None
    then show ?thesis using s1 by (simp add: load_program_def ShowMsg_def)
  next
    case (Some i)
    have "load_program bios name (of_nat b) (of_nat (32 * q)) s \<noteq> Inr (No_file s')" for s'
      unfolding load_program_def s1(1) Some by (simp add: andThen_Inr_iff Let_def)
    then show ?thesis using Some by simp
  qed
qed

lemma load_program_no_file_witness:
  "\<exists>s'. load_kernel_file (bios_of (\<lambda>_. sector_of [])) \<lparr>r_mem = (\<lambda>_. 0), carries = replicate 14 False, shown = []\<rparr> = Inr (No_file s') \<and> shown s' = [2]"
proof -
  let ?d = "\<lambda>_ :: nat. sector_of []" and ?s = "\<lparr>r_mem = (\<lambda>_. 0), carries = replicate 14 False, shown = []\<rparr>"
  have fl: "floppy_bios (bios_of ?d) ?d" by (rule bios_of_floppy) simp
  have name: "length KernelName = 11" by (simp add: KernelName_def chars_def)
  have "take 11 (dir_entry ?d i) \<noteq> KernelName" for i
  proof -
    have "dir_entry ?d i ! 0 = 0"
      by (simp add: dir_entry_def sector_of_def)
    then have "take 11 (dir_entry ?d i) ! 0 \<noteq> KernelName ! 0" by (simp add: KernelName_def chars_def)
    then show ?thesis by metis
  qed
  then have "find_file ?d KernelName = None" by (simp add: find_file_def find_None_iff)
  then show ?thesis
    using load_program_no_file [where b = "0x8000" and q = 0 and s = ?s, OF fl name]
    by (auto simp: successes_def load_kernel_file_def)
qed

end
