(* ===== verification/Loader.thy ===== *)
theory Loader
  imports Floppy
begin

text \<open>
  The rest of \<open>boot/loader.s\<close>: the memory map the BIOS reports, the switch to protected mode, the
  report of the memory on the screen with the memory's size (\<open>ShowMemInfo\<close>), the page tables
  (\<open>SetupPageMechanism\<close>) and the copy of the kernel from its ELF file to the addresses it is linked
  at (\<open>InitKernel\<close>), with all of it put together in \<open>loader_program\<close>. The theorems say that the map is
  shown and its top is the size, that paging maps every address of the memory to itself, that a
  kernel of one segment is copied as its header says, and that the whole loader takes the segment
  from the floppy to its place.
\<close>

section \<open>State\<close>

text \<open>
  The byte memory, with the loader's texts and buffer at their labels; its numeric variables; the
  text screen; the control registers. \<open>label\<close> gives a label's offset in the loader's segment, and
  \<open>pm_addr\<close> its address in protected mode.
\<close>

record loader =
  l_mem :: mem
  MCRNumber :: u32
  BaseAddrLow :: u32
  LengthLow :: u32
  ARDType :: u32
  MemSize :: u32
  PageTblCnt :: u32
  ColCount :: u8
  l_video :: "u32 \<Rightarrow> u8"
  cr0 :: u32
  cr3 :: u32

type_synonym labels = "string \<Rightarrow> u16"

abbreviation (input) BaseOfLoaderPhyAddr :: addr where "BaseOfLoaderPhyAddr \<equiv> 0x90000"
abbreviation (input) BaseOfKernelPhyAddr :: addr where "BaseOfKernelPhyAddr \<equiv> 0x80000"
abbreviation (input) PageDirBase :: addr where "PageDirBase \<equiv> 0x100000"
abbreviation (input) PageTblBase :: addr where "PageTblBase \<equiv> 0x101000"
abbreviation (input) PG_P :: u32 where "PG_P \<equiv> 1"
abbreviation (input) PG_RWW :: u32 where "PG_RWW \<equiv> 2"
abbreviation (input) PG_USU :: u32 where "PG_USU \<equiv> 4"

definition pm_addr :: "labels \<Rightarrow> string \<Rightarrow> addr" where
  "pm_addr label l = ucast (label l) + BaseOfLoaderPhyAddr"

text \<open>The instruction \<open>loop\<close>, or \<open>dec\<close> and \<open>jnz\<close>, at the end of a body: with 0 it starts at \<open>2 ^ 32\<close>.\<close>

definition loop_count :: "u32 \<Rightarrow> nat" where
  "loop_count ecx = (if ecx = 0 then 4294967296 else unat ecx)"

text \<open>
  The labels from \<open>_MemChkBuf\<close> on and what the file puts there, one after the other: \<open>b\<close> is the offset
  of the first.
\<close>

definition loader_data :: "(string \<times> u8 list) list" where
  "loader_data =
     [(''_MemChkBuf'', replicate 256 0),
      (''_PMMsg'', chars ''Switch to Protected mode success.'' @ [0]),
      (''_LDTMsg'', chars ''Jump to LDT segment success.'' @ [0]),
      (''_MemInfoMsg'', chars ''BaseAddrL   BaseAddrH   LengthLow   LengthHigh  Type'' @ [0]),
      (''_MemDataMsg'', chars ''00000000    00000000    00000000    00000000    00000000'' @ [0]),
      (''_MemSizeMsg'', chars ''RAM size:   00000000'' @ [0]),
      (''_InterruptMsg'', chars ''Open 8295A interrupt.'' @ [0]),
      (''_PageMechanicMsg'', chars ''Enable Page Mechanic.'' @ [0])]"

fun data_offset :: "string \<Rightarrow> (string \<times> u8 list) list \<Rightarrow> nat" where
  "data_offset l [] = 0"
| "data_offset l ((l', xs) # ds) = (if l = l' then 0 else length xs + data_offset l ds)"

definition label_of :: "nat \<Rightarrow> labels" where
  "label_of b l = of_nat (b + data_offset l loader_data)"

section \<open>The memory map\<close>

text \<open>
  \<open>int 0x15\<close> with \<open>0xe820\<close>, as a function of the continuation value in \<open>ebx\<close>: the carry flag, or the
  20 bytes of an entry and the next value. The entries go to \<open>es:di\<close> from \<open>_MemChkBuf\<close> on.
\<close>

type_synonym e820 = "u32 \<Rightarrow> (u8 list \<times> u32) option"

partial_function (option) get_mem_info_loop :: "e820 \<Rightarrow> u32 \<Rightarrow> u16 \<Rightarrow> loader \<Rightarrow> loader option" where
  "get_mem_info_loop bios ebx di s =
     (case bios ebx of
        None \<Rightarrow> Some (s\<lparr>MCRNumber := 0\<rparr>)
      | Some (entry, ebx) \<Rightarrow>
          (let s = s\<lparr>l_mem := put_bytes (linear BaseOfLoader di) 0 entry (l_mem s), MCRNumber := MCRNumber s + 1\<rparr>
           in if ebx \<noteq> 0 then get_mem_info_loop bios ebx (di + 20) s else Some s))"

definition get_mem_info :: "labels \<Rightarrow> e820 \<Rightarrow> loader \<Rightarrow> loader option" where
  "get_mem_info label bios s = get_mem_info_loop bios 0 (label ''_MemChkBuf'') s"

section \<open>Messages in protected mode\<close>

text \<open>A text up to its zero byte, white on black, at the start of the row \<open>ColCount\<close>.\<close>

partial_function (option) show_msg_cells :: "mem \<Rightarrow> addr \<Rightarrow> u32 \<Rightarrow> (u32 \<Rightarrow> u8) \<Rightarrow> (u32 \<Rightarrow> u8) option" where
  "show_msg_cells m esi edi v =
     (if m esi = 0 then Some v else show_msg_cells m (esi + 1) (edi + 2) (v(edi := m esi, edi + 1 := 7)))"

definition msg_label :: "u8 \<Rightarrow> string" where
  "msg_label al =
     (if al = 0 then ''_PMMsg'' else if al = 1 then ''_LDTMsg'' else if al = 2 then ''_MemInfoMsg''
      else if al = 3 then ''_MemDataMsg'' else if al = 4 then ''_MemSizeMsg'' else if al = 5 then ''_InterruptMsg''
      else if al = 6 then ''_PageMechanicMsg'' else ''_ErrorMsg'')"

definition ShowMsgInProtectedMode :: "labels \<Rightarrow> u8 \<Rightarrow> loader \<Rightarrow> stop + loader" where
  "ShowMsgInProtectedMode label al s =
     andThen (returns (show_msg_cells (l_mem s) (pm_addr label (msg_label al)) (ucast (ColCount s) * 160) (l_video s)))
       (\<lambda>v. Inr (s\<lparr>l_video := v, ColCount := ColCount s + 1\<rparr>))"

section \<open>The report of the memory\<close>

definition ascii_digit :: "u8 \<Rightarrow> u8" where
  "ascii_digit al = (if al < 0xa then al + 0x30 else al + 0x37)"

definition ALtoAscii :: "u8 \<Rightarrow> u16" where
  "ALtoAscii al =
     push_bit 8 (ucast (ascii_digit (drop_bit 4 al AND 0xf))) OR ucast (ascii_digit (al AND 0xf))"

text \<open>The loop \<open>x_2\<close>: the byte of \<open>eax\<close> the counter selects, as two digits.\<close>

primrec show_dword :: "nat \<Rightarrow> u32 \<Rightarrow> addr \<Rightarrow> mem \<Rightarrow> mem" where
  "show_dword 0 eax edi m = m"
| "show_dword (Suc n) eax edi m =
     (let ax = ALtoAscii (ucast (drop_bit (8 * n) eax))
      in show_dword n eax (edi + 2) (m(edi := ucast (drop_bit 8 ax), edi + 1 := ucast ax)))"

definition SetMemData :: "u32 \<Rightarrow> nat \<Rightarrow> loader \<Rightarrow> loader" where
  "SetMemData eax edx s =
     (if edx = 5 then s\<lparr>BaseAddrLow := eax\<rparr>
      else if edx = 3 then s\<lparr>LengthLow := eax\<rparr>
      else if edx = 1 then s\<lparr>ARDType := eax\<rparr>
      else s)"

text \<open>The loop \<open>x_1\<close> over the five numbers of an entry.\<close>

primrec show_entry :: "nat \<Rightarrow> addr \<Rightarrow> addr \<Rightarrow> loader \<Rightarrow> loader" where
  "show_entry 0 esi edi s = s"
| "show_entry (Suc n) esi edi s =
     (let eax = load32 (l_mem s) esi; s = SetMemData eax (Suc n) s
      in show_entry n (esi + 4) (edi + 12) (s\<lparr>l_mem := show_dword 4 eax edi (l_mem s)\<rparr>))"

definition CalculateMemSize :: "loader \<Rightarrow> loader" where
  "CalculateMemSize s =
     (if ARDType s \<noteq> 1 then s
      else let eax = BaseAddrLow s + LengthLow s in if eax < MemSize s then s else s\<lparr>MemSize := eax\<rparr>)"

text \<open>The loop \<open>mem_info\<close>, with the number of its rounds.\<close>

primrec mem_info :: "nat \<Rightarrow> labels \<Rightarrow> addr \<Rightarrow> loader \<Rightarrow> stop + loader" where
  "mem_info 0 label esi s = Inr s"
| "mem_info (Suc n) label esi s =
     andThen (ShowMsgInProtectedMode label 3 (show_entry 5 esi (pm_addr label ''_MemDataMsg'') s))
       (\<lambda>s. mem_info n label (esi + 20) (CalculateMemSize s))"

definition ShowMemInfo :: "labels \<Rightarrow> loader \<Rightarrow> stop + loader" where
  "ShowMemInfo label s =
     andThen (ShowMsgInProtectedMode label 2 s)
       (\<lambda>s. mem_info (loop_count (MCRNumber s)) label (pm_addr label ''_MemChkBuf'') s)"

section \<open>Paging\<close>

text \<open>The loops \<open>init_dir\<close> and \<open>init_tbl\<close>: one entry per round, for the next 4 kB.\<close>

primrec init_tbl :: "nat \<Rightarrow> addr \<Rightarrow> u32 \<Rightarrow> mem \<Rightarrow> mem" where
  "init_tbl 0 edi eax m = m"
| "init_tbl (Suc n) edi eax m = init_tbl n (edi + 4) (eax + 4096) (store32 edi eax m)"

definition page_table_count :: "u32 \<Rightarrow> u32" where
  "page_table_count sz = sz div 0x400000 + (if sz mod 0x400000 = 0 then 0 else 1)"

definition SetupPageMechanism :: "labels \<Rightarrow> loader \<Rightarrow> stop + loader" where
  "SetupPageMechanism label s =
     andThen (ShowMsgInProtectedMode label 6 s) (\<lambda>s.
       let cnt = page_table_count (MemSize s);
           m = init_tbl (loop_count cnt) PageDirBase (PageTblBase OR PG_P OR PG_USU OR PG_RWW) (l_mem s);
           m = init_tbl (loop_count (cnt * 1024)) PageTblBase (PG_P OR PG_USU OR PG_RWW) m
       in Inr (s\<lparr>PageTblCnt := cnt, l_mem := m, cr3 := PageDirBase, cr0 := cr0 s OR 0x80000000\<rparr>))"

section \<open>The kernel\<close>

definition MemCpy :: "addr \<Rightarrow> addr \<Rightarrow> u32 \<Rightarrow> mem \<Rightarrow> mem" where
  "MemCpy dest src sz m = memcpy_loop (unat sz) dest src m"

text \<open>The loop \<open>init_kernel_begin\<close>, with the number of its rounds.\<close>

primrec init_kernel_loop :: "nat \<Rightarrow> addr \<Rightarrow> mem \<Rightarrow> mem" where
  "init_kernel_loop 0 esi m = m"
| "init_kernel_loop (Suc n) esi m =
     init_kernel_loop n (esi + 20)
       (if load32 m esi = 0 then m
        else MemCpy (load32 m (esi + 8)) (load32 m (esi + 4) + BaseOfKernelPhyAddr) (load32 m (esi + 0x10)) m)"

definition InitKernel :: "mem \<Rightarrow> mem" where
  "InitKernel m =
     init_kernel_loop (loop_count (load16 m (BaseOfKernelPhyAddr + 0x2c)))
       (load32 m (BaseOfKernelPhyAddr + 0x1c) + BaseOfKernelPhyAddr) m"

section \<open>The loader as a whole\<close>

text \<open>Up to the jump to \<open>KernelEntryPhyAddr\<close>.\<close>

definition LABEL_PM_BEGIN :: "labels \<Rightarrow> loader \<Rightarrow> stop + loader" where
  "LABEL_PM_BEGIN label s =
     andThen (ShowMsgInProtectedMode label 0 s) (\<lambda>s.
     andThen (ShowMemInfo label s) (\<lambda>s.
     andThen (SetupPageMechanism label s) (\<lambda>s.
       Inr (s\<lparr>l_mem := InitKernel (l_mem s)\<rparr>))))"

text \<open>
  From \<open>LABEL_BEGIN\<close>: \<open>cs\<close> are the carry flags of the coming reads. Without the kernel file the code
  spins; with it one message has been shown, and the bit \<open>PE\<close> is set before the jump.
\<close>

definition loader_program :: "labels \<Rightarrow> e820 \<Rightarrow> bios \<Rightarrow> bool list \<Rightarrow> loader \<Rightarrow> stop + loader" where
  "loader_program label mem_bios disk_bios cs s =
     andThen (returns (get_mem_info label mem_bios s)) (\<lambda>s.
     andThen (load_kernel_file disk_bios \<lparr>r_mem = l_mem s, carries = cs, shown = []\<rparr>) (\<lambda>r.
       case r of
         No_file r \<Rightarrow> Inl No_return
       | Loaded r \<Rightarrow> LABEL_PM_BEGIN label
           (s\<lparr>l_mem := r_mem r, ColCount := ColCount s + of_nat (length (shown r)), cr0 := cr0 s OR 1\<rparr>)))"

section \<open>Rows of the screen\<close>

definition show_row :: "u8 list \<Rightarrow> loader \<Rightarrow> loader" where
  "show_row xs s = s\<lparr>l_video := put_bytes (ucast (ColCount s) * 160) 0 (text_cells 7 xs) (l_video s),
     ColCount := ColCount s + 1\<rparr>"

lemma show_msg_cells_cstring:
  "cstring m a xs \<Longrightarrow> 2 * length xs < 4294967296 \<Longrightarrow>
     show_msg_cells m a p v = Some (put_bytes p 0 (text_cells 7 xs) v)"
proof (induction xs arbitrary: a p v)
  case Nil
  then show ?case by (simp add: show_msg_cells.simps text_cells_simps)
next
  case (Cons x xs)
  have two: "v(p := x, p + 1 := 7) = put_bytes p 0 (text_cells 7 [x]) v"
    using put_bytes_Cons [of 0 p "[7]" v x] put_bytes_Cons [of 1 p "[]" "v(p := x)" 7] by (simp add: text_cells_simps)
  have "put_bytes (p + 2) 0 (text_cells 7 xs) (put_bytes p 0 (text_cells 7 [x]) v) = put_bytes p 0 (text_cells 7 (x # xs)) v"
    using put_bytes_put_bytes [of "text_cells 7 [x]" "text_cells 7 xs" p v] Cons.prems(2) by (simp add: text_cells_simps)
  then show ?case
    using Cons.IH [of "a + 1" "p + 2" "put_bytes p 0 (text_cells 7 [x]) v"] Cons.prems
    by (subst show_msg_cells.simps) (simp add: two)
qed

lemma ShowMsg_row:
  assumes "cstring (l_mem s) (pm_addr label (msg_label al)) xs" and "length xs \<le> 80"
  shows "ShowMsgInProtectedMode label al s = Inr (show_row xs s)"
  using assms show_msg_cells_cstring [OF assms(1)] by (simp add: ShowMsgInProtectedMode_def show_row_def)

lemma show_row_fields [simp]:
  "l_mem (show_row xs s) = l_mem s" "MCRNumber (show_row xs s) = MCRNumber s" "MemSize (show_row xs s) = MemSize s"
  "BaseAddrLow (show_row xs s) = BaseAddrLow s" "LengthLow (show_row xs s) = LengthLow s"
  "ARDType (show_row xs s) = ARDType s" "ColCount (show_row xs s) = ColCount s + 1"
  by (simp_all add: show_row_def)

section \<open>Page tables\<close>

lemma init_tbl_frame:
  "n < 1073741824 \<Longrightarrow> \<not> in_block x edi (4 * n) \<Longrightarrow> init_tbl n edi eax m x = m x"
proof (induction n arbitrary: edi eax m)
  case (Suc n)
  have x: "4 * n + 4 \<le> unat (x - edi)" using Suc.prems(2) by (simp add: in_block_def)
  have e: "x - (edi + 4) = (x - edi) - of_nat 4" by simp
  have "unat (x - (edi + 4)) = unat (x - edi) - 4" unfolding e using x by (intro unat_diff_nat) simp
  then have "\<not> in_block x (edi + 4) (4 * n)" using x by (simp add: in_block_def)
  moreover have "\<not> in_block x edi 4" using x by (simp add: in_block_def)
  ultimately show ?case using Suc.IH [of "edi + 4"] Suc.prems(1) by (simp add: store32_frame)
qed simp

lemma init_tbl_entry:
  "n < 1073741824 \<Longrightarrow> i < n \<Longrightarrow> load32 (init_tbl n edi eax m) (edi + 4 * of_nat i) = eax + 4096 * of_nat i"
proof (induction n arbitrary: edi eax m i)
  case (Suc n)
  show ?case
  proof (cases i)
    case 0
    have "init_tbl n (edi + 4) (eax + 4096) (store32 edi eax m) (edi + of_nat j) = store32 edi eax m (edi + of_nat j)"
      if "j < 4" for j
    proof (rule init_tbl_frame)
      have "edi + of_nat j - (edi + 4) = of_nat (4294967292 + j)" by simp
      then have "unat (edi + of_nat j - (edi + 4)) = 4294967292 + j" using that by (simp only: unat_of_nat_u32)
      then show "\<not> in_block (edi + of_nat j) (edi + 4) (4 * n)" using Suc.prems(1) by (simp add: in_block_def)
    qed (use Suc.prems in simp)
    then have "load32 (init_tbl n (edi + 4) (eax + 4096) (store32 edi eax m)) edi = load32 (store32 edi eax m) edi"
      by (intro load32_cong) simp
    then show ?thesis using 0 by simp
  next
    case (Suc k)
    then show ?thesis using Suc.IH [of k "edi + 4" "eax + 4096" "store32 edi eax m"] Suc.prems
      by (simp add: algebra_simps)
  qed
qed simp

lemma page_table_count_bounds:
  "unat (page_table_count sz) \<le> 1024" "unat sz \<le> unat (page_table_count sz) * 4194304"
  "sz \<noteq> 0 \<Longrightarrow> unat (page_table_count sz) = Suc ((unat sz - 1) div 4194304)"
proof -
  define q r where "q = unat sz div 4194304" and "r = unat sz mod 4194304"
  have sz: "unat sz = q * 4194304 + r" "r < 4194304" by (simp_all add: q_def r_def)
  have q: "q < 1024" using unat_u32_less [of sz] sz by linarith
  have "sz mod 0x400000 = 0 \<longleftrightarrow> r = 0" by (simp add: word_unat_eq_iff unat_mod r_def)
  moreover have "sz div 0x400000 = of_nat q" by (simp add: word_arith_nat_div q_def)
  ultimately have "page_table_count sz = of_nat (q + (if r = 0 then 0 else 1))" by (simp add: page_table_count_def)
  moreover have "q + (if r = 0 then 0 else 1) < 4294967296" using q by simp
  ultimately have u: "unat (page_table_count sz) = q + (if r = 0 then 0 else 1)" by (simp only: unat_of_nat_u32)
  show "unat (page_table_count sz) \<le> 1024" unfolding u using q by simp
  show "unat sz \<le> unat (page_table_count sz) * 4194304" unfolding u using sz by auto
  show "sz \<noteq> 0 \<Longrightarrow> unat (page_table_count sz) = Suc ((unat sz - 1) div 4194304)"
  proof (cases "r = 0")
    case True
    assume "sz \<noteq> 0"
    then have "0 < q" using sz True by (cases q) (simp_all add: unat_eq_zero)
    then obtain p where p: "q = Suc p" by (cases q) simp_all
    then have "unat sz - 1 = p * 4194304 + 4194303" using sz True by simp
    then show ?thesis unfolding u using True p by simp
  next
    case False
    then have "unat sz - 1 = q * 4194304 + (r - 1)" using sz by simp
    then show ?thesis unfolding u using False sz(2) by simp
  qed
qed

text \<open>
  What the processor does with a linear address: the upper ten bits select the entry of the directory
  at \<open>cr3\<close>, the next ten the entry of the page table, when both are present.
\<close>

definition translate :: "mem \<Rightarrow> u32 \<Rightarrow> addr \<Rightarrow> addr option" where
  "translate m dir a =
     (let pde = load32 m ((dir AND 0xfffff000) + 4 * drop_bit 22 a);
          pte = load32 m ((pde AND 0xfffff000) + 4 * (drop_bit 12 a AND 0x3ff))
      in if bit pde 0 \<and> bit pte 0 then Some ((pte AND 0xfffff000) OR (a AND 0xfff)) else None)"

lemma entry_parts:
  fixes w :: u32
  shows "(4096 * w + 7) AND 0xfffff000 = 4096 * w" and "bit (4096 * w + 7) 0"
proof -
  have p: "4096 * w = push_bit 12 w" by (simp add: push_bit_eq_mult)
  have m: "(7 :: u32) = mask 3" "(0xfffff000 :: u32) = NOT (mask 12)" by (simp_all add: mask_eq_exp_minus_1)
  have "push_bit 12 w + mask 3 = push_bit 12 w OR mask 3"
    by (rule disjunctive_add) (auto simp: bit_simps)
  then have e: "4096 * w + 7 = push_bit 12 w OR mask 3" by (simp add: p m)
  show "(4096 * w + 7) AND 0xfffff000 = 4096 * w"
    unfolding e unfolding p m(2) by (rule bit_word_eqI) (auto simp: bit_simps)
  show "bit (4096 * w + 7) 0" unfolding e by (simp add: bit_simps)
qed

lemma page_parts:
  fixes a :: addr
  shows "4096 * drop_bit 12 a OR (a AND 0xfff) = a"
    and "unat (drop_bit 22 a) * 1024 + unat (drop_bit 12 a AND 0x3ff) = unat (drop_bit 12 a)"
proof -
  have m: "(0xfff :: u32) = mask 12" "(0x3ff :: u32) = mask 10" by (simp_all add: mask_eq_exp_minus_1)
  have p: "4096 * drop_bit 12 a = push_bit 12 (drop_bit 12 a)" by (simp add: push_bit_eq_mult)
  show "4096 * drop_bit 12 a OR (a AND 0xfff) = a"
    unfolding p m(1) by (rule bit_word_eqI) (auto simp: bit_simps)
  have "unat (drop_bit 12 a AND mask 10) = unat (drop_bit 12 a) mod 1024"
    by (simp flip: take_bit_eq_mask add: unsigned_take_bit_eq) (simp add: take_bit_eq_mod)
  moreover have "unat (drop_bit 22 a) = unat (drop_bit 12 a) div 1024"
    by (simp add: drop_bit_eq_div unat_div div_mult2_eq [symmetric])
  ultimately have d: "unat (drop_bit 22 a) = unat (drop_bit 12 a) div 1024"
    "unat (drop_bit 12 a AND 0x3ff) = unat (drop_bit 12 a) mod 1024"
    unfolding m(2) by simp_all
  show "unat (drop_bit 22 a) * 1024 + unat (drop_bit 12 a AND 0x3ff) = unat (drop_bit 12 a)"
    unfolding d by simp
qed


text \<open>A directory and the page tables it names, as the loops fill them, map an address to itself.\<close>

definition page_map :: "nat \<Rightarrow> mem \<Rightarrow> mem" where
  "page_map cnt m = init_tbl (1024 * cnt) PageTblBase 7 (init_tbl cnt PageDirBase 0x101007 m)"

lemma page_map_frame:
  assumes "cnt \<le> 1024" and "unat x < 0x100000 \<or> 0x101000 + 4096 * cnt \<le> unat x"
  shows "page_map cnt m x = m x"
proof -
  have "\<not> in_block x PageDirBase (4 * cnt)" "\<not> in_block x PageTblBase (4 * (1024 * cnt))"
    using in_block_nat [of "0x100000" "4 * cnt" x] in_block_nat [of "0x101000" "4 * (1024 * cnt)" x] assms by auto
  then show ?thesis using assms(1) by (simp add: page_map_def init_tbl_frame)
qed

lemma page_map_translates:
  assumes "cnt \<le> 1024" and "unat a < cnt * 4194304" and "\<And>x. 0x100000 \<le> unat x \<Longrightarrow> m' x = page_map cnt m x"
  shows "translate m' PageDirBase a = Some a"
proof -
  let ?p = "unat (drop_bit 22 a)" and ?k = "unat (drop_bit 12 a)" and ?t = "drop_bit 12 a AND 0x3ff"
  have "?p = unat a div 4194304" "?k = unat a div 4096" by (simp_all add: drop_bit_eq_div unat_div)
  then have less: "?p < cnt" "?k < 1024 * cnt" using assms(2) by (simp_all add: div_less_iff_less_mult)
  let ?d = "init_tbl cnt PageDirBase 0x101007 m"
  have at: "load32 m' (of_nat n) = load32 (page_map cnt m) (of_nat n)" if "0x100000 \<le> n" "n < 0x1000000" for n
  proof (rule load32_cong)
    fix i :: nat assume i: "i < 4"
    have "(of_nat n + of_nat i :: addr) = of_nat (n + i)" by simp
    moreover have "unat (of_nat (n + i) :: addr) = n + i" using that i by (intro unat_of_nat_u32) simp
    ultimately show "m' (of_nat n + of_nat i) = page_map cnt m (of_nat n + of_nat i)" using assms(3) that by simp
  qed
  have "load32 (page_map cnt m) (PageDirBase + 4 * of_nat ?p) = load32 ?d (PageDirBase + 4 * of_nat ?p)"
    unfolding page_map_def
  proof (intro load32_cong init_tbl_frame)
    fix i :: nat assume i: "i < 4"
    have e: "PageDirBase + 4 * of_nat ?p + of_nat i = (of_nat (0x100000 + 4 * ?p + i) :: addr)" by simp
    have "unat (of_nat (0x100000 + 4 * ?p + i) :: addr) = 0x100000 + 4 * ?p + i"
      using less(1) assms(1) i by (intro unat_of_nat_u32) simp
    then show "\<not> in_block (PageDirBase + 4 * of_nat ?p + of_nat i) PageTblBase (4 * (1024 * cnt))"
      unfolding e using in_block_nat [of "0x101000" "4 * (1024 * cnt)" "of_nat (0x100000 + 4 * ?p + i)"] less(1) assms(1) i by simp
  qed (use assms(1) in simp)
  also have "\<dots> = 0x101007 + 4096 * of_nat ?p" using less(1) assms(1) by (intro init_tbl_entry) simp_all
  finally have pde: "load32 m' (PageDirBase + 4 * drop_bit 22 a) = 4096 * (0x101 + drop_bit 22 a) + 7"
    using at [of "0x100000 + 4 * ?p"] less(1) assms(1) by simp
  have "load32 (page_map cnt m) (PageTblBase + 4 * of_nat ?k) = 7 + 4096 * of_nat ?k"
    unfolding page_map_def using less(2) assms(1) by (intro init_tbl_entry) simp_all
  then have pt: "load32 m' (PageTblBase + 4 * drop_bit 12 a) = 4096 * drop_bit 12 a + 7"
    using at [of "0x101000 + 4 * ?k"] less(2) assms(1) by (simp add: add.commute)
  have "4096 * (0x101 + p) + 4 * t = PageTblBase + 4 * k" if "k = p * 1024 + t" for k p t :: u32
    unfolding that by (simp add: algebra_simps)
  from this [of "drop_bit 12 a" "drop_bit 22 a" ?t]
  have "4096 * (0x101 + drop_bit 22 a) + 4 * ?t = PageTblBase + 4 * drop_bit 12 a"
    using arg_cong [OF page_parts(2) [of a], of "of_nat :: nat \<Rightarrow> u32"] by simp
  then have pte: "load32 m' (4096 * (0x101 + drop_bit 22 a) + 4 * ?t) = 4096 * drop_bit 12 a + 7"
    using pt by (simp only:)
  have "(PageDirBase AND 0xfffff000) = PageDirBase" by simp
  then show ?thesis
    unfolding translate_def Let_def by (simp only: pde pte entry_parts page_parts simp_thms if_True)
qed

lemma SetupPageMechanism_result:
  assumes "cstring (l_mem s) (pm_addr label ''_PageMechanicMsg'') xs" and "length xs \<le> 80" and "MemSize s \<noteq> 0"
  shows "\<exists>s'. SetupPageMechanism label s = Inr s' \<and> l_mem s' = page_map (unat (page_table_count (MemSize s))) (l_mem s) \<and>
    cr3 s' = PageDirBase \<and> cr0 s' = cr0 s OR 0x80000000 \<and> MemSize s' = MemSize s"
proof -
  let ?c = "page_table_count (MemSize s)"
  have c: "0 < unat ?c" "unat ?c \<le> 1024" using page_table_count_bounds [of "MemSize s"] assms(3) by simp_all
  have "unat (?c * 1024) = 1024 * unat ?c" using c(2) by (simp add: unat_word_ariths)
  moreover have "?c \<noteq> 0" "?c * 1024 \<noteq> 0" using calculation c(1) by (auto dest: arg_cong [of _ 0 unat])
  ultimately have l: "loop_count ?c = unat ?c" "loop_count (?c * 1024) = 1024 * unat ?c"
    by (simp_all add: loop_count_def)
  have o1: "PageTblBase OR PG_P OR PG_USU OR PG_RWW = 0x101007" "PG_P OR PG_USU OR PG_RWW = 7" by simp_all
  have "ShowMsgInProtectedMode label 6 s = Inr (show_row xs s)" using assms(1,2) by (intro ShowMsg_row) (simp_all add: msg_label_def)
  then show ?thesis
    by (simp add: SetupPageMechanism_def l o1 Let_def page_map_def) (simp add: show_row_def)
qed

section \<open>Numbers on the screen\<close>

text \<open>A number as eight hexadecimal digits, and an entry as its five numbers.\<close>

definition hex_digit :: "nat \<Rightarrow> u8" where
  "hex_digit d = chars ''0123456789ABCDEF'' ! d"

definition hex_digits :: "u32 \<Rightarrow> u8 list" where
  "hex_digits v = map (\<lambda>i. hex_digit (unat v div 16 ^ i mod 16)) [7, 6, 5, 4, 3, 2, 1, 0]"

definition entry_text :: "u32 list \<Rightarrow> u8 list" where
  "entry_text e = hex_digits (e ! 0) @ replicate 4 32 @ hex_digits (e ! 1) @ replicate 4 32 @ hex_digits (e ! 2) @
     replicate 4 32 @ hex_digits (e ! 3) @ replicate 4 32 @ hex_digits (e ! 4)"

lemma ascii_digit_hex:
  assumes "unat x < 16"
  shows "ascii_digit x = hex_digit (unat x)" and "ascii_digit x \<noteq> 0"
proof -
  have all: "\<forall>d\<in>set [0..<16]. ascii_digit (of_nat d) = hex_digit d \<and> ascii_digit (of_nat d) \<noteq> 0"
    by code_simp
  obtain d where d: "x = of_nat d" "unat x = d" by (rule that [of "unat x"]) simp_all
  then have "d \<in> set [0..<16]" using assms by simp
  then show "ascii_digit x = hex_digit (unat x)" "ascii_digit x \<noteq> 0" using all unfolding d(2) unfolding d(1) by blast+
qed

lemma nibble_value:
  fixes v :: u32
  shows "unat (ucast (drop_bit (4 * i) v AND 0xf) :: u8) = unat v div 16 ^ i mod 16"
proof -
  have "unat (drop_bit (4 * i) v) = unat v div 16 ^ i"
    unfolding unat_drop_bit_eq by (simp add: drop_bit_eq_div power_mult)
  moreover have "unat (w AND 0xf) = unat w mod 16" for w :: u32
  proof -
    have "w AND 0xf = take_bit 4 w" by (simp add: take_bit_eq_mask mask_eq_exp_minus_1)
    then show ?thesis by (simp add: take_bit_eq_mod unat_mod)
  qed
  ultimately have u: "unat (drop_bit (4 * i) v AND 0xf) = unat v div 16 ^ i mod 16" by simp
  have low: "unat (ucast w :: u8) = unat w mod 256" for w :: u32 by (simp add: unsigned_ucast_eq take_bit_eq_mod)
  have "unat v div 16 ^ i mod 16 < 256" by (rule order_less_trans [of _ 16]) simp_all
  then show ?thesis unfolding low u by (rule mod_less)
qed

lemma hex_digits_ascii:
  "hex_digits v = map (\<lambda>i. ascii_digit (ucast (drop_bit (4 * i) v AND 0xf))) [7, 6, 5, 4, 3, 2, 1, 0]" "0 \<notin> set (hex_digits v)"
proof -
  have d: "ascii_digit (ucast (drop_bit (4 * i) v AND 0xf)) = hex_digit (unat v div 16 ^ i mod 16)"
    "hex_digit (unat v div 16 ^ i mod 16) \<noteq> 0" for i
    using ascii_digit_hex [of "ucast (drop_bit (4 * i) v AND 0xf)"] unfolding nibble_value by simp_all
  show "hex_digits v = map (\<lambda>i. ascii_digit (ucast (drop_bit (4 * i) v AND 0xf))) [7, 6, 5, 4, 3, 2, 1, 0]"
    unfolding hex_digits_def by (simp only: list.map d(1))
  have nz: "0 \<notin> f ` A" if "\<And>i :: nat. f i \<noteq> (0 :: u8)" for f A using that by (metis imageE)
  show "0 \<notin> set (hex_digits v)" unfolding hex_digits_def set_map by (rule nz) (rule d(2))
qed

lemma length_hex_digits [simp]: "length (hex_digits v) = 8"
  by (simp add: hex_digits_def)

lemma length_entry_text [simp]: "length (entry_text e) = 56"
  by (simp add: entry_text_def)

lemma ALtoAscii_digits:
  "ucast (drop_bit 8 (ALtoAscii al)) = ascii_digit (drop_bit 4 al AND 0xf)" "ucast (ALtoAscii al) = ascii_digit (al AND 0xf)"
  unfolding ALtoAscii_def by (rule bit_word_eqI; auto simp: bit_simps dest: bit_imp_le_length)+

lemma nibbles:
  fixes v :: u32
  assumes "n < 4"
  shows "drop_bit 4 (ucast (drop_bit (8 * n) v) :: u8) AND 0xf = ucast (drop_bit (4 * (2 * n + 1)) v AND 0xf)"
    and "(ucast (drop_bit (8 * n) v) :: u8) AND 0xf = ucast (drop_bit (4 * (2 * n)) v AND 0xf)"
proof -
  have m: "(0xf :: u8) = mask 4" "(0xf :: u32) = mask 4" by (simp_all add: mask_eq_exp_minus_1)
  show "drop_bit 4 (ucast (drop_bit (8 * n) v) :: u8) AND 0xf = ucast (drop_bit (4 * (2 * n + 1)) v AND 0xf)"
    unfolding m by (rule bit_word_eqI) (auto simp: bit_simps ac_simps)
  show "(ucast (drop_bit (8 * n) v) :: u8) AND 0xf = ucast (drop_bit (4 * (2 * n)) v AND 0xf)"
    unfolding m by (rule bit_word_eqI) (auto simp: bit_simps ac_simps)
qed

lemma show_dword_put: "show_dword 4 v p m = put_bytes p 0 (hex_digits v) m"
proof -
  have two: "m(p := x, p + 1 := y) = put_bytes p 0 [x, y] m" for m p and x y :: u8
    using put_bytes_Cons [of 0 p "[y]" m x] put_bytes_Cons [of 1 p "[]" "m(p := x)" y] by simp
  have join: "put_bytes (p + of_nat (length xs)) 0 ys (put_bytes p 0 xs m) = put_bytes p 0 (xs @ ys) m"
    if "length xs + length ys \<le> 8" for xs ys :: "u8 list" and m
    using that by (intro put_bytes_put_bytes) simp_all
  have d: "ascii_digit (drop_bit 4 (ucast (drop_bit (8 * n) v)) AND 0xf) = ascii_digit (ucast (drop_bit (4 * (2 * n + 1)) v AND 0xf))"
    "ascii_digit (ucast (drop_bit (8 * n) v) AND 0xf) = ascii_digit (ucast (drop_bit (4 * (2 * n)) v AND 0xf))" if "n < 4" for n
    using nibbles [OF that] by simp_all
  define f where "f i = ascii_digit (ucast (drop_bit (4 * i) v AND 0xf))" for i
  have step: "show_dword k v p m = show_dword (k - 1) v (p + 2) (put_bytes p 0 [f (2 * k - 1), f (2 * k - 2)] m)"
    if k: "0 < k" "k \<le> 4" for k p m
  proof -
    obtain n where n: "k = Suc n" "n < 4" using k by (cases k) simp_all
    show ?thesis using d [OF n(2)] by (simp add: n(1) ALtoAscii_digits two f_def Let_def)
  qed
  have "show_dword 4 v p m = put_bytes (p + 6) 0 [f 1, f 0] (put_bytes (p + 4) 0 [f 3, f 2]
      (put_bytes (p + 2) 0 [f 5, f 4] (put_bytes p 0 [f 7, f 6] m)))"
    using step [of 4] step [of 3 "p + 2"] step [of 2 "p + 4"] step [of 1 "p + 6"]
    by (simp del: show_dword.simps(2) add: add.assoc)
  also have "\<dots> = put_bytes p 0 [f 7, f 6, f 5, f 4, f 3, f 2, f 1, f 0] m"
    using join [of "[f 7, f 6]" "[f 5, f 4]" m] join [of "[f 7, f 6, f 5, f 4]" "[f 3, f 2]" m]
      join [of "[f 7, f 6, f 5, f 4, f 3, f 2]" "[f 1, f 0]" m] by simp
  also have "[f 7, f 6, f 5, f 4, f 3, f 2, f 1, f 0] = hex_digits v" by (simp add: hex_digits_ascii f_def)
  finally show ?thesis .
qed

lemma put_bytes_offset:
  assumes "j + length xs \<le> 4294967296" and "j < 4294967296"
  shows "put_bytes (a + of_nat j) 0 xs m = put_bytes a j xs m"
proof
  fix x
  have d: "x - (a + of_nat j) = (x - a) - of_nat j" by (simp add: algebra_simps)
  have "unat (x - (a + of_nat j)) < length xs \<longleftrightarrow> j \<le> unat (x - a) \<and> unat (x - a) < j + length xs"
    unfolding d by (rule unat_diff_less_iff [OF assms])
  moreover have "unat (x - (a + of_nat j)) = unat (x - a) - j" if "j \<le> unat (x - a)"
    unfolding d by (rule unat_diff_nat [OF that])
  ultimately show "put_bytes (a + of_nat j) 0 xs m x = put_bytes a j xs m x" by (auto simp: put_bytes_def)
qed

text \<open>The five numbers of an entry in memory.\<close>

definition ard :: "mem \<Rightarrow> addr \<Rightarrow> u32 list" where
  "ard m esi = map (\<lambda>i. load32 m (esi + 4 * of_nat i)) [0..<5]"

lemma ard_nth: "i < 5 \<Longrightarrow> ard m esi ! i = load32 m (esi + 4 * of_nat i)"
  by (simp add: ard_def)

lemma ard_cong:
  assumes "\<And>i. i < 20 \<Longrightarrow> m (a + of_nat i) = m' (b + of_nat i)"
  shows "ard m a = ard m' b"
  unfolding ard_def
proof (intro map_cong refl load32_cong)
  fix k i :: nat assume k: "k \<in> set [0..<5]" and i: "i < 4"
  have e: "x + 4 * of_nat k + of_nat i = x + of_nat (4 * k + i)" for x :: addr by simp
  have "4 * k + i < 20" using k i by simp
  then show "m (a + 4 * of_nat k + of_nat i) = m' (b + 4 * of_nat k + of_nat i)" unfolding e by (rule assms)
qed

lemma entry_text_put:
  assumes "cstring m a (entry_text old)"
  shows "put_bytes a 48 (hex_digits (e ! 4)) (put_bytes a 36 (hex_digits (e ! 3)) (put_bytes a 24 (hex_digits (e ! 2))
      (put_bytes a 12 (hex_digits (e ! 1)) (put_bytes a 0 (hex_digits (e ! 0)) m)))) = put_bytes a 0 (entry_text e) m"
proof
  fix x
  define u where "u = unat (x - a)"
  have x: "x = a + of_nat u" by (simp add: u_def)
  have gap: "m x = entry_text old ! u" if "u < 56" using assms that unfolding x cstring_nth by simp
  consider "u < 8" | "8 \<le> u" "u < 12" | "12 \<le> u" "u < 20" | "20 \<le> u" "u < 24" | "24 \<le> u" "u < 32" | "32 \<le> u" "u < 36"
    | "36 \<le> u" "u < 44" | "44 \<le> u" "u < 48" | "48 \<le> u" "u < 56" | "56 \<le> u" by linarith
  then show "put_bytes a 48 (hex_digits (e ! 4)) (put_bytes a 36 (hex_digits (e ! 3)) (put_bytes a 24 (hex_digits (e ! 2))
      (put_bytes a 12 (hex_digits (e ! 1)) (put_bytes a 0 (hex_digits (e ! 0)) m)))) x = put_bytes a 0 (entry_text e) m x"
    by cases (use gap in \<open>auto simp: put_bytes_def entry_text_def nth_append simp flip: u_def\<close>)
qed

lemma show_entry_result:
  assumes "cstring (l_mem s) a (entry_text old)" and "\<And>i. i < 20 \<Longrightarrow> \<not> in_block (esi + of_nat i) a 56"
  shows "show_entry 5 esi a s =
    (let e = ard (l_mem s) esi
     in s\<lparr>BaseAddrLow := e ! 0, LengthLow := e ! 2, ARDType := e ! 4, l_mem := put_bytes a 0 (entry_text e) (l_mem s)\<rparr>)"
proof -
  let ?e = "ard (l_mem s) esi"
  have out: "put_bytes a j xs m x = m x" if "j + length xs \<le> 56" "\<not> in_block x a 56" for j m x and xs :: "u8 list"
    using that by (intro put_bytes_frame) (auto simp: in_block_def)
  have put: "show_dword 4 v (a + of_nat j) m = put_bytes a j (hex_digits v) m" if "j \<le> 48" for v j m
    using that unfolding show_dword_put by (intro put_bytes_offset) simp_all
  have keep: "load32 m (esi + 4 * of_nat k) = ?e ! k" if "k < 5" "\<forall>x. \<not> in_block x a 56 \<longrightarrow> m x = l_mem s x" for m k
    using ard_cong [of m esi "l_mem s" esi] that assms(2) by (metis ard_nth)
  define g where "g n v t = SetMemData v n t" for n v and t :: loader
  have step: "show_entry (Suc n) (esi + 4 * of_nat k) (a + of_nat (12 * k)) t = show_entry n (esi + 4 * of_nat (Suc k)) (a + of_nat (12 * Suc k))
      ((g (Suc n) (?e ! k) t)\<lparr>l_mem := put_bytes a (12 * k) (hex_digits (?e ! k)) (l_mem t)\<rparr>)"
    if "k < 5" "\<forall>x. \<not> in_block x a 56 \<longrightarrow> l_mem t x = l_mem s x" for n k t
  proof -
    have "l_mem (SetMemData v i t) = l_mem t" for v i by (simp add: SetMemData_def)
    then show ?thesis
      using keep [OF that] put [of "12 * k" "?e ! k" "l_mem t"] that(1) by (simp add: g_def Let_def algebra_simps)
  qed
  define p where "p j m = put_bytes a (12 * j) (hex_digits (?e ! j)) m" for j m
  define next_state where "next_state n k t = (g (Suc n) (?e ! k) t)\<lparr>l_mem := p k (l_mem t)\<rparr>" for n k t
  let ?i1 = "Suc 0" let ?i2 = "Suc ?i1" let ?i3 = "Suc ?i2" let ?i4 = "Suc ?i3" let ?i5 = "Suc ?i4"
  define t1 where "t1 = next_state ?i4 0 s"
  define t2 where "t2 = next_state ?i3 ?i1 t1"
  define t3 where "t3 = next_state ?i2 ?i2 t2"
  define t4 where "t4 = next_state ?i1 ?i3 t3"
  define t5 where "t5 = next_state 0 ?i4 t4"
  note t = t1_def t2_def t3_def t4_def t5_def next_state_def
  have nm: "?i2 = 2" "?i3 = 3" "?i4 = 4" "?i5 = 5" by simp_all
  have same: "p j m x = m x" if "j < 5" "\<not> in_block x a 56" for j m x using that out [of "12 * j" "hex_digits (?e ! j)"] by (simp add: p_def)
  have fr: "\<forall>x. \<not> in_block x a 56 \<longrightarrow> l_mem t1 x = l_mem s x" "\<forall>x. \<not> in_block x a 56 \<longrightarrow> l_mem t2 x = l_mem s x"
    "\<forall>x. \<not> in_block x a 56 \<longrightarrow> l_mem t3 x = l_mem s x" "\<forall>x. \<not> in_block x a 56 \<longrightarrow> l_mem t4 x = l_mem s x"
    by (simp_all add: t same)
  let ?at = "\<lambda>n k. show_entry n (esi + 4 * of_nat k) (a + of_nat (12 * k))"
  have "?at ?i5 0 s = ?at ?i4 ?i1 t1" unfolding t1_def next_state_def p_def by (rule step) simp_all
  also have "\<dots> = ?at ?i3 ?i2 t2" unfolding t2_def next_state_def p_def by (rule step [OF _ fr(1)]) simp
  also have "\<dots> = ?at ?i2 ?i3 t3" unfolding t3_def next_state_def p_def by (rule step [OF _ fr(2)]) simp
  also have "\<dots> = ?at ?i1 ?i4 t4" unfolding t4_def next_state_def p_def by (rule step [OF _ fr(3)]) simp
  also have "\<dots> = ?at 0 ?i5 t5" unfolding t5_def next_state_def p_def by (rule step [OF _ fr(4)]) simp
  finally have "?at 5 0 s = t5" unfolding nm by simp
  then have all: "show_entry 5 esi a s = t5" by simp
  have "l_mem t5 = put_bytes a 0 (entry_text ?e) (l_mem s)"
    using entry_text_put [OF assms(1), of ?e] by (simp add: t p_def nm)
  moreover have "t5 = s\<lparr>BaseAddrLow := ?e ! 0, LengthLow := ?e ! 2, ARDType := ?e ! 4, l_mem := l_mem t5\<rparr>"
    by (simp add: t g_def SetMemData_def nm)
  ultimately show ?thesis unfolding all by (simp only: Let_def)
qed

section \<open>The loop over the entries\<close>

text \<open>The entries a buffer holds, and the size the code computes from them.\<close>

definition entries :: "nat \<Rightarrow> mem \<Rightarrow> addr \<Rightarrow> u32 list list" where
  "entries n m buf = map (\<lambda>k. ard m (buf + 20 * of_nat k)) [0..<n]"

definition ram_tops :: "u32 list list \<Rightarrow> u32 set" where
  "ram_tops es = (\<lambda>e. e ! 0 + e ! 2) ` {e \<in> set es. e ! 4 = 1}"

lemma entries_Suc: "entries (Suc n) m buf = ard m buf # entries n m (buf + 20)"
  unfolding entries_def by (subst upt_conv_Cons) (simp_all add: map_Suc_upt [symmetric] algebra_simps del: upt_Suc)

lemma entries_cong:
  assumes "\<And>i. i < 20 * n \<Longrightarrow> m (buf + of_nat i) = m' (buf + of_nat i)"
  shows "entries n m buf = entries n m' buf"
  unfolding entries_def
proof (intro map_cong refl ard_cong)
  fix k i :: nat assume k: "k \<in> set [0..<n]" and i: "i < 20"
  have e: "buf + 20 * of_nat k + of_nat i = buf + of_nat (20 * k + i)" by simp
  have "20 * k + i < 20 * n" using k i by simp
  then show "m (buf + 20 * of_nat k + of_nat i) = m' (buf + 20 * of_nat k + of_nat i)" unfolding e by (rule assms)
qed

lemma ram_tops_Cons: "ram_tops (e # es) = (if e ! 4 = 1 then insert (e ! 0 + e ! 2) (ram_tops es) else ram_tops es)"
  by (auto simp: ram_tops_def)

lemma finite_ram_tops [simp]: "finite (ram_tops es)"
  by (simp add: ram_tops_def)

lemma Max_insert_max:
  fixes x y :: "'a :: linorder"
  assumes "finite A"
  shows "Max (insert (max x y) A) = Max (insert y (insert x A))"
  using assms by (cases "A = {}") (simp_all add: max.assoc max.left_commute max.commute)

lemma cstring_entry_text:
  assumes "cstring m a (entry_text old)"
  shows "cstring (put_bytes a 0 (entry_text e) m) a (entry_text e)"
proof -
  have "0 \<notin> set (entry_text e)" using hex_digits_ascii(2) by (simp add: entry_text_def)
  moreover have "m (a + 56) = 0" using assms by (simp add: cstring_nth)
  ultimately show ?thesis by (simp add: cstring_nth put_bytes_def)
qed

lemma fold_show_row_cong:
  assumes "l_video s = l_video t" and "ColCount s = ColCount t"
  shows "l_video (fold show_row xss s) = l_video (fold show_row xss t)" and "ColCount (fold show_row xss s) = ColCount (fold show_row xss t)"
proof -
  have "l_video (fold show_row xss s) = l_video (fold show_row xss t) \<and> ColCount (fold show_row xss s) = ColCount (fold show_row xss t)"
    using assms by (induction xss arbitrary: s t) (simp_all add: show_row_def)
  then show "l_video (fold show_row xss s) = l_video (fold show_row xss t)" and "ColCount (fold show_row xss s) = ColCount (fold show_row xss t)" by simp_all
qed

lemma mem_info_result:
  assumes "cstring (l_mem s) (pm_addr label ''_MemDataMsg'') (entry_text old)"
    and "\<And>i. i < 20 * n \<Longrightarrow> \<not> in_block (buf + of_nat i) (pm_addr label ''_MemDataMsg'') 56"
  shows "\<exists>s'. mem_info n label buf s = Inr s' \<and>
    (\<forall>x. \<not> in_block x (pm_addr label ''_MemDataMsg'') 56 \<longrightarrow> l_mem s' x = l_mem s x) \<and>
    MemSize s' = Max (insert (MemSize s) (ram_tops (entries n (l_mem s) buf))) \<and> cr0 s' = cr0 s \<and>
    l_video s' = l_video (fold show_row (map entry_text (entries n (l_mem s) buf)) s)"
  using assms
proof (induction n arbitrary: s buf old)
  case 0
  then show ?case by (simp add: entries_def ram_tops_def)
next
  case (Suc n)
  let ?a = "pm_addr label ''_MemDataMsg''"
  define e where "e = ard (l_mem s) buf"
  define s1 where "s1 = s\<lparr>BaseAddrLow := e ! 0, LengthLow := e ! 2, ARDType := e ! 4, l_mem := put_bytes ?a 0 (entry_text e) (l_mem s)\<rparr>"
  define s2 where "s2 = CalculateMemSize (show_row (entry_text e) s1)"
  have "show_entry 5 buf ?a s = s1"
    using show_entry_result [OF Suc.prems(1), of buf] Suc.prems(2) by (simp add: e_def s1_def Let_def)
  moreover have c: "cstring (l_mem s1) ?a (entry_text e)" unfolding s1_def using cstring_entry_text [OF Suc.prems(1)] by simp
  ultimately have run: "mem_info (Suc n) label buf s = mem_info n label (buf + 20) s2"
    using ShowMsg_row [of s1 label 3 "entry_text e"] by (simp add: msg_label_def s2_def)
  have m2: "l_mem s2 = l_mem s1" "cr0 s2 = cr0 s" by (simp_all add: s2_def CalculateMemSize_def Let_def s1_def show_row_def)
  have frame: "l_mem s1 x = l_mem s x" if "\<not> in_block x ?a 56" for x using that by (simp add: s1_def put_bytes_frame)
  have next_buf: "\<not> in_block (buf + 20 + of_nat i) ?a 56" if "i < 20 * n" for i
    using Suc.prems(2) [of "20 + i"] that by (simp add: add.assoc)
  have es: "entries n (l_mem s2) (buf + 20) = entries n (l_mem s) (buf + 20)"
    unfolding m2 by (intro entries_cong frame next_buf)
  obtain s' where s': "mem_info n label (buf + 20) s2 = Inr s'" "\<forall>x. \<not> in_block x ?a 56 \<longrightarrow> l_mem s' x = l_mem s2 x"
    "MemSize s' = Max (insert (MemSize s2) (ram_tops (entries n (l_mem s) (buf + 20))))" "cr0 s' = cr0 s2"
    "l_video s' = l_video (fold show_row (map entry_text (entries n (l_mem s) (buf + 20))) s2)"
    using Suc.IH [OF c [folded m2(1)] next_buf] unfolding es by blast
  have "MemSize s2 = (if e ! 4 = 1 then max (e ! 0 + e ! 2) (MemSize s) else MemSize s)"
    by (auto simp: s2_def CalculateMemSize_def s1_def Let_def max_def dest: order_less_imp_le)
  then have "MemSize s' = Max (insert (MemSize s) (ram_tops (e # entries n (l_mem s) (buf + 20))))"
    unfolding s'(3) ram_tops_Cons by (simp add: Max_insert_max del: Max.insert)
  moreover have "l_video s2 = l_video (show_row (entry_text e) s)" "ColCount s2 = ColCount (show_row (entry_text e) s)"
    by (simp_all add: s2_def s1_def CalculateMemSize_def Let_def show_row_def)
  ultimately show ?case
    using s' frame fold_show_row_cong(1) [of s2 "show_row (entry_text e) s"] unfolding run entries_Suc e_def [symmetric] m2 by simp
qed

text \<open>Every row stays on the screen.\<close>

lemma text_cells_char: "i < length xs \<Longrightarrow> text_cells c xs ! (2 * i) = xs ! i"
  by (induction xs arbitrary: i) (auto simp: text_cells_simps nth_Cons split: nat.splits)

lemma ColCount_fold: "ColCount (fold show_row xss s) = ColCount s + of_nat (length xss)"
  by (induction xss arbitrary: s) (simp_all add: show_row_def)

lemma rows_shown:
  assumes "\<forall>xs\<in>set xss. length xs \<le> 80" and "unat (ColCount s) + length xss \<le> 256"
    and "k < length xss" and "i < length (xss ! k)"
  shows "l_video (fold show_row xss s) (of_nat ((unat (ColCount s) + k) * 160 + 2 * i)) = xss ! k ! i"
  using assms
proof (induction xss rule: rev_induct)
  case (snoc xs xss)
  let ?t = "fold show_row xss s" and ?c = "unat (ColCount s)"
  let ?x = "of_nat ((?c + k) * 160 + 2 * i) :: u32"
  have "ColCount ?t = of_nat (?c + length xss)" by (simp add: ColCount_fold)
  moreover have "ucast (of_nat n :: u8) = (of_nat n :: u32)" if "n < 256" for n
    using that by (simp add: word_unat_eq_iff unsigned_ucast_eq unat_of_nat take_bit_nat_eq_self)
  moreover have "?c + length xss < 256" using snoc.prems(2) by simp
  ultimately have "ucast (ColCount ?t) = (of_nat (?c + length xss) :: u32)" by (simp only:)
  then have p: "ucast (ColCount ?t) * 160 = (of_nat ((?c + length xss) * 160) :: u32)" by simp
  have v: "l_video (fold show_row (xss @ [xs]) s) = put_bytes (of_nat ((?c + length xss) * 160)) 0 (text_cells 7 xs) (l_video ?t)"
    by (simp add: show_row_def [of xs] p)
  have c: "?c + length xss < 256" using snoc.prems(2) by simp
  have len: "length ((xss @ [xs]) ! k) \<le> 80" using snoc.prems(1,3) by (metis nth_mem)
  then have i: "i < 80" using snoc.prems(4) by linarith
  show ?case
  proof (cases "k < length xss")
    case True
    have "(a + k) * 160 + 2 * i < 4294967296" if "a + length xss < 256" for a using that i True by simp
    then have small: "(?c + k) * 160 + 2 * i < 4294967296" using c .
    have ux: "unat ?x = (?c + k) * 160 + 2 * i" using small by (rule unat_of_nat_u32)
    have "(a + k) * 160 + 2 * i < (a + length xss) * 160" for a using i True by simp
    then have "(?c + k) * 160 + 2 * i < (?c + length xss) * 160" .
    then have "\<not> in_block ?x (of_nat ((?c + length xss) * 160)) (length (text_cells 7 xs))"
      using in_block_nat [of "(?c + length xss) * 160" "length (text_cells 7 xs)" ?x] snoc.prems(1,2) ux by simp
    then have "l_video (fold show_row (xss @ [xs]) s) ?x = l_video ?t ?x" unfolding v by (simp add: put_bytes_frame)
    then show ?thesis using snoc.IH snoc.prems True by (simp add: nth_append)
  next
    case False
    then have k: "k = length xss" "i < length xs" using snoc.prems(3,4) by (simp_all add: nth_append)
    have "?x = of_nat ((?c + length xss) * 160) + of_nat (2 * i)" unfolding k(1) by simp
    moreover have "2 * i < 4294967296" "2 * i < length (text_cells 7 xs)" using k len by (simp_all add: nth_append)
    ultimately have "l_video (fold show_row (xss @ [xs]) s) ?x = text_cells 7 xs ! (2 * i)" unfolding v by (simp only: put_bytes_at)
    then show ?thesis using k text_cells_char by (simp add: nth_append)
  qed
qed simp

section \<open>The loader's data in memory\<close>

definition loader_image :: "nat \<Rightarrow> mem \<Rightarrow> bool" where
  "loader_image b m \<longleftrightarrow>
     (\<forall>(l, xs)\<in>set (tl loader_data). \<forall>i<length xs. m (of_nat (0x90000 + b + data_offset l loader_data + i)) = xs ! i)"

lemma offsets:
  "data_offset ''_MemChkBuf'' loader_data = 0" "data_offset ''_PMMsg'' loader_data = 256"
  "data_offset ''_MemInfoMsg'' loader_data = 319" "data_offset ''_MemDataMsg'' loader_data = 372"
  "data_offset ''_PageMechanicMsg'' loader_data = 472"
  by code_simp+

lemma pm_addr_label:
  assumes "b \<le> 60000" and "data_offset l loader_data = d" and "d < 500"
  shows "pm_addr (label_of b) l = of_nat (0x90000 + b + d)"
proof -
  have "ucast (of_nat n :: u16) = (of_nat n :: u32)" if "n < 65536" for n
    using that by (simp add: word_unat_eq_iff unsigned_ucast_eq unat_of_nat take_bit_nat_eq_self)
  from this [of "b + d"] have "ucast (label_of b l) = (of_nat (b + d) :: u32)"
    unfolding label_of_def assms(2) using assms(1,3) by simp
  then show ?thesis by (simp add: pm_addr_def)
qed

lemma pm_addrs:
  assumes "b \<le> 60000"
  shows "pm_addr (label_of b) ''_MemChkBuf'' = of_nat (0x90000 + b)" "pm_addr (label_of b) ''_PMMsg'' = of_nat (0x90100 + b)"
    "pm_addr (label_of b) ''_MemInfoMsg'' = of_nat (0x9013f + b)" "pm_addr (label_of b) ''_MemDataMsg'' = of_nat (0x90174 + b)"
    "pm_addr (label_of b) ''_PageMechanicMsg'' = of_nat (0x901d8 + b)"
  using pm_addr_label [OF assms offsets(1)] pm_addr_label [OF assms offsets(2)] pm_addr_label [OF assms offsets(3)]
    pm_addr_label [OF assms offsets(4)] pm_addr_label [OF assms offsets(5)] by (simp_all add: add.commute)

lemma image_text:
  assumes "loader_image b m" and "b \<le> 60000" and "(l, xs @ [0]) \<in> set (tl loader_data)" and "data_offset l loader_data = d"
    and "d < 500" and "0 \<notin> set xs"
  shows "cstring m (pm_addr (label_of b) l) xs"
proof -
  have at: "pm_addr (label_of b) l + of_nat i = of_nat (0x90000 + b + data_offset l loader_data + i)" for i
    unfolding pm_addr_label [OF assms(2,4,5)] using assms(4) by simp
  have "\<forall>i<length (xs @ [0]). m (of_nat (0x90000 + b + data_offset l loader_data + i)) = (xs @ [0]) ! i"
    using assms(1,3) unfolding loader_image_def by blast
  then have "m (pm_addr (label_of b) l + of_nat i) = (xs @ [0]) ! i" if "i < Suc (length xs)" for i
    unfolding at using that by simp
  then show ?thesis unfolding cstring_nth using assms(6) by (auto simp: nth_append)
qed

lemma image_texts:
  assumes "loader_image b m" and "b \<le> 60000"
  shows "\<exists>xs. cstring m (pm_addr (label_of b) ''_PMMsg'') xs \<and> length xs \<le> 80"
    and "\<exists>xs. cstring m (pm_addr (label_of b) ''_MemInfoMsg'') xs \<and> length xs \<le> 80"
    and "\<exists>xs. cstring m (pm_addr (label_of b) ''_PageMechanicMsg'') xs \<and> length xs \<le> 80"
    and "cstring m (pm_addr (label_of b) ''_MemDataMsg'') (entry_text [0, 0, 0, 0, 0])"
proof -
  have h: "hex_digit 0 = 48" "replicate 8 48 = [48, 48, 48, 48, 48, 48, 48, 48 :: u8]" by code_simp+
  have "hex_digits 0 = replicate 8 48" unfolding h(2) by (simp add: hex_digits_def h(1))
  then have "entry_text [0, 0, 0, 0, 0] = replicate 8 48 @ replicate 4 32 @ replicate 8 48 @ replicate 4 32 @ replicate 8 48 @
      replicate 4 32 @ replicate 8 48 @ replicate 4 32 @ replicate 8 48" by (simp add: entry_text_def)
  also have "\<dots> = chars ''00000000    00000000    00000000    00000000    00000000''" by code_simp
  finally have e: "entry_text [0, 0, 0, 0, 0] = chars ''00000000    00000000    00000000    00000000    00000000''" .
  let ?pm = "chars ''Switch to Protected mode success.''"
    and ?info = "chars ''BaseAddrL   BaseAddrH   LengthLow   LengthHigh  Type''" and ?page = "chars ''Enable Page Mechanic.''"
    and ?data = "chars ''00000000    00000000    00000000    00000000    00000000''"
  have nz: "0 \<notin> set ?pm" "0 \<notin> set ?info" "0 \<notin> set ?page" "0 \<notin> set ?data" by code_simp+
  have len: "length ?pm \<le> 80" "length ?info \<le> 80" "length ?page \<le> 80" by code_simp+
  have mem: "(''_PMMsg'', ?pm @ [0]) \<in> set (tl loader_data)" "(''_MemInfoMsg'', ?info @ [0]) \<in> set (tl loader_data)"
    "(''_PageMechanicMsg'', ?page @ [0]) \<in> set (tl loader_data)" "(''_MemDataMsg'', ?data @ [0]) \<in> set (tl loader_data)"
    unfolding loader_data_def list.sel list.set by (intro insertI1 insertI2)+
  have d: "(256 :: nat) < 500" "(319 :: nat) < 500" "(372 :: nat) < 500" "(472 :: nat) < 500" by simp_all
  show "\<exists>xs. cstring m (pm_addr (label_of b) ''_PMMsg'') xs \<and> length xs \<le> 80"
    using image_text [OF assms mem(1) offsets(2) d(1) nz(1)] len(1) by (intro exI [of _ ?pm] conjI)
  show "\<exists>xs. cstring m (pm_addr (label_of b) ''_MemInfoMsg'') xs \<and> length xs \<le> 80"
    using image_text [OF assms mem(2) offsets(3) d(2) nz(2)] len(2) by (intro exI [of _ ?info] conjI)
  show "\<exists>xs. cstring m (pm_addr (label_of b) ''_PageMechanicMsg'') xs \<and> length xs \<le> 80"
    using image_text [OF assms mem(3) offsets(5) d(4) nz(3)] len(3) by (intro exI [of _ ?page] conjI)
  show "cstring m (pm_addr (label_of b) ''_MemDataMsg'') (entry_text [0, 0, 0, 0, 0])"
    unfolding e by (rule image_text [OF assms mem(4) offsets(4) d(3) nz(4)])
qed

lemma loader_image_cong:
  assumes "loader_image b m" and "b \<le> 60000" and "\<And>x. 0x90000 + b + 256 \<le> unat x \<Longrightarrow> unat x < 0x90000 + b + 512 \<Longrightarrow> m' x = m x"
  shows "loader_image b m'"
proof -
  have range: "\<forall>(l, xs)\<in>set (tl loader_data). 256 \<le> data_offset l loader_data \<and> data_offset l loader_data + length xs \<le> 512"
    by code_simp
  have "m' (of_nat (0x90000 + b + data_offset l loader_data + i)) = m (of_nat (0x90000 + b + data_offset l loader_data + i))"
    if "(l, xs) \<in> set (tl loader_data)" "i < length xs" for l xs i
  proof -
    have r: "256 \<le> data_offset l loader_data" "data_offset l loader_data + length xs \<le> 512" using range that(1) by auto
    then have "unat (of_nat (0x90000 + b + data_offset l loader_data + i) :: addr) = 0x90000 + b + data_offset l loader_data + i"
      using that(2) assms(2) by (intro unat_of_nat_u32) simp
    then show ?thesis using r that(2) by (intro assms(3)) simp_all
  qed
  then show ?thesis using assms(1) unfolding loader_image_def by fastforce
qed

text \<open>The report, with the texts of the file.\<close>

lemma ShowMemInfo_result:
  assumes "loader_image b (l_mem s)" and "b \<le> 60000" and "MCRNumber s = of_nat n" and "0 < n" and "n \<le> 12"
  defines "es \<equiv> entries n (l_mem s) (of_nat (0x90000 + b))"
  shows "\<exists>s' hd. ShowMemInfo (label_of b) s = Inr s' \<and> length hd \<le> 80 \<and>
    (\<forall>x. \<not> (0x90174 + b \<le> unat x \<and> unat x < 0x901ac + b) \<longrightarrow> l_mem s' x = l_mem s x) \<and>
    MemSize s' = Max (insert (MemSize s) (ram_tops es)) \<and> cr0 s' = cr0 s \<and>
    l_video s' = l_video (fold show_row (hd # map entry_text es) s)"
proof -
  let ?a = "of_nat (0x90174 + b) :: addr"
  have a: "pm_addr (label_of b) ''_MemDataMsg'' = ?a" "pm_addr (label_of b) ''_MemChkBuf'' = of_nat (0x90000 + b)"
    using pm_addrs [OF assms(2)] by simp_all
  obtain hd where hd: "cstring (l_mem s) (pm_addr (label_of b) ''_MemInfoMsg'') hd" "length hd \<le> 80"
    using image_texts(2) [OF assms(1,2)] by blast
  have block: "in_block x ?a 56 \<longleftrightarrow> 0x90174 + b \<le> unat x \<and> unat x < 0x901ac + b" for x
    using in_block_nat [of "0x90174 + b" 56 x] assms(2) by simp
  have "\<not> in_block (of_nat (0x90000 + b) + of_nat i) ?a 56" if "i < 20 * n" for i
  proof -
    have "unat (of_nat (0x90000 + b + i) :: addr) = 0x90000 + b + i" using that assms(2,5) by (intro unat_of_nat_u32) simp
    then show ?thesis using block [of "of_nat (0x90000 + b + i)"] that assms(5) by simp
  qed
  then obtain s' where s': "mem_info n (label_of b) (of_nat (0x90000 + b)) (show_row hd s) = Inr s'"
    "\<forall>x. \<not> in_block x ?a 56 \<longrightarrow> l_mem s' x = l_mem s x" "MemSize s' = Max (insert (MemSize s) (ram_tops es))"
    "cr0 s' = cr0 (show_row hd s)" "l_video s' = l_video (fold show_row (map entry_text es) (show_row hd s))"
    using mem_info_result [of "show_row hd s" "label_of b" "[0, 0, 0, 0, 0]" n "of_nat (0x90000 + b)"]
      image_texts(4) [OF assms(1,2)] unfolding a es_def by auto
  have "loop_count (of_nat n) = n" using assms(4,5) by (auto simp: loop_count_def of_nat_u32_eq_iff [of n 0, simplified])
  then have "ShowMemInfo (label_of b) s = Inr s'"
    using ShowMsg_row [of s "label_of b" 2 hd] hd s'(1) assms(3) unfolding ShowMemInfo_def a by (simp add: msg_label_def)
  moreover have "cr0 (show_row hd s) = cr0 s" by (simp add: show_row_def)
  ultimately show ?thesis using s' hd(2) unfolding block by (intro exI [of _ s'] exI [of _ hd]) simp
qed

section \<open>The whole loader\<close>

text \<open>The map the BIOS gives, from a continuation value on: entries of 20 bytes up to one that ends it.\<close>

fun e820_map :: "e820 \<Rightarrow> u32 \<Rightarrow> u8 list list \<Rightarrow> bool" where
  "e820_map bios ebx [] = False"
| "e820_map bios ebx (x # xs) =
     (case bios ebx of
        None \<Rightarrow> False
      | Some (entry, ebx) \<Rightarrow> entry = x \<and> length x = 20 \<and> (if xs = [] then ebx = 0 else ebx \<noteq> 0 \<and> e820_map bios ebx xs))"

definition ard_of :: "u8 list \<Rightarrow> u32 list" where
  "ard_of x = ard (\<lambda>a. x ! unat a) 0"

lemma e820_map_lengths: "e820_map bios ebx xs \<Longrightarrow> \<forall>x\<in>set xs. length x = 20"
  by (induction bios ebx xs rule: e820_map.induct) (auto split: option.splits if_splits)

lemma concat_length_uniform: "\<forall>x\<in>set xs. length x = n \<Longrightarrow> length (concat xs) = n * length xs"
  by (induction xs) simp_all

lemma concat_nth_uniform:
  "\<forall>x\<in>set xs. length x = n \<Longrightarrow> k < length xs \<Longrightarrow> i < n \<Longrightarrow> concat xs ! (n * k + i) = xs ! k ! i"
proof (induction xs arbitrary: k)
  case (Cons x xs)
  then show ?case by (cases k) (simp_all add: nth_append add.assoc)
qed simp

lemma get_mem_info_loop_result:
  assumes "e820_map bios ebx xs" and "d + 20 * length xs \<le> 65536"
  shows "get_mem_info_loop bios ebx (of_nat d) s = Some (s\<lparr>l_mem := put_bytes (of_nat (0x90000 + d)) 0 (concat xs) (l_mem s),
    MCRNumber := MCRNumber s + of_nat (length xs)\<rparr>)"
  using assms
proof (induction bios ebx xs arbitrary: d s rule: e820_map.induct)
  case (2 bios ebx x xs)
  obtain e where e: "bios ebx = Some (x, e)" "length x = 20" "if xs = [] then e = 0 else e \<noteq> 0 \<and> e820_map bios e xs"
    using "2.prems"(1) by (auto split: option.splits)
  have at: "linear BaseOfLoader (of_nat d) = of_nat (0x90000 + d)"
    using linear_of_nat [of "0x9000" d] "2.prems"(2) by simp
  let ?s = "s\<lparr>l_mem := put_bytes (of_nat (0x90000 + d)) 0 x (l_mem s), MCRNumber := MCRNumber s + 1\<rparr>"
  have step: "get_mem_info_loop bios ebx (of_nat d) s =
      (if e \<noteq> 0 then get_mem_info_loop bios e (of_nat (d + 20)) ?s else Some ?s)"
    by (subst get_mem_info_loop.simps) (simp add: e(1) at Let_def)
  show ?case
  proof (cases "xs = []")
    case False
    then have n: "e \<noteq> 0" "e820_map bios e xs" using e(3) by simp_all
    have "length (concat xs) = 20 * length xs" using concat_length_uniform e820_map_lengths [OF n(2)] by blast
    then have "put_bytes (of_nat (0x90000 + (d + 20))) 0 (concat xs) (put_bytes (of_nat (0x90000 + d)) 0 x (l_mem s)) =
        put_bytes (of_nat (0x90000 + d)) 0 (concat (x # xs)) (l_mem s)"
      using put_bytes_put_bytes [of x "concat xs" "of_nat (0x90000 + d)" "l_mem s"] e(2) "2.prems"(2) by (simp add: add.assoc)
    moreover have "get_mem_info_loop bios e (of_nat (d + 20)) ?s =
        Some (?s\<lparr>l_mem := put_bytes (of_nat (0x90000 + (d + 20))) 0 (concat xs) (l_mem ?s), MCRNumber := MCRNumber ?s + of_nat (length xs)\<rparr>)"
      using "2.IH" [of "(x, e)" x e "d + 20" ?s] e n False "2.prems"(2) by simp
    ultimately show ?thesis unfolding step using n(1) by (simp add: add.assoc)
  qed (use e step in simp)
qed simp

lemma entries_put:
  assumes "\<forall>x\<in>set xs. length x = 20" and "length xs \<le> 1000"
  shows "entries (length xs) (put_bytes p 0 (concat xs) m) p = map ard_of xs"
proof (rule nth_equalityI)
  fix k assume "k < length (entries (length xs) (put_bytes p 0 (concat xs) m) p)"
  then have k: "k < length xs" by (simp add: entries_def)
  have "ard (put_bytes p 0 (concat xs) m) (p + 20 * of_nat k) = ard (\<lambda>a. xs ! k ! unat a) 0"
  proof (rule ard_cong)
    fix i :: nat assume i: "i < 20"
    have "p + 20 * of_nat k + of_nat i = p + of_nat (20 * k + i)" by simp
    moreover have "20 * k + i < length (concat xs)" using concat_length_uniform [OF assms(1)] k i by simp
    moreover have "20 * k + i < 4294967296" using k i assms(2) by simp
    ultimately have "put_bytes p 0 (concat xs) m (p + 20 * of_nat k + of_nat i) = concat xs ! (20 * k + i)"
      by (simp only: put_bytes_at)
    then show "put_bytes p 0 (concat xs) m (p + 20 * of_nat k + of_nat i) = xs ! k ! unat (0 + of_nat i :: addr)"
      using concat_nth_uniform [OF assms(1) k i] i by simp
  qed
  then show "entries (length xs) (put_bytes p 0 (concat xs) m) p ! k = map ard_of xs ! k"
    using k by (simp add: entries_def ard_of_def)
qed (simp add: entries_def)

lemma InitKernel_one:
  assumes "load16 m (BaseOfKernelPhyAddr + 0x2c) = 1" and "ph = load32 m (BaseOfKernelPhyAddr + 0x1c) + BaseOfKernelPhyAddr"
    and "load32 m ph \<noteq> 0"
  shows "InitKernel m = MemCpy (load32 m (ph + 8)) (load32 m (ph + 4) + BaseOfKernelPhyAddr) (load32 m (ph + 0x10)) m"
  using assms by (simp add: InitKernel_def loop_count_def)

lemma LABEL_PM_BEGIN_result:
  assumes "loader_image b (l_mem s)" and "b \<le> 60000" and "MCRNumber s = of_nat n" and "0 < n" and "n \<le> 12"
    and "sz = Max (insert (MemSize s) (ram_tops (entries n (l_mem s) (of_nat (0x90000 + b)))))" and "sz \<noteq> 0"
  shows "\<exists>s' m. LABEL_PM_BEGIN (label_of b) s = Inr s' \<and> l_mem s' = InitKernel (page_map (unat (page_table_count sz)) m) \<and>
    (\<forall>x. unat x < 0x90174 + b \<longrightarrow> m x = l_mem s x) \<and> MemSize s' = sz \<and> cr3 s' = PageDirBase \<and> cr0 s' = cr0 s OR 0x80000000"
proof -
  obtain pm where pm: "cstring (l_mem s) (pm_addr (label_of b) ''_PMMsg'') pm" "length pm \<le> 80"
    using image_texts(1) [OF assms(1,2)] by blast
  obtain pg where pg: "cstring (l_mem s) (pm_addr (label_of b) ''_PageMechanicMsg'') pg" "length pg \<le> 80"
    using image_texts(3) [OF assms(1,2)] by blast
  define s1 where "s1 = show_row pm s"
  have one: "ShowMsgInProtectedMode (label_of b) 0 s = Inr s1"
    unfolding s1_def using ShowMsg_row [of s "label_of b" 0 pm] pm by (simp add: msg_label_def)
  have s1: "l_mem s1 = l_mem s" "MCRNumber s1 = of_nat n" "MemSize s1 = MemSize s" "cr0 s1 = cr0 s"
    using assms(3) by (simp_all add: s1_def) (simp add: show_row_def)
  obtain s2 where two: "ShowMemInfo (label_of b) s1 = Inr s2"
    "\<forall>x. \<not> (0x90174 + b \<le> unat x \<and> unat x < 0x901ac + b) \<longrightarrow> l_mem s2 x = l_mem s x" "MemSize s2 = sz" "cr0 s2 = cr0 s"
    using ShowMemInfo_result [of b s1 n] assms(1,2,4,5,6) unfolding s1 by blast
  have "l_mem s2 (pm_addr (label_of b) ''_PageMechanicMsg'' + of_nat i) = l_mem s (pm_addr (label_of b) ''_PageMechanicMsg'' + of_nat i)"
    if "i \<le> length pg" for i
  proof -
    have "pm_addr (label_of b) ''_PageMechanicMsg'' + of_nat i = of_nat (0x901d8 + b + i)"
      unfolding pm_addrs [OF assms(2)] by simp
    moreover have "unat (of_nat (0x901d8 + b + i) :: addr) = 0x901d8 + b + i"
      using that pg(2) assms(2) by (intro unat_of_nat_u32) linarith
    ultimately show ?thesis using two(2) by simp
  qed
  then have "cstring (l_mem s2) (pm_addr (label_of b) ''_PageMechanicMsg'') pg" using pg(1) by (simp add: cstring_nth)
  then obtain s3 where three: "SetupPageMechanism (label_of b) s2 = Inr s3"
    "l_mem s3 = page_map (unat (page_table_count sz)) (l_mem s2)" "cr3 s3 = PageDirBase" "cr0 s3 = cr0 s OR 0x80000000" "MemSize s3 = sz"
    using SetupPageMechanism_result [of s2 "label_of b" pg] pg(2) assms(7) two(3,4) by auto
  have "l_mem s2 x = l_mem s x" if "unat x < 0x90174 + b" for x using two(2) that by simp
  then show ?thesis
    using one two(1) three by (intro exI [of _ "s3\<lparr>l_mem := InitKernel (l_mem s3)\<rparr>"] exI [of _ "l_mem s2"]) (simp add: LABEL_PM_BEGIN_def)
qed

text \<open>A number in the bytes of a file.\<close>

definition file32 :: "u8 list \<Rightarrow> nat \<Rightarrow> u32" where
  "file32 xs i = load32 (\<lambda>a. xs ! unat a) (of_nat i)"

definition file16 :: "u8 list \<Rightarrow> nat \<Rightarrow> u32" where
  "file16 xs i = load16 (\<lambda>a. xs ! unat a) (of_nat i)"

text \<open>
  A kernel file with one program header, whose segment lies in the file and goes below the place of
  the file.
\<close>

definition one_segment :: "u8 list \<Rightarrow> nat \<Rightarrow> addr \<Rightarrow> nat \<Rightarrow> bool" where
  "one_segment xs off vaddr len \<longleftrightarrow>
     52 \<le> length xs \<and> file16 xs 0x2c = 1 \<and>
     (let ph = unat (file32 xs 0x1c)
      in ph + 32 \<le> length xs \<and> file32 xs ph \<noteq> 0 \<and> unat (file32 xs (ph + 4)) = off \<and> file32 xs (ph + 8) = vaddr \<and>
         unat (file32 xs (ph + 0x10)) = len) \<and>
     off + len \<le> length xs \<and> unat vaddr + len \<le> 0x80000"

lemma InitKernel_file:
  assumes "\<And>j. j < length xs \<Longrightarrow> m (of_nat (0x80000 + j)) = xs ! j" and "length xs \<le> 65536"
    and "one_segment xs off vaddr len"
  shows "(\<forall>j<len. InitKernel m (vaddr + of_nat j) = xs ! (off + j)) \<and> (\<forall>x. \<not> in_block x vaddr len \<longrightarrow> InitKernel m x = m x)"
proof -
  define ph where "ph = unat (file32 xs 0x1c)"
  have at: "m (of_nat (0x80000 + i) + of_nat j) = xs ! unat (of_nat i + of_nat j :: addr)" if "i + j < length xs" for i j
  proof -
    have "unat (of_nat (i + j) :: addr) = i + j" using that assms(2) by (intro unat_of_nat_u32) simp
    then show ?thesis using assms(1) [of "i + j"] that by (simp add: add.assoc)
  qed
  have f32: "load32 m (of_nat (0x80000 + i)) = file32 xs i" if "i + 4 \<le> length xs" for i
    unfolding file32_def by (rule load32_cong) (use at that in simp)
  have f16: "load16 m (of_nat (0x80000 + i)) = file16 xs i" if "i + 2 \<le> length xs" for i
    using at [of i 0] at [of i 1] that by (simp add: file16_def load16_def)
  note seg = assms(3) [unfolded one_segment_def Let_def ph_def [symmetric]]
  have phw: "load32 m (BaseOfKernelPhyAddr + 0x1c) = of_nat ph" "load16 m (BaseOfKernelPhyAddr + 0x2c) = 1"
    using f32 [of "0x1c"] f16 [of "0x2c"] seg by (simp_all add: ph_def)
  define p where "p = (of_nat (0x80000 + ph) :: addr)"
  have fields: "load32 m p = file32 xs ph" "load32 m (p + 4) = of_nat off" "load32 m (p + 8) = vaddr" "load32 m (p + 0x10) = of_nat len"
    using f32 [of ph] f32 [of "ph + 4"] f32 [of "ph + 8"] f32 [of "ph + 0x10"] seg by (auto simp: p_def add.assoc)
  have run: "InitKernel m = memcpy vaddr (of_nat off + BaseOfKernelPhyAddr) (of_nat len) m"
    using InitKernel_one [of m p] phw fields seg by (simp add: p_def add.commute MemCpy_def memcpy_def)
  have len: "unat (of_nat len :: u32) = len" using seg by (intro unat_of_nat_u32) simp
  have "len \<le> unat (vaddr - (of_nat off + BaseOfKernelPhyAddr))"
  proof (cases "len = 0")
    case False
    have "(of_nat off + BaseOfKernelPhyAddr :: addr) = of_nat (0x80000 + off)" by simp
    moreover have "unat (of_nat (0x80000 + off) :: addr) = 0x80000 + off" using seg assms(2) by (intro unat_of_nat_u32) simp
    ultimately have "unat (of_nat off + BaseOfKernelPhyAddr :: addr) = 0x80000 + off" by (simp only:)
    moreover have "off + len \<le> 65536" "unat vaddr + len \<le> 0x80000" using seg assms(2) by linarith+
    ultimately show ?thesis using False by (auto simp: unat_sub_if')
  qed simp
  then have copy: "InitKernel m = (\<lambda>a. if in_block a vaddr len then m (of_nat off + BaseOfKernelPhyAddr + (a - vaddr)) else m a)"
    unfolding run using memcpy_eq [of vaddr "of_nat off + BaseOfKernelPhyAddr" "of_nat len" m] len by (simp add: word_le_nat_alt)
  have "InitKernel m (vaddr + of_nat j) = xs ! (off + j)" if "j < len" for j
  proof -
    have "in_block (vaddr + of_nat j) vaddr len" using that seg by (intro in_block_offset) simp_all
    then have "InitKernel m (vaddr + of_nat j) = m (of_nat (0x80000 + (off + j)))" unfolding copy by (simp add: ac_simps)
    then show ?thesis using assms(1) [of "off + j"] that seg by simp
  qed
  then show ?thesis using copy by simp
qed

lemma floppy_kernel:
  assumes "floppy_bios bios disk" and "find_file disk KernelName = Some i"
    and "fat_chain disk cs" and "hd cs = first_cluster (dir_entry disk i)" and "\<forall>c\<in>set cs. c + 31 < 2880"
    and "length cs \<le> 128" and "14 + 2 * length cs \<le> successes flags"
  shows "\<exists>r. load_kernel_file bios \<lparr>r_mem = m, carries = flags, shown = []\<rparr> = Inr (Loaded r) \<and> length (shown r) = 1 \<and>
    (\<forall>j<512 * length cs. r_mem r (of_nat (0x80000 + j)) = file_bytes disk cs ! j) \<and>
    (\<forall>x. 0x90000 \<le> unat x \<or> unat x < 0x7f000 \<longrightarrow> r_mem r x = m x)"
proof -
  have name: "length KernelName = 11" by (simp add: KernelName_def chars_def)
  obtain r where r: "load_program bios KernelName (of_nat 0x8000) (of_nat (32 * 0)) \<lparr>r_mem = m, carries = flags, shown = []\<rparr> = Inr (Loaded r)"
    "shown r = [1]" "loaded_at 0x8000 (32 * 0) (file_bytes disk cs) m (r_mem r)"
    using load_program_result [where b = "0x8000" and q = 0 and s = "\<lparr>r_mem = m, carries = flags, shown = []\<rparr>",
      OF assms(1) name assms(2-5)] assms(6,7) by auto
  have len: "length (file_bytes disk cs) = 512 * length cs" using file_bytes_length [OF assms(1,5)] .
  have "r_mem r (of_nat (0x80000 + j)) = file_bytes disk cs ! j" if "j < 512 * length cs" for j
    using loaded_at_bytes [OF r(3), of j] assms(6) that len by simp
  moreover have "r_mem r x = m x" if "0x90000 \<le> unat x \<or> unat x < 0x7f000" for x
    using r(3) assms(6) that len unfolding loaded_at_def by auto
  ultimately show ?thesis using r(1,2) by (intro exI [of _ r]) (simp add: load_kernel_file_def)
qed

lemma loader_program_result:
  assumes "loader_image b (l_mem s)" and "b \<le> 60000" and "MCRNumber s = 0" and "MemSize s = 0"
    and "e820_map mem_bios 0 xs" and "length xs \<le> 12" and "sz = Max (insert 0 (ram_tops (map ard_of xs)))" and "sz \<noteq> 0"
    and "floppy_bios disk_bios disk" and "find_file disk KernelName = Some i" and "fat_chain disk cs"
    and "hd cs = first_cluster (dir_entry disk i)" and "\<forall>c\<in>set cs. c + 31 < 2880" and "length cs \<le> 128"
    and "14 + 2 * length cs \<le> successes flags" and "one_segment (file_bytes disk cs) off vaddr len"
  shows "\<exists>s'. loader_program (label_of b) mem_bios disk_bios flags s = Inr s' \<and>
    (\<forall>j<len. l_mem s' (vaddr + of_nat j) = file_bytes disk cs ! (off + j)) \<and>
    MemSize s' = sz \<and> cr0 s' = (cr0 s OR 1) OR 0x80000000 \<and>
    (\<forall>x. 0x90000 \<le> unat x \<and> unat x < 0x90000 + b \<longrightarrow> l_mem s' x = l_mem s x) \<and>
    (\<forall>a. unat a < unat (page_table_count sz) * 4194304 \<longrightarrow> translate (l_mem s') (cr3 s') a = Some a) \<and>
    (\<forall>x. unat x < 0x7f000 \<and> \<not> in_block x vaddr len \<longrightarrow> l_mem s' x = l_mem s x)"
proof -
  let ?n = "length xs" and ?xs = "file_bytes disk cs" and ?buf = "of_nat (0x90000 + b) :: addr"
  have lens: "\<forall>x\<in>set xs. length x = 20" "length (concat xs) = 20 * ?n"
    using e820_map_lengths [OF assms(5)] concat_length_uniform by blast+
  have n: "0 < ?n" using assms(5) by (cases xs) simp_all
  define m1 where "m1 = put_bytes ?buf 0 (concat xs) (l_mem s)"
  have "label_of b ''_MemChkBuf'' = of_nat b" unfolding label_of_def offsets by simp
  then have one: "get_mem_info (label_of b) mem_bios s = Some (s\<lparr>l_mem := m1, MCRNumber := of_nat ?n\<rparr>)"
    using get_mem_info_loop_result [OF assms(5), of b s] assms(2,3,6) by (simp add: get_mem_info_def m1_def)
  have image1: "loader_image b m1"
  proof (rule loader_image_cong [OF assms(1,2)])
    fix x :: addr assume x: "0x90000 + b + 256 \<le> unat x"
    then have "\<not> in_block x ?buf (0 + length (concat xs))"
      using in_block_nat [of "0x90000 + b" "20 * ?n" x] lens(2) assms(2,6) by simp
    then show "m1 x = l_mem s x" unfolding m1_def by (rule put_bytes_frame)
  qed
  obtain r where r: "load_kernel_file disk_bios \<lparr>r_mem = m1, carries = flags, shown = []\<rparr> = Inr (Loaded r)" "length (shown r) = 1"
    "\<forall>j<512 * length cs. r_mem r (of_nat (0x80000 + j)) = ?xs ! j" "\<forall>x. 0x90000 \<le> unat x \<or> unat x < 0x7f000 \<longrightarrow> r_mem r x = m1 x"
    using floppy_kernel [OF assms(9-15)] by blast
  define s2 where "s2 = s\<lparr>MCRNumber := of_nat ?n, l_mem := r_mem r, ColCount := ColCount s + 1, cr0 := cr0 s OR 1\<rparr>"
  have run: "loader_program (label_of b) mem_bios disk_bios flags s = LABEL_PM_BEGIN (label_of b) s2"
    by (simp add: loader_program_def one r(1,2) s2_def)
  have image2: "loader_image b (l_mem s2)"
    using r(4) by (intro loader_image_cong [OF image1 assms(2)]) (simp add: s2_def)
  have "entries ?n (r_mem r) ?buf = entries ?n m1 ?buf"
  proof (rule entries_cong)
    fix i :: nat assume i: "i < 20 * ?n"
    have "unat (of_nat (0x90000 + b + i) :: addr) = 0x90000 + b + i" using i assms(2,6) by (intro unat_of_nat_u32) simp
    then show "r_mem r (?buf + of_nat i) = m1 (?buf + of_nat i)" using r(4) [rule_format, of "of_nat (0x90000 + b + i)"] by simp
  qed
  also have "\<dots> = map ard_of xs" unfolding m1_def using lens(1) assms(6) by (intro entries_put) simp_all
  finally have sz: "sz = Max (insert (MemSize s2) (ram_tops (entries ?n (l_mem s2) ?buf)))"
    using assms(4,7) by (simp add: s2_def)
  have mcr: "MCRNumber s2 = of_nat ?n" by (simp add: s2_def)
  obtain s' m where s': "LABEL_PM_BEGIN (label_of b) s2 = Inr s'" "l_mem s' = InitKernel (page_map (unat (page_table_count sz)) m)"
    "\<forall>x. unat x < 0x90174 + b \<longrightarrow> m x = l_mem s2 x" "MemSize s' = sz" "cr3 s' = PageDirBase" "cr0 s' = cr0 s2 OR 0x80000000"
    using LABEL_PM_BEGIN_result [OF image2 assms(2) mcr n assms(6) sz assms(8)] by blast
  let ?c = "unat (page_table_count sz)"
  have c: "?c \<le> 1024" using page_table_count_bounds by simp
  have flen: "length ?xs = 512 * length cs" using file_bytes_length [OF assms(9,13)] .
  have "page_map ?c m (of_nat (0x80000 + j)) = ?xs ! j" if "j < length ?xs" for j
  proof -
    have u: "unat (of_nat (0x80000 + j) :: addr) = 0x80000 + j" using that flen assms(14) by (intro unat_of_nat_u32) simp
    then have "page_map ?c m (of_nat (0x80000 + j)) = m (of_nat (0x80000 + j))" using that flen assms(14) by (intro page_map_frame [OF c]) simp
    also have "\<dots> = r_mem r (of_nat (0x80000 + j))" using s'(3) u that flen assms(14) by (simp add: s2_def)
    finally show ?thesis using r(3) that flen by simp
  qed
  then have k: "\<forall>j<len. l_mem s' (vaddr + of_nat j) = ?xs ! (off + j)"
    "\<forall>x. \<not> in_block x vaddr len \<longrightarrow> l_mem s' x = page_map ?c m x"
    using InitKernel_file [of ?xs "page_map ?c m" off vaddr len] flen assms(14,16) unfolding s'(2) by auto
  have v: "unat vaddr + len \<le> 0x80000" using assms(16) by (simp add: one_segment_def)
  have "l_mem s' x = page_map ?c m x" if "0x100000 \<le> unat x" for x
    using k(2) in_block_nat [of "unat vaddr" len x] v that by simp
  then have "translate (l_mem s') (cr3 s') a = Some a" if "unat a < ?c * 4194304" for a
    unfolding s'(5) using that by (intro page_map_translates [OF c]) simp_all
  moreover have kept: "l_mem s' x = l_mem s x"
    if x: "0x90000 \<le> unat x \<or> unat x < 0x7f000" "unat x < 0x90000 + b" "\<not> in_block x vaddr len" for x
  proof -
    from x(3) have "l_mem s' x = page_map ?c m x" using k(2) by simp
    also have "\<dots> = m x" using x assms(2) by (intro page_map_frame [OF c]) simp
    also have "\<dots> = r_mem r x" using s'(3) x by (simp add: s2_def)
    also have "\<dots> = m1 x" using r(4) x(1) by blast
    also have "\<dots> = l_mem s x"
      unfolding m1_def using in_block_nat [of "0x90000 + b" "20 * ?n" x] lens(2) assms(2,6) x by (intro put_bytes_frame) simp
    finally show ?thesis .
  qed
  moreover have "\<not> in_block x vaddr len" if "0x90000 \<le> unat x" for x
    using in_block_nat [of "unat vaddr" len x] v that by simp
  ultimately show ?thesis using run s' k(1) by (simp add: s2_def)
qed

text \<open>Word \<open>f\<close> of program header \<open>k\<close>, of 32 bytes each as ELF has them.\<close>

definition program_header :: "mem \<Rightarrow> nat \<Rightarrow> nat \<Rightarrow> u32" where
  "program_header m k f = load32 m (load32 m (BaseOfKernelPhyAddr + 0x1c) + BaseOfKernelPhyAddr + of_nat (32 * k + f))"

lemma load32_MemCpy:
  assumes "\<And>i. i < 4 \<Longrightarrow> \<not> in_block (a + of_nat i) d (unat n)"
  shows "load32 (MemCpy d src n m) a = load32 m a"
  unfolding MemCpy_def using assms by (intro load32_cong memcpy_loop_frame) (auto simp: in_block_def not_less)

lemma InitKernel_two:
  assumes "load16 m (BaseOfKernelPhyAddr + 0x2c) = 2" and "program_header m 0 0 \<noteq> 0"
    and "\<And>i. i < 64 \<Longrightarrow> \<not> in_block (load32 m (BaseOfKernelPhyAddr + 0x1c) + BaseOfKernelPhyAddr + of_nat i)
      (program_header m 0 8) (unat (program_header m 0 16))"
  defines "m1 \<equiv> MemCpy (program_header m 0 8) (program_header m 0 4 + BaseOfKernelPhyAddr) (program_header m 0 16) m"
  shows "InitKernel m = (if program_header m 0 20 = 0 then m1
    else MemCpy (program_header m 0 28) (program_header m 0 24 + BaseOfKernelPhyAddr) (program_header m 1 4) m1)"
proof -
  define ph where "ph = load32 m (BaseOfKernelPhyAddr + 0x1c) + BaseOfKernelPhyAddr"
  have f: "program_header m k f = load32 m (ph + of_nat (32 * k + f))" for k f
    by (simp add: program_header_def ph_def)
  have keep: "load32 m1 (ph + of_nat j) = load32 m (ph + of_nat j)" if "j \<le> 60" for j
    unfolding m1_def
  proof (rule load32_MemCpy)
    fix i :: nat assume "i < 4"
    then show "\<not> in_block (ph + of_nat j + of_nat i) (program_header m 0 8) (unat (program_header m 0 16))"
      using assms(3) [of "j + i"] that by (simp add: ph_def add.assoc)
  qed
  have n: "loop_count (load16 m (BaseOfKernelPhyAddr + 0x2c)) = Suc (Suc 0)" using assms(1) by (simp add: loop_count_def)
  have "InitKernel m = init_kernel_loop (Suc (Suc 0)) ph m" unfolding InitKernel_def n ph_def ..
  also have "\<dots> = init_kernel_loop (Suc 0) (ph + 20) m1"
    using assms(2) by (simp only: init_kernel_loop.simps m1_def f) simp
  also have "\<dots> = (if program_header m 0 20 = 0 then m1
      else MemCpy (program_header m 0 28) (program_header m 0 24 + BaseOfKernelPhyAddr) (program_header m 1 4) m1)"
    using keep [of 20] keep [of 24] keep [of 28] keep [of 36] by (simp add: f add.assoc)
  finally show ?thesis .
qed

section \<open>A small kernel\<close>

text \<open>
  An ELF file with one segment of two bytes, a memory of 8 MB, and a loader with some bytes and its
  data at the start of its segment.
\<close>

definition small_kernel :: "u8 list" where
  "small_kernel = replicate 28 0 @ [52, 0, 0, 0] @ replicate 12 0 @ [1, 0] @ replicate 6 0 @
     [1, 0, 0, 0, 84, 0, 0, 0, 0, 4, 3, 0, 0, 0, 0, 0, 2, 0, 0, 0] @ replicate 12 0 @ [0x90, 0xc3]"

definition small_map :: "u8 list" where
  "small_map = [0, 0, 0, 0, 0, 0, 0, 0, 0, 0, 0x80, 0, 0, 0, 0, 0, 1, 0, 0, 0]"

definition start_state :: "u8 list \<Rightarrow> loader" where
  "start_state pre = \<lparr>l_mem = (\<lambda>x. (pre @ concat (map snd loader_data)) ! (unat x - 0x90000)), MCRNumber = 0, BaseAddrLow = 0,
     LengthLow = 0, ARDType = 0, MemSize = 0, PageTblCnt = 0, ColCount = 2, l_video = (\<lambda>_. 0), cr0 = 0, cr3 = 0\<rparr>"

text \<open>A file with two program headers; the second segment is one byte at offset 117.\<close>

definition two_segments :: "u8 list" where
  "two_segments = replicate 28 0 @ [52, 0, 0, 0] @ replicate 12 0 @ [2, 0] @ replicate 6 0 @
     [1, 0, 0, 0, 116, 0, 0, 0, 0, 4, 3, 0, 0, 0, 0, 0, 1, 0, 0, 0, 1, 0, 0, 0, 7, 0, 0, 0, 0, 16, 0, 0] @
     [1, 0, 0, 0, 117, 0, 0, 0, 0, 8, 3, 0, 0, 0, 0, 0, 1, 0, 0, 0, 1, 0, 0, 0, 7, 0, 0, 0, 0, 16, 0, 0] @ [0x90, 0xc3]"

lemma data_offset_nth:
  "distinct (map fst ds) \<Longrightarrow> (l, xs) \<in> set ds \<Longrightarrow> i < length xs \<Longrightarrow> concat (map snd ds) ! (data_offset l ds + i) = xs ! i"
proof (induction ds)
  case (Cons d ds)
  obtain l' ys where d: "d = (l', ys)" by (cases d)
  have "l \<noteq> l'" if "(l, xs) \<in> set ds" using Cons.prems(1) that unfolding d by (auto simp: image_iff)
  then show ?case using Cons unfolding d by (auto simp: nth_append add.assoc)
qed simp

lemma start_image:
  assumes "length pre \<le> 60000"
  shows "loader_image (length pre) (l_mem (start_state pre))"
  unfolding loader_image_def
proof (intro ballI, clarify)
  fix l xs and i :: nat assume x: "(l, xs) \<in> set (tl loader_data)" and i: "i < length xs"
  have d: "distinct (map fst loader_data)" by code_simp
  have mem: "(l, xs) \<in> set loader_data" using x by (rule list.set_sel(2) [rotated]) (simp add: loader_data_def)
  have "\<forall>(l, xs)\<in>set (tl loader_data). data_offset l loader_data + length xs \<le> 512" by code_simp
  then have "data_offset l loader_data + i < 512" using x i by fastforce
  then have "unat (of_nat (0x90000 + length pre + data_offset l loader_data + i) :: addr) = 0x90000 + length pre + data_offset l loader_data + i"
    using assms by (intro unat_of_nat_u32) simp
  then show "l_mem (start_state pre) (of_nat (0x90000 + length pre + data_offset l loader_data + i)) = xs ! i"
    using data_offset_nth [OF d mem i] by (simp add: start_state_def nth_append)
qed

lemma small_kernel_segment: "one_segment (sector_of small_kernel) 84 0x30400 2"
proof -
  have len: "length small_kernel = 86" by (simp add: small_kernel_def)
  have u: "unat (of_nat i + of_nat j :: addr) = i + j" if "i + j < 86" for i j
    using unat_of_nat_u32 [of "i + j"] that by simp
  have f32: "file32 (sector_of small_kernel) i = ucast (small_kernel ! i) OR push_bit 8 (ucast (small_kernel ! (i + 1)))
     OR push_bit 16 (ucast (small_kernel ! (i + 2))) OR push_bit 24 (ucast (small_kernel ! (i + 3)))" if "i + 3 < 86" for i
    using that u [of i 0] u [of i 1] u [of i 2] u [of i 3] by (simp add: file32_def load32_def sector_of_nth len)
  have f16: "file16 (sector_of small_kernel) 44 = 1"
    by (simp add: file16_def load16_def sector_of_nth len) (simp add: small_kernel_def nth_append)
  have "file32 (sector_of small_kernel) 28 = 52" "file32 (sector_of small_kernel) 52 = 1" "file32 (sector_of small_kernel) 56 = 84"
    "file32 (sector_of small_kernel) 60 = 0x30400" "file32 (sector_of small_kernel) 68 = 2"
    by (simp_all add: f32) (simp_all add: small_kernel_def nth_append)
  then show ?thesis using f16 by (simp add: one_segment_def)
qed

lemma small_map_top: "ram_tops (map ard_of [small_map]) = {0x800000}"
proof -
  have "ard_of small_map ! 0 = 0" "ard_of small_map ! 2 = 0x800000" "ard_of small_map ! 4 = 1"
    by (simp_all add: ard_of_def ard_nth load32_def small_map_def)
  then show ?thesis by (simp add: ram_tops_Cons) (simp add: ram_tops_def)
qed

section \<open>Properties\<close>

text \<open>
  C15. The loader takes the kernel from the floppy to the addresses it is linked at. With a memory map
  of at most twelve entries that has some memory, and a file \<open>KERNEL.BIN\<close> of at most 64 kB whose ELF
  header has one program header, with a segment that ends below the file's place: the segment's
  bytes are at its virtual address when the loader jumps, protected mode and paging are on, the
  memory size is the highest end of an available range, and every address below it is mapped to itself.
\<close>

theorem loader_starts_kernel:
  assumes "loader_image b (l_mem s)" and "b \<le> 60000" and "MCRNumber s = 0" and "MemSize s = 0"
    and "e820_map mem_bios 0 xs" and "length xs \<le> 12" and "sz = Max (insert 0 (ram_tops (map ard_of xs)))" and "sz \<noteq> 0"
    and "floppy_bios disk_bios disk" and "find_file disk KernelName = Some i" and "fat_chain disk cs"
    and "hd cs = first_cluster (dir_entry disk i)" and "\<forall>c\<in>set cs. c + 31 < 2880" and "length cs \<le> 128"
    and "14 + 2 * length cs \<le> successes flags" and "one_segment (file_bytes disk cs) off vaddr len"
  shows "\<exists>s'. loader_program (label_of b) mem_bios disk_bios flags s = Inr s' \<and>
    (\<forall>j<len. l_mem s' (vaddr + of_nat j) = file_bytes disk cs ! (off + j)) \<and>
    MemSize s' = sz \<and> bit (cr0 s') 0 \<and> bit (cr0 s') 31 \<and>
    (\<forall>a. unat a < unat sz \<longrightarrow> translate (l_mem s') (cr3 s') a = Some a)"
proof -
  obtain s' where s': "loader_program (label_of b) mem_bios disk_bios flags s = Inr s'"
    "\<forall>j<len. l_mem s' (vaddr + of_nat j) = file_bytes disk cs ! (off + j)" "MemSize s' = sz" "cr0 s' = (cr0 s OR 1) OR 0x80000000"
    "\<forall>a. unat a < unat (page_table_count sz) * 4194304 \<longrightarrow> translate (l_mem s') (cr3 s') a = Some a"
    using loader_program_result [OF assms] by auto
  have "bit ((c OR 1) OR 0x80000000) 0" "bit ((c OR 1) OR 0x80000000) 31" for c :: u32 by (simp_all add: bit_simps)
  then show ?thesis using s' page_table_count_bounds(2) [of sz] by (intro exI [of _ s']) (auto dest: order_less_le_trans)
qed

lemma loader_starts_kernel_witness:
  "\<exists>s'. loader_program (label_of 0) (\<lambda>ebx. if ebx = 0 then Some (small_map, 0) else None) (bios_of (sample_floppy [] small_kernel))
      (replicate 16 False) (start_state []) = Inr s' \<and> l_mem s' 0x30401 = 0xc3 \<and> MemSize s' = 0x800000 \<and>
    translate (l_mem s') (cr3 s') 0x7fffff = Some 0x7fffff"
proof -
  let ?d = "sample_floppy [] small_kernel"
  have "length small_kernel = 86" by (simp add: small_kernel_def)
  then have byte: "sector_of small_kernel ! 85 = 0xc3" by (simp add: sector_of_nth) (simp add: small_kernel_def nth_append)
  obtain s' where s': "loader_program (label_of 0) (\<lambda>ebx. if ebx = 0 then Some (small_map, 0) else None) (bios_of ?d) (replicate 16 False) (start_state []) = Inr s'"
    "\<forall>j<2. l_mem s' (0x30400 + of_nat j) = file_bytes ?d [3] ! (84 + j)" "MemSize s' = 0x800000"
    "\<forall>a. unat a < unat (0x800000 :: u32) \<longrightarrow> translate (l_mem s') (cr3 s') a = Some a"
    using loader_starts_kernel [where xs = "[small_map]" and sz = "0x800000" and off = 84 and vaddr = "0x30400" and len = 2
        and cs = "[3]" and flags = "replicate 16 False" and b = 0 and s = "start_state []" and
        mem_bios = "\<lambda>ebx. if ebx = 0 then Some (small_map, 0) else None",
        OF start_image [of "[]", simplified] _ _ _ _ _ _ _ sample_floppy_bios sample_files(3,6) [of "[]" small_kernel]]
      sample_files(4,8) [of "[]" small_kernel] small_kernel_segment small_map_top
    by (auto simp: start_state_def successes_def small_map_def)
  show ?thesis
    using s' byte s'(2) [rule_format, of 1] s'(4) [rule_format, of "0x7fffff"] sample_files(8) [of "[]" small_kernel] by (intro exI [of _ s']) simp
qed

text \<open>
  C20. The report of the memory is right: every entry of the map stands in its own row under the
  header, as five numbers of eight hexadecimal digits, and \<open>MemSize\<close> is the largest of its old value
  and the ends (low base plus low length) of the entries of type 1.
\<close>

theorem memory_report:
  assumes "loader_image b (l_mem s)" and "b \<le> 60000" and "MCRNumber s = of_nat n" and "0 < n" and "n \<le> 12"
    and "unat (ColCount s) + n < 256"
  shows "\<exists>s'. ShowMemInfo (label_of b) s = Inr s' \<and>
    MemSize s' = Max (insert (MemSize s) (ram_tops (entries n (l_mem s) (of_nat (0x90000 + b))))) \<and>
    (\<forall>k<n. \<forall>i<56. l_video s' (of_nat ((unat (ColCount s) + 1 + k) * 160 + 2 * i)) =
       entry_text (entries n (l_mem s) (of_nat (0x90000 + b)) ! k) ! i)"
proof -
  define es where "es = entries n (l_mem s) (of_nat (0x90000 + b))"
  obtain s' hd where s': "ShowMemInfo (label_of b) s = Inr s'" "length hd \<le> 80"
    "MemSize s' = Max (insert (MemSize s) (ram_tops es))" "l_video s' = l_video (fold show_row (hd # map entry_text es) s)"
    using ShowMemInfo_result [OF assms(1-5)] unfolding es_def by blast
  have len: "length es = n" by (simp add: es_def entries_def)
  have "l_video s' (of_nat ((unat (ColCount s) + Suc k) * 160 + 2 * i)) = entry_text (es ! k) ! i" if "k < n" "i < 56" for k i
    using rows_shown [of "hd # map entry_text es" s "Suc k" i] s'(2) assms(6) that len unfolding s'(4) by auto
  then show ?thesis unfolding es_def [symmetric] using s' by (intro exI [of _ s']) simp
qed

lemma memory_report_witness:
  "\<exists>s'. ShowMemInfo (label_of 0) (start_state []\<lparr>MCRNumber := 1, l_mem := put_bytes 0x90000 0 small_map (l_mem (start_state []))\<rparr>) = Inr s' \<and>
     MemSize s' = 0x800000 \<and> l_video s' (of_nat (3 * 160 + 2 * 26)) = 56"
proof -
  let ?m = "put_bytes 0x90000 0 small_map (l_mem (start_state []))"
  let ?s = "start_state []\<lparr>MCRNumber := 1, l_mem := ?m\<rparr>"
  have len: "length small_map = 20" by (simp add: small_map_def)
  have image: "loader_image 0 ?m"
  proof (rule loader_image_cong [OF start_image [of "[]", simplified]])
    fix x :: addr assume "0x90000 + 0 + 256 \<le> unat x"
    then have "\<not> in_block x 0x90000 (0 + length small_map)" using in_block_nat [of "0x90000" 20 x] len by simp
    then show "?m x = l_mem (start_state []) x" by (rule put_bytes_frame)
  qed simp
  have es: "entries 1 ?m 0x90000 = [ard_of small_map]"
    using entries_put [of "[small_map]" "0x90000" "l_mem (start_state [])"] len by simp
  have "ard_of small_map ! 2 = 0x800000" by (simp add: ard_of_def ard_nth load32_def small_map_def)
  then have "entry_text (ard_of small_map) ! 26 = hex_digit 8" by (simp add: entry_text_def nth_append hex_digits_def)
  moreover have "hex_digit 8 = 56" by code_simp
  ultimately have char: "entry_text (ard_of small_map) ! 26 = 56" by simp
  obtain s' where s': "ShowMemInfo (label_of 0) ?s = Inr s'" "MemSize s' = 0x800000"
    "\<forall>i<56. l_video s' (of_nat (3 * 160 + 2 * i)) = entry_text (ard_of small_map) ! i"
    using memory_report [of 0 ?s 1] image es small_map_top by (auto simp: start_state_def)
  show ?thesis using s'(1,2) s'(3) [rule_format, of 26] char by (intro exI [of _ s']) simp
qed

text \<open>
  C19. Paging maps the memory to itself: for every size but 0, after \<open>SetupPageMechanism\<close> paging is on,
  each linear address below the size (and up to the end of its 4 MB) is translated to itself through
  the directory at 1 MB, and nothing but the directory and the page tables has changed.
\<close>

theorem paging_identity:
  assumes "cstring (l_mem s) (pm_addr label ''_PageMechanicMsg'') xs" and "length xs \<le> 80" and "MemSize s \<noteq> 0"
  shows "\<exists>s'. SetupPageMechanism label s = Inr s' \<and> bit (cr0 s') 31 \<and>
    (\<forall>a. unat a div 4194304 \<le> (unat (MemSize s) - 1) div 4194304 \<longrightarrow> translate (l_mem s') (cr3 s') a = Some a) \<and>
    (\<forall>x. unat x < 0x100000 \<or> 0x101000 + 4096 * Suc ((unat (MemSize s) - 1) div 4194304) \<le> unat x \<longrightarrow> l_mem s' x = l_mem s x)"
proof -
  let ?c = "unat (page_table_count (MemSize s))"
  obtain s' where s': "SetupPageMechanism label s = Inr s'" "l_mem s' = page_map ?c (l_mem s)" "cr3 s' = PageDirBase"
    "cr0 s' = cr0 s OR 0x80000000"
    using SetupPageMechanism_result [OF assms] by blast
  have c: "?c = Suc ((unat (MemSize s) - 1) div 4194304)" "?c \<le> 1024"
    using page_table_count_bounds(3) [OF assms(3)] page_table_count_bounds(1) [of "MemSize s"] by simp_all
  have "translate (l_mem s') (cr3 s') a = Some a" if "unat a div 4194304 \<le> (unat (MemSize s) - 1) div 4194304" for a
  proof -
    have "unat a < ?c * 4194304" using that unfolding c(1) by (simp add: div_less_iff_less_mult [symmetric] less_Suc_eq_le)
    then show ?thesis unfolding s'(2,3) by (intro page_map_translates [OF c(2)]) simp_all
  qed
  moreover have "bit (z OR 0x80000000) 31" for z :: u32 by (simp add: bit_simps)
  ultimately show ?thesis using s' page_map_frame [OF c(2), of _ "l_mem s"] unfolding c(1) by (intro exI [of _ s']) simp
qed

lemma paging_identity_witness:
  "\<exists>s'. SetupPageMechanism (label_of 0) (start_state []\<lparr>MemSize := 0x2000001\<rparr>) = Inr s' \<and>
    translate (l_mem s') (cr3 s') 0x2000fff = Some 0x2000fff"
proof -
  obtain pg where pg: "cstring (l_mem (start_state [])) (pm_addr (label_of 0) ''_PageMechanicMsg'') pg" "length pg \<le> 80"
    using image_texts(3) [OF start_image [of "[]", simplified]] by auto
  then show ?thesis
    using paging_identity [of "start_state []\<lparr>MemSize := 0x2000001\<rparr>" "label_of 0" pg] by (auto simp: start_state_def)
qed

text \<open>
  C39. The second program header is misread: \<open>InitKernel\<close> steps 20 bytes from one header to the next
  although ELF headers have 32. For a file with two of them, the second copy goes to the alignment of
  the first segment, from the offset given by its flags, with the second segment's offset in the file
  as the size; the address and the size of the second segment are not looked at.
\<close>

theorem second_segment_misread:
  assumes "load16 m (BaseOfKernelPhyAddr + 0x2c) = 2" and "program_header m 0 0 \<noteq> 0" and "program_header m 0 20 \<noteq> 0"
    and "\<And>i. i < 64 \<Longrightarrow> \<not> in_block (load32 m (BaseOfKernelPhyAddr + 0x1c) + BaseOfKernelPhyAddr + of_nat i)
      (program_header m 0 8) (unat (program_header m 0 16))"
  shows "InitKernel m =
    MemCpy (program_header m 0 28) (program_header m 0 24 + BaseOfKernelPhyAddr) (program_header m 1 4)
      (MemCpy (program_header m 0 8) (program_header m 0 4 + BaseOfKernelPhyAddr) (program_header m 0 16) m)"
  using InitKernel_two [OF assms(1,2,4)] assms(3) by simp

lemma second_segment_misread_witness:
  "InitKernel (\<lambda>x. two_segments ! (unat x - 0x80000)) =
    MemCpy 0x1000 0x80007 117 (MemCpy 0x30400 0x80074 1 (\<lambda>x. two_segments ! (unat x - 0x80000)))"
proof -
  let ?m = "\<lambda>x :: addr. two_segments ! (unat x - 0x80000)"
  have byte: "?m (of_nat (0x80000 + i)) = two_segments ! i" if "i < 118" for i
    using that unat_of_nat_u32 [of "0x80000 + i"] by simp
  have w: "load32 ?m (of_nat (0x80000 + i)) = ucast (two_segments ! i) OR push_bit 8 (ucast (two_segments ! (i + 1)))
      OR push_bit 16 (ucast (two_segments ! (i + 2))) OR push_bit 24 (ucast (two_segments ! (i + 3)))" if "i < 115" for i
    using byte [of i] byte [of "i + 1"] byte [of "i + 2"] byte [of "i + 3"] that by (simp add: load32_def add.assoc)
  have n: "load16 ?m (BaseOfKernelPhyAddr + 0x2c) = 2"
    using byte [of 44] byte [of 45] by (simp add: load16_def two_segments_def nth_append)
  have ph: "load32 ?m (BaseOfKernelPhyAddr + 0x1c) = 52" using w [of 28] by (simp add: two_segments_def nth_append)
  have f: "program_header ?m k g = load32 ?m (of_nat (0x80000 + (52 + 32 * k + g)))" for k g
    unfolding program_header_def ph by (simp add: add.assoc)
  have h: "program_header ?m 0 0 = 1" "program_header ?m 0 4 = 116" "program_header ?m 0 8 = 0x30400" "program_header ?m 0 16 = 1"
    "program_header ?m 0 20 = 1" "program_header ?m 0 24 = 7" "program_header ?m 0 28 = 0x1000" "program_header ?m 1 4 = 117"
    using w [of 52] w [of 56] w [of 60] w [of 68] w [of 72] w [of 76] w [of 80] w [of 88] unfolding f
    by (simp_all add: two_segments_def nth_append)
  have "\<not> in_block (52 + BaseOfKernelPhyAddr + of_nat i) 0x30400 1" if "i < 64" for i
    using in_block_nat [of "0x30400" 1 "of_nat (0x80034 + i)"] that unat_of_nat_u32 [of "0x80034 + i"] by simp
  then show ?thesis using second_segment_misread [OF n] unfolding h ph by simp
qed

end
