(* ===== verification/Startup.thy ===== *)
theory Startup
  imports Loader Boot
begin

text \<open>
  The boot code and the kernel put together: what \<open>boot/loader.s\<close> leaves when it jumps to the kernel
  is what \<open>kernel/gas/entry.s\<close> and \<open>init_pm_env\<close> start from, so a floppy with a kernel leads to the
  first process. The kernel's variables are read from the memory the loader leaves.
\<close>

section \<open>The hand-over\<close>

text \<open>
  Gates, a pointer for \<open>lgdt\<close> and the task state segment, as they lie in memory.
\<close>

definition load_gate :: "mem \<Rightarrow> addr \<Rightarrow> gate" where
  "load_gate m a = \<lparr>offset_low = ucast (load16 m a), selector = ucast (load16 m (a + 2)), d_count = m (a + 4),
     gate_attr = m (a + 5), offset_high = ucast (load16 m (a + 6))\<rparr>"

definition load_table_ptr :: "mem \<Rightarrow> addr \<Rightarrow> table_ptr" where
  "load_table_ptr m a = \<lparr>tp_limit = ucast (load16 m a), tp_base = load32 m (a + 2)\<rparr>"

definition load_tss :: "mem \<Rightarrow> addr \<Rightarrow> tss" where
  "load_tss m a = \<lparr>
     tss_back = load32 m a, tss_esp0 = load32 m (a + 4), tss_ss0 = load32 m (a + 8), tss_esp1 = load32 m (a + 12),
     tss_ss1 = load32 m (a + 16), tss_esp2 = load32 m (a + 20), tss_ss2 = load32 m (a + 24), tss_cr3 = load32 m (a + 28),
     tss_eip = load32 m (a + 32), tss_flags = load32 m (a + 36), tss_eax = load32 m (a + 40), tss_ecx = load32 m (a + 44),
     tss_edx = load32 m (a + 48), tss_ebx = load32 m (a + 52), tss_esp = load32 m (a + 56), tss_ebp = load32 m (a + 60),
     tss_esi = load32 m (a + 64), tss_edi = load32 m (a + 68), tss_es = load32 m (a + 72), tss_cs = load32 m (a + 76),
     tss_ss = load32 m (a + 80), tss_ds = load32 m (a + 84), tss_fs = load32 m (a + 88), tss_gs = load32 m (a + 92),
     tss_ldt = load32 m (a + 96), tss_trap = load32 m (a + 100), tss_iobase = load32 m (a + 104)\<rparr>"

text \<open>
  What \<open>_start\<close> finds after the jump, when the loader's descriptor table is at offset \<open>g\<close> of its segment
  (\<open>sgdtw\<close> reports it) and the interrupt chips and the handler table are \<open>q\<close>: the kernel's variables are what
  lies in the memory the loader leaves, at the addresses they are linked to. The jump itself clears nothing.
\<close>

definition kernel_entry :: "symbols \<Rightarrow> nat \<Rightarrow> irqs \<Rightarrow> loader \<Rightarrow> pm_env" where
  "kernel_entry lnk g q s = (let m = l_mem s in
     \<lparr>pm_mem = m,
      pm_screen = \<lparr>screen.position = load32 m (lnk ''position''), video = l_video s\<rparr>,
      gdt_ptr = \<lparr>tp_limit = 31, tp_base = of_nat (0x90000 + g)\<rparr>,
      idt_ptr = load_table_ptr m (lnk ''idt_ptr''),
      pm_gdt = map (\<lambda>i. load_descriptor m (lnk ''gdt'' + of_nat (SIZEOF_DESCRIPTOR * i))) [0..<GDT_SIZE],
      pm_idt = map (\<lambda>i. load_gate m (lnk ''idt'' + of_nat (SIZEOF_GATE * i))) [0..<IDT_SIZE],
      pm_tss = load_tss m (lnk ''tss''), pm_irqs = q\<rparr>)"

text \<open>
  The variables the kernel reads before it writes them, or not in all their parts: the screen position, the
  interrupt table and the process table. They are in the bss, which no code clears: \<open>InitKernel\<close> copies the
  bytes of the segment that are in the file.
\<close>

definition kernel_bss :: "symbols \<Rightarrow> addr \<Rightarrow> bool" where
  "kernel_bss lnk x \<longleftrightarrow> in_block x (lnk ''position'') 4 \<or> in_block x (lnk ''idt'') (SIZEOF_GATE * IDT_SIZE) \<or>
     in_block x (lnk ''proc_table'') (SIZEOF_PROCESS * TOTAL_TASK_CNT)"

text \<open>A byte of the memory after the loader: from the segment, or what has been there before.\<close>

definition loaded_byte :: "u8 list \<Rightarrow> nat \<Rightarrow> addr \<Rightarrow> nat \<Rightarrow> mem \<Rightarrow> addr \<Rightarrow> u8" where
  "loaded_byte xs off vaddr len m x = (if in_block x vaddr len then xs ! (off + unat (x - vaddr)) else m x)"

definition gdt_at :: "nat \<Rightarrow> mem \<Rightarrow> bool" where
  "gdt_at g m \<longleftrightarrow> (\<forall>i<4. load_descriptor m (of_nat (0x90000 + g + 8 * i)) = loader_gdt ! i)"

lemma gdt_at_cong:
  assumes "gdt_at g m" and "g \<le> 60000" and "\<And>x. 0x90000 + g \<le> unat x \<Longrightarrow> unat x < 0x90000 + g + 32 \<Longrightarrow> m' x = m x"
  shows "gdt_at g m'"
  unfolding gdt_at_def
proof (intro allI impI)
  fix i :: nat assume i: "i < 4"
  have "load_descriptor m' (of_nat (0x90000 + g + 8 * i)) = load_descriptor m (of_nat (0x90000 + g + 8 * i))"
  proof (rule load_descriptor_cong)
    fix j :: nat assume j: "j < 8"
    have e: "of_nat (0x90000 + g + 8 * i) + of_nat j = (of_nat (0x90000 + g + 8 * i + j) :: addr)" by simp
    have "unat (of_nat (0x90000 + g + 8 * i + j) :: addr) = 0x90000 + g + 8 * i + j"
      using assms(2) i j by (intro unat_of_nat_u32) simp
    then show "m' (of_nat (0x90000 + g + 8 * i) + of_nat j) = m (of_nat (0x90000 + g + 8 * i) + of_nat j)"
      unfolding e using i j by (intro assms(3)) simp_all
  qed
  then show "load_descriptor m' (of_nat (0x90000 + g + 8 * i)) = loader_gdt ! i" using assms(1) i by (simp add: gdt_at_def)
qed

lemma gate_zero:
  assumes "\<And>x. in_block x (lnk ''idt'') (SIZEOF_GATE * IDT_SIZE) \<Longrightarrow> m x = 0" and "i < IDT_SIZE"
  shows "\<not> gate_present (load_gate m (lnk ''idt'' + of_nat (SIZEOF_GATE * i)))"
proof -
  have "in_block (lnk ''idt'' + of_nat (SIZEOF_GATE * i + 5)) (lnk ''idt'') (SIZEOF_GATE * IDT_SIZE)"
    using assms(2) by (intro in_block_offset) simp_all
  then have "m (lnk ''idt'' + of_nat (SIZEOF_GATE * i) + 5) = 0" using assms(1) by (simp add: add.assoc)
  then show ?thesis by (simp add: load_gate_def gate_present_def)
qed

lemma kernel_entry_state:
  assumes "\<forall>x. kernel_bss lnk x \<longrightarrow> l_mem s x = 0" and "gdt_at g (l_mem s)" and "32 \<le> lnk ''gdt'' - of_nat (0x90000 + g)"
  shows "loader_state lnk (kernel_entry lnk g q s)" and "table_zero lnk (pm_mem (kernel_entry lnk g q s))"
proof -
  have n: "length loader_gdt = 4" by (simp add: loader_gdt_def)
  have "load_descriptor (l_mem s) (of_nat (0x90000 + g) + of_nat (8 * i)) = loader_gdt ! i" if "i < 4" for i
    using assms(2) that unfolding gdt_at_def by (simp add: add.assoc)
  moreover have "load32 (l_mem s) (lnk ''position'') = 0"
    using load_zero(1) [of 4 "l_mem s" "lnk ''position''" 0] assms(1) in_block_offset [of _ 4 "lnk ''position''"]
    by (simp add: kernel_bss_def)
  moreover have "\<not> gate_present (load_gate (l_mem s) (lnk ''idt'' + of_nat (SIZEOF_GATE * i)))" if "i < IDT_SIZE" for i
    using gate_zero [OF _ that, of lnk "l_mem s"] assms(1) by (simp add: kernel_bss_def)
  ultimately show "loader_state lnk (kernel_entry lnk g q s)"
    using assms(3) by (auto simp: loader_state_def kernel_entry_def Let_def n)
  show "table_zero lnk (pm_mem (kernel_entry lnk g q s))"
    using assms(1) by (simp add: table_zero_def kernel_entry_def Let_def kernel_bss_def)
qed

section \<open>Properties\<close>

text \<open>
  C14. From the floppy to the first process: from any state the loader reaches (with a memory map and a
  kernel of one segment on the floppy) the kernel's start, on the memory the loader leaves, reaches the
  first process, in a state of the step relation in which its invariant holds. The loader's descriptor
  table lies in front of its buffer and the kernel links its own table and its process table elsewhere.
  No code clears the kernel's bss, so its screen position, its interrupt table and its process table must be
  zero in what is there: the bytes of the segment, and where the segment has none, the memory as it was before
  the loader ran.
\<close>

theorem floppy_to_first_process:
  assumes "loader_image b (l_mem s)" and "b \<le> 60000" and "MCRNumber s = 0" and "MemSize s = 0"
    and "e820_map mem_bios 0 xs" and "length xs \<le> 12" and "Max (insert 0 (ram_tops (map ard_of xs))) \<noteq> 0"
    and "floppy_bios disk_bios disk" and "find_file disk KernelName = Some i" and "fat_chain disk cs"
    and "hd cs = first_cluster (dir_entry disk i)" and "\<forall>c\<in>set cs. c + 31 < 2880" and "length cs \<le> 128"
    and "14 + 2 * length cs \<le> successes flags" and "one_segment (file_bytes disk cs) off vaddr len"
    and "gdt_at g (l_mem s)" and "g + 32 \<le> b" and "32 \<le> lnk ''gdt'' - of_nat (0x90000 + g)"
    and "\<forall>x. in_block x (lnk ''proc_table'') (SIZEOF_PROCESS * TOTAL_TASK_CNT) \<longrightarrow> \<not> in_block x (lnk ''gdt'') 32"
    and "\<forall>x. kernel_bss lnk x \<longrightarrow> unat x < 0x7f000 \<and> loaded_byte (file_bytes disk cs) off vaddr len (l_mem s) x = 0"
  shows "\<exists>s'. loader_program (label_of b) mem_bios disk_bios flags s = Inr s' \<and>
    (\<forall>q out. \<exists>k e' c. start_kernel lnk out (kernel_entry lnk g q s') = Inr (k, e', c) \<and>
       reachable lnk (pm_gdt e') k \<and> process_ready k = 0 \<and> kernel_inv k)"
proof -
  let ?xs = "file_bytes disk cs"
  obtain s' where s': "loader_program (label_of b) mem_bios disk_bios flags s = Inr s'"
    "\<forall>j<len. l_mem s' (vaddr + of_nat j) = ?xs ! (off + j)"
    "\<forall>x. 0x90000 \<le> unat x \<and> unat x < 0x90000 + b \<longrightarrow> l_mem s' x = l_mem s x"
    "\<forall>x. unat x < 0x7f000 \<and> \<not> in_block x vaddr len \<longrightarrow> l_mem s' x = l_mem s x"
    using loader_program_result [OF assms(1-6) refl assms(7-15)] by blast
  have gdt: "gdt_at g (l_mem s')" using assms(2,17) s'(3) by (intro gdt_at_cong [OF assms(16)]) simp_all
  have "l_mem s' x = 0" if x: "kernel_bss lnk x" for x
  proof -
    have z: "unat x < 0x7f000" "loaded_byte ?xs off vaddr len (l_mem s) x = 0" using assms(20) x by blast+
    show ?thesis
    proof (cases "in_block x vaddr len")
      case True
      then obtain j where j: "j = unat (x - vaddr)" "j < len" by (simp add: in_block_def)
      then have "l_mem s' (vaddr + of_nat j) = ?xs ! (off + j)" using s'(2) by blast
      moreover have "vaddr + of_nat j = x" by (simp add: j(1))
      ultimately show ?thesis using True z(2) by (simp add: loaded_byte_def j(1))
    next
      case False
      then show ?thesis using s'(4) z by (simp add: loaded_byte_def)
    qed
  qed
  then have zero: "\<forall>x. kernel_bss lnk x \<longrightarrow> l_mem s' x = 0" by blast
  have "loader_state lnk (kernel_entry lnk g q s')" "table_zero lnk (pm_mem (kernel_entry lnk g q s'))" for q
    using kernel_entry_state [where s = s', OF zero gdt assms(18)] by blast+
  from start_kernel_steps [OF this assms(19)] show ?thesis using s'(1) by metis
qed

text \<open>A loader with its descriptor table at the start of its segment.\<close>

definition gdt_bytes :: "u8 list" where
  "gdt_bytes = [0, 0, 0, 0, 0, 0, 0, 0, 0xff, 0xff, 0, 0, 0, 0x9a, 0xcf, 0,
     0xff, 0xff, 0, 0, 0, 0x92, 0xcf, 0, 0xff, 0xff, 0, 0x80, 0x0b, 0xf2, 0, 0]"

lemma length_gdt_bytes: "length gdt_bytes = 32"
  by (simp add: gdt_bytes_def)

lemma gdt_bytes_gdt: "gdt_at 0 (l_mem (start_state gdt_bytes))"
proof -
  note len = length_gdt_bytes
  have at: "l_mem (start_state gdt_bytes) (of_nat (0x90000 + n)) = gdt_bytes ! n" if "n < 32" for n
  proof -
    have "unat (of_nat (0x90000 + n) :: addr) = 0x90000 + n" using that by (intro unat_of_nat_u32) simp
    then show ?thesis using that len by (simp add: start_state_def nth_append)
  qed
  have d: "load_descriptor (l_mem (start_state gdt_bytes)) (of_nat (0x90000 + n)) = load_descriptor (\<lambda>x. gdt_bytes ! unat x) (of_nat n)"
    if "n + 8 \<le> 32" for n
  proof (rule load_descriptor_cong)
    fix j :: nat assume j: "j < 8"
    have "unat (of_nat (n + j) :: addr) = n + j" using that j by (intro unat_of_nat_u32) simp
    then show "l_mem (start_state gdt_bytes) (of_nat (0x90000 + n) + of_nat j) = gdt_bytes ! unat (of_nat n + of_nat j :: addr)"
      using at [of "n + j"] that j by (simp add: add.assoc)
  qed
  have "load_descriptor (\<lambda>x. gdt_bytes ! unat x) (of_nat (8 * i)) = loader_gdt ! i" if i: "i < 4" for i
  proof -
    have "i = 0 \<or> i = 1 \<or> i = 2 \<or> i = 3" using i by linarith
    then show ?thesis
      by (elim disjE) (simp_all add: load_descriptor_def load16_def gdt_bytes_def loader_gdt_def loader_Descriptor_def Let_def)
  qed
  then have "load_descriptor (l_mem (start_state gdt_bytes)) (of_nat (0x90000 + 8 * i)) = loader_gdt ! i" if "i < 4" for i
    using d [of "8 * i"] that by simp
  then show ?thesis unfolding gdt_at_def by simp
qed

theorem floppy_to_first_process_witness:
  "\<exists>s'. loader_program (label_of 32) (\<lambda>ebx. if ebx = 0 then Some (small_map, 0) else None) (bios_of (sample_floppy [] small_kernel))
      (replicate 16 False) (start_state gdt_bytes) = Inr s' \<and>
    (\<exists>k e' c. start_kernel sample_symbols (\<lambda>_. bss_process) (kernel_entry sample_symbols 0 sample_irqs s') = Inr (k, e', c) \<and>
       kernel_inv k)"
proof -
  have image: "loader_image 32 (l_mem (start_state gdt_bytes))"
    using start_image [of gdt_bytes] length_gdt_bytes by simp
  have low: "l_mem (start_state gdt_bytes) x = 0" if "unat x < 0x90000" for x
    using that by (simp add: start_state_def gdt_bytes_def)
  have "unat x < 0x7f000 \<and> \<not> in_block x 0x30400 2" if "kernel_bss sample_symbols x" for x
    using that unat_diff_less_iff [of "0x34000" 4 x] unat_diff_less_iff [of "0x32000" 2048 x]
      unat_diff_less_iff [of "0x34000" 1064 x] unat_diff_less_iff [of "0x30400" 2 x]
    by (auto simp: kernel_bss_def sample_symbols_def in_block_def)
  then have out: "unat x < 0x7f000" "\<not> in_block x 0x30400 2" if "kernel_bss sample_symbols x" for x
    using that by blast+
  have "l_mem (start_state gdt_bytes) x = 0" if "kernel_bss sample_symbols x" for x
    using low out(1) [OF that] by simp
  then have bss: "\<forall>x. kernel_bss sample_symbols x \<longrightarrow> unat x < 0x7f000 \<and>
      loaded_byte (file_bytes (sample_floppy [] small_kernel) [3]) 84 0x30400 2 (l_mem (start_state gdt_bytes)) x = 0"
    using out by (simp add: loaded_byte_def)
  obtain s' where s': "loader_program (label_of 32) (\<lambda>ebx. if ebx = 0 then Some (small_map, 0) else None)
      (bios_of (sample_floppy [] small_kernel)) (replicate 16 False) (start_state gdt_bytes) = Inr s'"
    "\<forall>q out. \<exists>k e' c. start_kernel sample_symbols out (kernel_entry sample_symbols 0 q s') = Inr (k, e', c) \<and>
       reachable sample_symbols (pm_gdt e') k \<and> process_ready k = 0 \<and> kernel_inv k"
    using floppy_to_first_process [where xs = "[small_map]" and off = 84 and vaddr = "0x30400" and len = 2
        and cs = "[3]" and flags = "replicate 16 False" and b = 32 and g = 0 and s = "start_state gdt_bytes" and
        mem_bios = "\<lambda>ebx. if ebx = 0 then Some (small_map, 0) else None" and lnk = sample_symbols,
        OF image _ _ _ _ _ _ sample_floppy_bios sample_files(3,6) [of "[]" small_kernel] _ _ _ _ _ _ _ _ _ bss]
      sample_files(4,8) [of "[]" small_kernel] small_kernel_segment small_map_top gdt_bytes_gdt sample_tables_apart
    by (auto simp: start_state_def successes_def small_map_def sample_symbols_def)
  then show ?thesis by blast
qed

end
