(* ===== verification/Spec2Isabelle.thy ===== *)
theory Spec2Isabelle
  imports System Interleaving Keyboard Disk_Io Printing Boot Exceptions Disk_Service Disk_Report Debug Floppy Loader Startup
begin

text \<open>
  A verification of WalOS: its boot code (\<open>src/boot\<close>) and its kernel (\<open>src/kernel\<close>, \<open>src/lib\<close>), a
  small i386 kernel with four tasks in ring 1 (console, system, disk, file system) and three processes in ring 3, a
  tick scheduler, synchronous messages between processes, and drivers for keyboard, screen and
  disk that talk to the rest of the system by messages.

  \<^bold>\<open>How the parts interact.\<close> A process asks for a service by a message: \<open>send_recv\<close> traps
  into \<open>sys_send_recv\<close>, which calls \<open>msg_send\<close> or \<open>msg_recv\<close>; these block the caller with
  \<open>block\<close>, which runs the scheduler. Interrupt handlers wake a driver task with
  \<open>deliver_int_to_proc\<close>. Text goes from \<open>printf\<close> through \<open>sys_printx\<close> to a console; key
  presses go from the keyboard interrupt into a ring buffer, and the console task decodes and
  prints them. The file system task asks the disk task to open the root device. The boot sector
  loads the loader from a floppy, the loader loads the kernel, sets up paging and jumps to it; the
  kernel starts in \<open>init_pm_env\<close> and \<open>init_process_main\<close>, which build the tables the processor
  and the scheduler work with.

  \<^bold>\<open>The theories.\<close>

  \<^item> \<open>Prelude\<close>: machine integers (\<open>u8\<close>, \<open>u32\<close>, \<open>c_int\<close>), \<open>/\<close> and \<open>%\<close> of C, the ways in
    which code stops instead of returning (\<open>stop\<close>: failed assertions, indices out of a table,
    null pointers, copies of negative length, loops that never end), and generic lemmas on words and lists.
  \<^item> \<open>Lib_String\<close>: \<open>lib/string.c\<close> on a byte memory that maps every 32-bit address to a byte.
  \<^item> \<open>Lib_Common\<close>: \<open>lib/common.c\<close>: numbers to text (\<open>itoa_base\<close>), text to numbers
    (\<open>atoi\<close>), \<open>vsprintf\<close>, boot messages, waiting. \<open>itoa_base\<close> is compared with a list of
    digits, \<open>atoi\<close> reads back what \<open>itoa\<close> wrote except for all negative numbers but two.
  \<^item> \<open>Formatting\<close>: formats as lists of items and the refinement of this specification by
    \<open>vsprintf\<close>.
  \<^item> \<open>Core\<close>: \<open>kernel/core.c\<close> and \<open>kernel/exception.c\<close>: segment descriptors, gates, the
    interrupt table, and the descriptors the boot loader leaves (\<open>boot/loader.s\<close>).
  \<^item> \<open>Exceptions\<close>: the entries of \<open>kernel/gas/exception.s\<close> and the report of
    \<open>hw_exception_handler\<close>.
  \<^item> \<open>Irq\<close>: the interrupt controller and the timer, the handler table, masking and unmasking in
    \<open>kernel/gas/interrupt.s\<close>, and which lines can interrupt over any run of drivers and interrupts.
  \<^item> \<open>Process\<close>: \<open>kernel/process.c\<close>: the process table as a record of the kernel's state, the
    scheduler, address translation and interrupt delivery. The locale \<open>scheduler\<close> states what
    the message code relies on.
  \<^item> \<open>Message\<close>: \<open>kernel/message.c\<close>: sending, receiving, the queue of senders linked through
    the table, the search for a cycle of senders; the invariant \<open>ipc_wf\<close>.
  \<^item> \<open>Init\<close>: \<open>init_process_main\<close> and the state the kernel starts in.
  \<^item> \<open>Rendezvous\<close>: an abstract machine (a status for each process and a queue of senders) and
    the refinement lemmas for the message operations.
  \<^item> \<open>Syscall\<close>: kernel entry and exit (\<open>kernel/gas/interrupt.s\<close>), \<open>sys_send_recv\<close>, the clock
    and disk interrupts as seen by a process that runs, and the invariant of the message kernel.
  \<^item> \<open>System\<close>: the system task, fairness of the scheduler, and the answer to \<open>get_ticks\<close>.
  \<^item> \<open>Interleaving\<close>: the running system as a step relation: computations, both system calls, and clock,
    disk and keyboard interrupts, which may come inside a kernel entry and inside each other.
  \<^item> \<open>Floppy\<close>: the real-mode code of \<open>boot/boot.s\<close> and \<open>boot/loader.s\<close> that loads a file from a FAT12
    floppy, compared with the directory, the table and the clusters of the disk.
  \<^item> \<open>Loader\<close>: the rest of \<open>boot/loader.s\<close>: memory map and its report, page tables, the copy of the
    kernel by its ELF headers, and \<open>loader_program\<close>, all of it up to the jump into the kernel.
  \<^item> \<open>Boot\<close>: \<open>init_pm_env\<close>, the entry \<open>kernel/gas/entry.s\<close> and \<open>init_process_main\<close> to its
    end: from the state the loader leaves to the first process. \<open>Startup\<close>: \<open>Loader\<close> and \<open>Boot\<close> put
    together, from the floppy to the first process, with the kernel's variables read from the memory
    the loader leaves.
  \<^item> \<open>Ring_Buffer\<close>: the bounded queue both buffers of the keyboard path are, as a locale with
    its abstraction to lists.
  \<^item> \<open>Console\<close>: \<open>kernel/console.c\<close>: three windows on the video memory, scrolling, the cursor
    and start registers of the display controller.
  \<^item> \<open>Keyboard\<close>: the keyboard part of \<open>kernel/interrupt.c\<close>, the key table of
    \<open>kernel/global.c\<close>, and the loop of the console task.
  \<^item> \<open>Printing\<close>: \<open>sys_printx\<close>, \<open>printf\<close> and the messages of \<open>lib/debug.c\<close>; \<open>Debug\<close>: \<open>assert_failure\<close>
    and \<open>CRITICAL\<close>, and how they end.
  \<^item> \<open>Hdd\<close>: \<open>kernel/hdd.c\<close> and \<open>kernel/fs.c\<close>: all requests of the disk task.
  \<^item> \<open>Partitions\<close>: what opening a disk reads from it.
  \<^item> \<open>Disk_Io\<close>: reading, writing, geometry,
    device numbers, and the request for the root device.
  \<^item> \<open>Disk_Service\<close>: the loop of the disk task, and the interrupt that ends it.
  \<^item> \<open>Disk_Report\<close>: what the disk task prints about a drive and its partitions.

  \<^bold>\<open>State.\<close> \<open>kernel\<close> is the process table, the current process, \<open>int_reenter\<close>, the tick
  count and the memory. \<open>display\<close> is the consoles, the cells of the video memory and the two
  controller registers; \<open>real_mode\<close> and \<open>loader\<close> are the memory and variables while the system boots;
  \<open>keyboard\<close> the scan-code buffer, the lock keys and the values the
  ports will give; \<open>hdd\<close> the kernel with the driver's buffer and table, the command the
  controller works on, and a trace of what was done to its ports. \<open>irqs\<close> is the two interrupt chips,
  the handler table and what was written to the timer; \<open>pm_env\<close> the tables and the screen while the
  kernel starts. Pointers into the process
  table are indices; pointers into memory are addresses.

  \<^bold>\<open>Loops and bounds.\<close> Loops that need not end (the scheduler with nobody to run, string loops
  without a terminator, the transfer loop of the disk, \<open>itoa_base\<close> with a bad base) are
  \<open>partial_function\<close>s with \<open>None\<close> for not returning, and that they return is a theorem of its
  own. Waiting on hardware consumes lists of the values the ports and the clock will give: it
  is \<open>None\<close> or \<open>No_return\<close> beyond their end, and the theorems say how many values suffice
  (\<open>quiet n\<close>: enough for \<open>n\<close> disk commands; 14 successful reads and two for each cluster of a file on
  the floppy). The loop counters of the loader are numbers of rounds (\<open>loop_count\<close>: 0 means
  \<open>2 ^ 32\<close>). Indices out of a table stop with \<open>Out_of_table\<close>. Integers have their width everywhere. The controller of the disk is a
  parameter; \<open>serves\<close> is what a controller does that reads sectors of a disk, and
  \<open>sample_controller\<close> is one.

  \<^bold>\<open>The lemma groups.\<close> Invariants: \<open>ipc_wf\<close> and \<open>kernel_inv\<close> (table, queues, slices),
  \<open>display_wf\<close> and \<open>synced\<close> (windows and controller), \<open>kb_wf\<close> (buffers), \<open>one_drive\<close> (the
  disk table), \<open>irq_inv\<close> (enabled lines have their handler), each kept by every operation. \<open>live\<close> is the
  part of \<open>kernel_inv\<close> that holds also when the clock has ticked inside a system call: such a tick counts
  the slice down without a switch.
  Refinements: messages to the rendezvous machine, buffers to lists, \<open>vsprintf\<close> to items, partition
  tables to the bytes of the disk, the boot code's search and chain to the directory and the table of the floppy.
  Termination: the scheduler, sending, receiving, printing, disk transfers, waiting. End to end: the
  kernel's segment gets from the floppy to its address, a \<open>get_ticks\<close> request is answered, typed
  text appears, what is printed appears, the root device is opened, the floppy leads to the first
  process, an exception is reported, a failed assertion ends its process.

  \<^bold>\<open>Not modelled.\<close> The BIOS, which is a parameter (\<open>floppy_bios\<close> says that it reads the disk, \<open>e820_map\<close>
  that it gives a memory map), and with it what it draws; segment registers and the A20 line. The port instructions themselves; the processes A, B and C, which are endless
  loops around \<open>printf\<close>. The printing inside the search for a deadlock is left out, and the
  texts the disk task prints are given as the formats and arguments of its \<open>printf\<close> calls. The process
  table is not part of the byte memory, so a message buffer that overlaps it is not described.
  The C function of a system call or of an interrupt handler is one step. \<open>Interleaving\<close> has
  interrupts in front of it and behind it, where \<open>sys_call\<close> and the \<open>hw_int\<close> macros have set the interrupt
  flag, but not between its own instructions: \<open>msg_recv_lost_wakeup\<close> is what an interrupt does there in one
  case, a clock tick between two rounds of the scheduler's loops is not described. The properties of
  single calls (\<open>System\<close>, \<open>Printing\<close>, \<open>Debug\<close>) are about calls without an interrupt inside. In
  the disk driver the receive of an interrupt message is an event of the trace and the tick counts of
  \<open>get_status\<close> are a list, so the blocking of the disk task, its messages to the system task and the scheduling inside a
  request are left out, and a controller that \<open>serves\<close> a disk has each block ready when the driver reads it (for
  the requests that open a device the driver waits for it, for a read request it does not). What a message on
  the screen looks like is said of the cells of the video memory: which of them are visible depends on the start
  address of the display controller. Signed overflow wraps, as on the machine.
\<close>

end
